(* ===== verification/Prelude.thy ===== *)
theory Prelude
  imports Main "HOL-Library.Word"
begin

text \<open>
  Shared vocabulary of the development: the machine integers of the Go code as words of
  their width, the byte-order helpers of Go's \<open>encoding/binary\<close>, writes into a byte
  buffer at an offset, and the lemma collections the component theories feed.

  \<^item> \<open>wire_simps\<close>: facts that evaluate reads and writes of wire bytes;
  \<^item> \<open>inv_intros\<close>: one preservation lemma per operation of a component.
\<close>

unbundle bit_operations_syntax

named_theorems wire_simps
named_theorems inv_intros

type_synonym u8 = "8 word"
type_synonym u16 = "16 word"
type_synonym u32 = "32 word"
type_synonym u64 = "64 word"
type_synonym bytes = "u8 list"

section \<open>Big-endian integers\<close>

text \<open>Go's \<open>binary.BigEndian.PutUint16/32/64\<close>: the bytes that are stored, in order.\<close>

definition put_be16 :: "u16 \<Rightarrow> bytes" where
  "put_be16 v = [ucast (drop_bit 8 v), ucast v]"

definition put_be32 :: "u32 \<Rightarrow> bytes" where
  "put_be32 v = [ucast (drop_bit 24 v), ucast (drop_bit 16 v), ucast (drop_bit 8 v), ucast v]"

definition put_be64 :: "u64 \<Rightarrow> bytes" where
  "put_be64 v =
     [ucast (drop_bit 56 v), ucast (drop_bit 48 v), ucast (drop_bit 40 v), ucast (drop_bit 32 v),
      ucast (drop_bit 24 v), ucast (drop_bit 16 v), ucast (drop_bit 8 v), ucast v]"

text \<open>Go's \<open>binary.BigEndian.Uint16/32/64\<close> on the first bytes of a slice.\<close>

definition get_be16 :: "bytes \<Rightarrow> u16" where
  "get_be16 b = ucast (b ! 1) OR push_bit 8 (ucast (b ! 0))"

definition get_be32 :: "bytes \<Rightarrow> u32" where
  "get_be32 b = ucast (b ! 3) OR push_bit 8 (ucast (b ! 2))
     OR push_bit 16 (ucast (b ! 1)) OR push_bit 24 (ucast (b ! 0))"

definition get_be64 :: "bytes \<Rightarrow> u64" where
  "get_be64 b = ucast (b ! 7) OR push_bit 8 (ucast (b ! 6))
     OR push_bit 16 (ucast (b ! 5)) OR push_bit 24 (ucast (b ! 4))
     OR push_bit 32 (ucast (b ! 3)) OR push_bit 40 (ucast (b ! 2))
     OR push_bit 48 (ucast (b ! 1)) OR push_bit 56 (ucast (b ! 0))"

lemma length_put_be [simp]:
  "length (put_be16 v) = 2" "length (put_be32 w) = 4" "length (put_be64 x) = 8"
  by (simp_all add: put_be16_def put_be32_def put_be64_def)

text \<open>Bit \<open>n\<close> of a word assembled from byte slots.\<close>

lemmas bit_slots = bit_or_iff bit_push_bit_iff' bit_push_bit_iff bit_ucast_iff bit_drop_bit_eq
  o_apply possible_bit_word len_num1 len_bit0 len_bit1 possible_bit_def

lemma bit8_out: "8 \<le> m \<Longrightarrow> \<not> bit (w :: u8) m"
  using bit_imp_le_length [of w m] by auto

lemma get_be16_put [wire_simps]: "get_be16 (put_be16 v @ r) = v"
proof -
  have "ucast (ucast v :: u8) OR push_bit 8 (ucast (ucast (drop_bit 8 v) :: u8)) = v"
    by (rule bit_word_eqI) (simp only: bit_slots, auto)
  then show ?thesis by (simp add: get_be16_def put_be16_def)
qed

lemma get_be32_put [wire_simps]: "get_be32 (put_be32 v @ r) = v"
proof -
  have "ucast (ucast v :: u8) OR push_bit 8 (ucast (ucast (drop_bit 8 v) :: u8))
    OR push_bit 16 (ucast (ucast (drop_bit 16 v) :: u8))
    OR push_bit 24 (ucast (ucast (drop_bit 24 v) :: u8)) = v" (is "?l = v")
  proof (rule bit_word_eqI)
    fix n assume "n < LENGTH(32)"
    then have "\<exists>m<8. n = m \<or> n = 8 + m \<or> n = 16 + m \<or> n = 24 + m" by simp presburger
    then obtain m where "m < 8" "n = m \<or> n = 8 + m \<or> n = 16 + m \<or> n = 24 + m" by blast
    then show "bit ?l n = bit v n" by (elim disjE; simp only: bit_slots; simp)
  qed
  then show ?thesis by (simp add: get_be32_def put_be32_def)
qed

lemma get_be64_put [wire_simps]: "get_be64 (put_be64 v @ r) = v"
proof -
  have "ucast (ucast v :: u8) OR push_bit 8 (ucast (ucast (drop_bit 8 v) :: u8))
    OR push_bit 16 (ucast (ucast (drop_bit 16 v) :: u8))
    OR push_bit 24 (ucast (ucast (drop_bit 24 v) :: u8))
    OR push_bit 32 (ucast (ucast (drop_bit 32 v) :: u8))
    OR push_bit 40 (ucast (ucast (drop_bit 40 v) :: u8))
    OR push_bit 48 (ucast (ucast (drop_bit 48 v) :: u8))
    OR push_bit 56 (ucast (ucast (drop_bit 56 v) :: u8)) = v" (is "?l = v")
  proof (rule bit_word_eqI)
    fix n assume "n < LENGTH(64)"
    then have "\<exists>m<8. n = m \<or> n = 8 + m \<or> n = 16 + m \<or> n = 24 + m \<or> n = 32 + m \<or> n = 40 + m
      \<or> n = 48 + m \<or> n = 56 + m" by simp presburger
    then obtain m where "m < 8" "n = m \<or> n = 8 + m \<or> n = 16 + m \<or> n = 24 + m \<or> n = 32 + m
      \<or> n = 40 + m \<or> n = 48 + m \<or> n = 56 + m" by blast
    then show "bit ?l n = bit v n" by (elim disjE; simp only: bit_slots; simp)
  qed
  then show ?thesis by (simp add: get_be64_def put_be64_def)
qed

lemmas get_be_put_nil [wire_simps] =
  get_be16_put [where r = "[]", simplified]
  get_be32_put [where r = "[]", simplified]
  get_be64_put [where r = "[]", simplified]

lemma put_be16_get [wire_simps]:
  assumes "length xs = 2" shows "put_be16 (get_be16 xs) = xs"
proof -
  from assms obtain a b where xs: "xs = [a, b]"
    by (auto simp: length_Suc_conv numeral_eq_Suc)
  have "ucast (drop_bit 8 (ucast b OR push_bit 8 (ucast a) :: u16)) = a"
    "ucast (ucast b OR push_bit 8 (ucast a) :: u16) = b"
    by (rule bit_word_eqI, simp only: bit_slots, simp add: bit8_out)+
  then show ?thesis by (simp add: xs get_be16_def put_be16_def)
qed

lemma put_be32_get [wire_simps]:
  assumes "length xs = 4" shows "put_be32 (get_be32 xs) = xs"
proof -
  from assms obtain a b c d where xs: "xs = [a, b, c, d]"
    by (auto simp: length_Suc_conv numeral_eq_Suc)
  let ?w = "ucast d OR push_bit 8 (ucast c) OR push_bit 16 (ucast b) OR push_bit 24 (ucast a) :: u32"
  have "ucast (drop_bit 24 ?w) = a" "ucast (drop_bit 16 ?w) = b" "ucast (drop_bit 8 ?w) = c"
    "ucast ?w = d"
    by (rule bit_word_eqI, simp only: bit_slots, simp add: bit8_out)+
  then show ?thesis by (simp add: xs get_be32_def put_be32_def)
qed

lemma put_be64_get [wire_simps]:
  assumes "length xs = 8" shows "put_be64 (get_be64 xs) = xs"
proof -
  from assms obtain a b c d e f g h where xs: "xs = [a, b, c, d, e, f, g, h]"
    by (auto simp: length_Suc_conv numeral_eq_Suc)
  let ?w = "ucast h OR push_bit 8 (ucast g) OR push_bit 16 (ucast f) OR push_bit 24 (ucast e)
    OR push_bit 32 (ucast d) OR push_bit 40 (ucast c) OR push_bit 48 (ucast b)
    OR push_bit 56 (ucast a) :: u64"
  have "ucast (drop_bit 56 ?w) = a" "ucast (drop_bit 48 ?w) = b" "ucast (drop_bit 40 ?w) = c"
    "ucast (drop_bit 32 ?w) = d" "ucast (drop_bit 24 ?w) = e" "ucast (drop_bit 16 ?w) = f"
    "ucast (drop_bit 8 ?w) = g" "ucast ?w = h"
    by (rule bit_word_eqI, simp only: bit_slots, simp add: bit8_out)+
  then show ?thesis by (simp add: xs get_be64_def put_be64_def)
qed

section \<open>Slices and buffer writes\<close>

text \<open>Go's \<open>xs[a:b]\<close>.\<close>

definition subslice :: "nat \<Rightarrow> nat \<Rightarrow> 'a list \<Rightarrow> 'a list" where
  "subslice a b xs = take (b - a) (drop a xs)"

text \<open>\<open>copy(out[off:], bs)\<close> where the bytes fit: they replace what the buffer held there.\<close>

definition overwrite :: "nat \<Rightarrow> 'a list \<Rightarrow> 'a list \<Rightarrow> 'a list" where
  "overwrite off bs out = take off out @ bs @ drop (off + length bs) out"

lemma length_subslice [simp]: "length (subslice a b xs) = min (b - a) (length xs - a)"
  by (simp add: subslice_def min_def)

lemma length_overwrite: "off + length bs \<le> length out \<Longrightarrow> length (overwrite off bs out) = length out"
  by (simp add: overwrite_def)

lemma slice_slice_append: "a \<le> b \<Longrightarrow> b \<le> c \<Longrightarrow> subslice a b xs @ subslice b c xs = subslice a c xs"
proof -
  assume "a \<le> b" "b \<le> c"
  then have "drop b xs = drop (b - a) (drop a xs)" "c - a = (b - a) + (c - b)" by auto
  then show ?thesis by (simp add: subslice_def take_add)
qed

lemma slice_drop_append: "a \<le> b \<Longrightarrow> subslice a b xs @ drop b xs = drop a xs"
  by (metis append_take_drop_id drop_drop le_add_diff_inverse2 subslice_def)

lemma slice_0 [simp]: "subslice 0 b xs = take b xs"
  by (simp add: subslice_def)

lemma slice_single: "a < length xs \<Longrightarrow> subslice a (Suc a) xs = [xs ! a]"
  by (simp add: subslice_def take_Suc_conv_app_nth)

text \<open>The first write into a buffer, and a write right behind an already written prefix.\<close>

lemma overwrite_first: "overwrite 0 bs out = bs @ drop (length bs) out"
  by (simp add: overwrite_def)

lemma overwrite_next:
  "length pre = off \<Longrightarrow> overwrite off bs (pre @ drop k out) = (pre @ bs) @ drop (k + length bs) out"
  by (simp add: overwrite_def add.commute)

text \<open>Reassembling a list from its slices.\<close>

lemma take_subslice [wire_simps]:
  "a \<le> b \<Longrightarrow> take a xs @ subslice a b xs = take b xs"
  "a \<le> b \<Longrightarrow> take a xs @ subslice a b xs @ r = take b xs @ r"
  using slice_slice_append [of 0 a b xs] by (simp_all flip: append_assoc)

lemma take_nth [wire_simps]:
  "a < length xs \<Longrightarrow> take a xs @ xs ! a # r = take (Suc a) xs @ r"
  by (simp add: take_Suc_conv_app_nth)

lemma nth_0_subslice [wire_simps]:
  "0 < length xs \<Longrightarrow> 1 \<le> b \<Longrightarrow> xs ! 0 # subslice (Suc 0) b xs = take b xs"
  "0 < length xs \<Longrightarrow> 1 \<le> b \<Longrightarrow> xs ! 0 # subslice (Suc 0) b xs @ r = take b xs @ r"
  using take_subslice(1) [of 1 b xs] by (cases xs; simp)+

lemma two_nths [wire_simps]: "length xs = 2 \<Longrightarrow> [xs ! 0, xs ! Suc 0] = xs"
  by (auto simp: length_Suc_conv numeral_2_eq_2)

section \<open>Small words\<close>

lemma u8_le_4: "(s :: u8) \<le> 4 \<Longrightarrow> s = 0 \<or> s = 1 \<or> s = 2 \<or> s = 3 \<or> s = 4"
  by unat_arith

lemma u8_le_10: "(s :: u8) \<le> 10 \<Longrightarrow> s = 0 \<or> s = 1 \<or> s = 2 \<or> s = 3 \<or> s = 4 \<or> s = 5 \<or> s = 6
    \<or> s = 7 \<or> s = 8 \<or> s = 9 \<or> s = 10"
  by unat_arith

lemma take_bit_and3: "x AND 3 = take_bit 2 x" for x :: "'a::len word"
proof -
  have "(3 :: 'a word) = mask 2" by (simp add: mask_eq_exp_minus_1)
  then show ?thesis by (simp only: take_bit_eq_mask)
qed

lemma take_bit_and7: "x AND 7 = take_bit 3 x" for x :: "'a::len word"
proof -
  have "(7 :: 'a word) = mask 3" by (simp add: mask_eq_exp_minus_1)
  then show ?thesis by (simp only: take_bit_eq_mask)
qed

lemma bit_lt_pow:
  assumes "unat w < 2 ^ k" and "bit w n" shows "n < k"
proof (rule ccontr)
  assume "\<not> n < k"
  then have "(2 :: nat) ^ k \<le> 2 ^ n" by simp
  with assms(1) have "unat w < 2 ^ n" by linarith
  then have "\<not> bit (unat w) n" by (simp add: bit_iff_odd)
  with assms(2) show False by (simp add: bit_unsigned_iff)
qed

text \<open>Widening a word keeps its value.\<close>

lemma unat_ucast_up [simp]:
  "LENGTH('a :: len) \<le> LENGTH('b :: len) \<Longrightarrow> unat (ucast (w :: 'a word) :: 'b word) = unat w"
  by (metis le_trans less_le_trans linorder_not_le one_le_numeral power_increasing
      take_bit_nat_eq_self_iff unsigned_less unsigned_ucast_eq)

end
