(* ===== verification/Protocol.thy ===== *)
theory Protocol
  imports Prelude
begin

text \<open>
  The wire format of \<open>internal/protocol\<close> (\<open>protocol.go\<close>, \<open>body.go\<close>): frames, their bodies,
  \<open>Encode\<close> and \<open>Decode\<close>. A Go \<open>Body\<close> interface value is a \<open>body option\<close>, \<open>None\<close> the nil
  interface; each struct that implements \<open>Body\<close> is a constructor with its fields in order.
  \<open>encode\<close> takes the destination subslice and the spare capacity behind it, whose old contents
  \<open>slices.Grow\<close> exposes, so that "no stale byte reaches the wire" is a theorem.
\<close>

section \<open>Constants and data\<close>

abbreviation (input) Version :: u8 where "Version \<equiv> 2"
abbreviation (input) headerSize :: nat where "headerSize \<equiv> 10"

abbreviation (input) TypeHELLO :: u8 where "TypeHELLO \<equiv> 1"
abbreviation (input) TypeHELLOACK :: u8 where "TypeHELLOACK \<equiv> 2"
abbreviation (input) TypePING :: u8 where "TypePING \<equiv> 3"
abbreviation (input) TypePONG :: u8 where "TypePONG \<equiv> 4"
abbreviation (input) TypeDATA :: u8 where "TypeDATA \<equiv> 5"
abbreviation (input) TypeREPAIR :: u8 where "TypeREPAIR \<equiv> 6"
abbreviation (input) TypeCLOSE :: u8 where "TypeCLOSE \<equiv> 7"
abbreviation (input) TypeBandwidthProbe :: u8 where "TypeBandwidthProbe \<equiv> 8"
abbreviation (input) TypeBandwidthProbeAck :: u8 where "TypeBandwidthProbeAck \<equiv> 9"
abbreviation (input) TypeLinkStatus :: u8 where "TypeLinkStatus \<equiv> 10"

abbreviation (input) CapFEC :: u16 where "CapFEC \<equiv> 2"
abbreviation (input) CapLinkStatus :: u16 where "CapLinkStatus \<equiv> 4"
abbreviation (input) FECProfileOff :: u8 where "FECProfileOff \<equiv> 0"
abbreviation (input) FECProfileSLC4Plus1 :: u8 where "FECProfileSLC4Plus1 \<equiv> 1"
abbreviation (input) SessionControlLaneID :: u8 where "SessionControlLaneID \<equiv> 255"
abbreviation (input) CloseScopeLane :: u8 where "CloseScopeLane \<equiv> 1"
abbreviation (input) CloseScopeSession :: u8 where "CloseScopeSession \<equiv> 2"
abbreviation (input) CloseReasonUnknownSession :: u8 where "CloseReasonUnknownSession \<equiv> 1"
abbreviation (input) LinkStatusStateLimited :: u8 where "LinkStatusStateLimited \<equiv> 1"
abbreviation (input) maxGroupID :: u32 where "maxGroupID \<equiv> 1073741823"
abbreviation (input) sourceIndexMask :: u32 where "sourceIndexMask \<equiv> 3"

datatype proto_error = ErrFrameTooShort | ErrInvalidFrame | ErrBodyTooShort | TypeAssertionPanic

datatype body =
    HelloBody (hb_nonce: u64) (hb_caps: u16) (hb_profile: u8)
  | HelloAckBody (ab_nonce: u64) (ab_accepted: u8) (ab_caps: u16) (ab_profile: u8)
  | PingBody (pb_id: u64) (pb_time: u64)
  | DataBody (db_group: u32) (db_index: u8) (db_packet: bytes)
  | RepairBody (rb_group: u32) (rb_key: u16) (rb_span: u8) (rb_count: u8) (rb_symbol: bytes)
  | CloseBody (cb_scope: u8) (cb_reason: u8)
  | BandwidthProbeBody (wb_train: u64) (wb_probe: u64) (wb_seq: u16) (wb_count: u16)
      (wb_send: u64) (wb_target: u64) (wb_remaining: u64) (wb_payload: bytes)
  | BandwidthProbeAckBody (kb_probe: u64) (kb_base: u16) (kb_count: u16) (kb_received: u64)
      (kb_first: u64) (kb_last: u64)
  | LinkStatusBody (lb_status: u8) (lb_udp: u32) (lb_tcp: u32)

record frame =
  f_version :: u8
  f_type :: u8
  f_session :: u64
  f_lane :: u8
  f_body :: "body option"

section \<open>Field checks\<close>

definition validRepairSourceSpan :: "u8 \<Rightarrow> bool" where
  "validRepairSourceSpan s \<longleftrightarrow> 1 \<le> s \<and> s \<le> 4"

definition validRepairCount :: "u8 \<Rightarrow> bool" where
  "validRepairCount c \<longleftrightarrow> c \<le> 4"

definition encodeRepairSpanCount :: "u8 \<Rightarrow> u8 \<Rightarrow> u8" where
  "encodeRepairSpanCount s c =
     (let c' = (if c = 0 then 1 else c) in s OR push_bit 3 (c' - 1))"

definition decodeRepairSpanCount :: "u8 \<Rightarrow> (u8 \<times> u8) option" where
  "decodeRepairSpanCount packed =
     (if packed AND 0xE0 \<noteq> 0 then None
      else let s = packed AND 7; c = (drop_bit 3 packed AND 3) + 1
           in if validRepairSourceSpan s then Some (s, c) else None)"

definition validLinkStatusState :: "u8 \<Rightarrow> bool" where
  "validLinkStatusState s \<longleftrightarrow> s \<le> 7"

definition validLinkStatusStatus :: "u8 \<Rightarrow> bool" where
  "validLinkStatusStatus s \<longleftrightarrow>
     validLinkStatusState (drop_bit 4 s) \<and> validLinkStatusState (s AND 15)"

section \<open>Encoding\<close>

definition validBody :: "nat \<Rightarrow> bool \<Rightarrow> proto_error + nat" where
  "validBody n ok = (if ok then Inr n else Inl ErrInvalidFrame)"

definition encodedBodySize :: "frame \<Rightarrow> proto_error + nat" where
  "encodedBodySize f =
     (if f_type f = TypeHELLO then
        validBody 11 (case f_body f of Some (HelloBody _ _ _) \<Rightarrow> True | _ \<Rightarrow> False)
      else if f_type f = TypeHELLOACK then
        validBody 12 (case f_body f of Some (HelloAckBody _ _ _ _) \<Rightarrow> True | _ \<Rightarrow> False)
      else if f_type f = TypePING \<or> f_type f = TypePONG then
        validBody 16 (case f_body f of Some (PingBody _ _) \<Rightarrow> True | _ \<Rightarrow> False)
      else if f_type f = TypeDATA then
        (case f_body f of
           Some (DataBody g i p) \<Rightarrow>
             if g > maxGroupID \<or> ucast i > sourceIndexMask then Inl ErrInvalidFrame
             else Inr (4 + length p)
         | _ \<Rightarrow> Inl ErrInvalidFrame)
      else if f_type f = TypeREPAIR then
        (case f_body f of
           Some (RepairBody g k s c y) \<Rightarrow>
             if g > maxGroupID \<or> \<not> validRepairSourceSpan s \<or> \<not> validRepairCount c
             then Inl ErrInvalidFrame else Inr (7 + length y)
         | _ \<Rightarrow> Inl ErrInvalidFrame)
      else if f_type f = TypeCLOSE then
        validBody 2 (case f_body f of Some (CloseBody _ _) \<Rightarrow> True | _ \<Rightarrow> False)
      else if f_type f = TypeBandwidthProbe then
        (case f_body f of
           Some (BandwidthProbeBody _ _ q c _ _ _ y) \<Rightarrow>
             if c = 0 \<or> c > 64 \<or> q \<ge> c then Inl ErrInvalidFrame else Inr (44 + length y)
         | _ \<Rightarrow> Inl ErrInvalidFrame)
      else if f_type f = TypeBandwidthProbeAck then
        (case f_body f of
           Some (BandwidthProbeAckBody _ b c _ _ _) \<Rightarrow>
             if c = 0 \<or> c > 64 \<or> b \<noteq> 0 then Inl ErrInvalidFrame else Inr 36
         | _ \<Rightarrow> Inl ErrInvalidFrame)
      else if f_type f = TypeLinkStatus then
        (case f_body f of
           Some (LinkStatusBody s _ _) \<Rightarrow>
             if \<not> validLinkStatusStatus s then Inl ErrInvalidFrame else Inr 9
         | _ \<Rightarrow> Inl ErrInvalidFrame)
      else Inl ErrInvalidFrame)"

text \<open>
  The body is written into \<open>out\<close> field by field. A failed type assertion would panic; that
  branch is kept as \<open>TypeAssertionPanic\<close>.
\<close>

definition encodeBodyInto :: "frame \<Rightarrow> bytes \<Rightarrow> proto_error + bytes" where
  "encodeBodyInto f out =
     (if f_type f = TypeHELLO then
        (case f_body f of
           Some (HelloBody n c p) \<Rightarrow>
             Inr (overwrite 10 [p] (overwrite 8 (put_be16 c) (overwrite 0 (put_be64 n) out)))
         | _ \<Rightarrow> Inl TypeAssertionPanic)
      else if f_type f = TypeHELLOACK then
        (case f_body f of
           Some (HelloAckBody n a c p) \<Rightarrow>
             Inr (overwrite 11 [p] (overwrite 9 (put_be16 c) (overwrite 8 [a] (overwrite 0 (put_be64 n) out))))
         | _ \<Rightarrow> Inl TypeAssertionPanic)
      else if f_type f = TypePING \<or> f_type f = TypePONG then
        (case f_body f of
           Some (PingBody i t) \<Rightarrow> Inr (overwrite 8 (put_be64 t) (overwrite 0 (put_be64 i) out))
         | _ \<Rightarrow> Inl TypeAssertionPanic)
      else if f_type f = TypeDATA then
        (case f_body f of
           Some (DataBody g i p) \<Rightarrow>
             Inr (overwrite 4 p (overwrite 0 (put_be32 (push_bit 2 g OR ucast i)) out))
         | _ \<Rightarrow> Inl TypeAssertionPanic)
      else if f_type f = TypeREPAIR then
        (case f_body f of
           Some (RepairBody g k s c y) \<Rightarrow>
             Inr (overwrite 7 y (overwrite 6 [encodeRepairSpanCount s c]
                   (overwrite 4 (put_be16 k) (overwrite 0 (put_be32 g) out))))
         | _ \<Rightarrow> Inl TypeAssertionPanic)
      else if f_type f = TypeCLOSE then
        (case f_body f of
           Some (CloseBody s r) \<Rightarrow> Inr (overwrite 1 [r] (overwrite 0 [s] out))
         | _ \<Rightarrow> Inl TypeAssertionPanic)
      else if f_type f = TypeBandwidthProbe then
        (case f_body f of
           Some (BandwidthProbeBody t i q c m b r y) \<Rightarrow>
             Inr (overwrite 44 y (overwrite 36 (put_be64 r) (overwrite 28 (put_be64 b)
                   (overwrite 20 (put_be64 m) (overwrite 18 (put_be16 c) (overwrite 16 (put_be16 q)
                   (overwrite 8 (put_be64 i) (overwrite 0 (put_be64 t) out))))))))
         | _ \<Rightarrow> Inl TypeAssertionPanic)
      else if f_type f = TypeBandwidthProbeAck then
        (case f_body f of
           Some (BandwidthProbeAckBody i b c r x l) \<Rightarrow>
             Inr (overwrite 28 (put_be64 l) (overwrite 20 (put_be64 x) (overwrite 12 (put_be64 r)
                   (overwrite 10 (put_be16 c) (overwrite 8 (put_be16 b) (overwrite 0 (put_be64 i) out))))))
         | _ \<Rightarrow> Inl TypeAssertionPanic)
      else if f_type f = TypeLinkStatus then
        (case f_body f of
           Some (LinkStatusBody s u t) \<Rightarrow>
             Inr (overwrite 5 (put_be32 t) (overwrite 1 (put_be32 u) (overwrite 0 [s] out)))
         | _ \<Rightarrow> Inl TypeAssertionPanic)
      else Inl ErrInvalidFrame)"

text \<open>
  \<open>slices.Grow(dst, need)\<close> followed by \<open>dst[:start+need]\<close>: the region behind \<open>dst\<close> is the old
  spare capacity, then zeros if the array had to be reallocated.
\<close>

definition grownRegion :: "bytes \<Rightarrow> nat \<Rightarrow> bytes" where
  "grownRegion spare need = take need (spare @ replicate need 0)"

definition encode :: "frame \<Rightarrow> bytes \<Rightarrow> bytes \<Rightarrow> proto_error + bytes" where
  "encode f0 dst spare =
     (let f = (if f_version f0 = 0 then f0\<lparr>f_version := Version\<rparr> else f0) in
      if f_version f \<noteq> Version then Inl ErrInvalidFrame
      else if f_type f = 0 \<or> f_type f > TypeLinkStatus then Inl ErrInvalidFrame
      else case encodedBodySize f of
        Inl e \<Rightarrow> Inl e
      | Inr bodyLen \<Rightarrow>
          let need = headerSize + bodyLen;
              out = grownRegion spare need;
              hdr = overwrite 9 [f_lane f] (overwrite 1 (put_be64 (f_session f))
                      (overwrite 0 [push_bit 4 (f_version f) OR f_type f] out))
          in case encodeBodyInto f (drop headerSize hdr) of
               Inl e \<Rightarrow> Inl e
             | Inr b \<Rightarrow> Inr (dst @ take headerSize hdr @ b))"

section \<open>Decoding\<close>

definition decodeBody :: "u8 \<Rightarrow> bytes \<Rightarrow> proto_error + body" where
  "decodeBody ty b =
     (if ty = TypeHELLO then
        if length b \<noteq> 11 then Inl ErrBodyTooShort
        else Inr (HelloBody (get_be64 (subslice 0 8 b)) (get_be16 (subslice 8 10 b)) (b ! 10))
      else if ty = TypeHELLOACK then
        if length b \<noteq> 12 then Inl ErrBodyTooShort
        else Inr (HelloAckBody (get_be64 (subslice 0 8 b)) (b ! 8) (get_be16 (subslice 9 11 b)) (b ! 11))
      else if ty = TypePING \<or> ty = TypePONG then
        if length b \<noteq> 16 then Inl ErrBodyTooShort
        else Inr (PingBody (get_be64 (subslice 0 8 b)) (get_be64 (subslice 8 16 b)))
      else if ty = TypeDATA then
        if length b < 4 then Inl ErrBodyTooShort
        else let gs = get_be32 (subslice 0 4 b)
             in Inr (DataBody (drop_bit 2 gs) (ucast (gs AND sourceIndexMask)) (drop 4 b))
      else if ty = TypeREPAIR then
        if length b < 7 then Inl ErrBodyTooShort
        else (case decodeRepairSpanCount (b ! 6) of
                None \<Rightarrow> Inl ErrInvalidFrame
              | Some (s, c) \<Rightarrow>
                  let g = get_be32 (subslice 0 4 b) in
                  if g > maxGroupID then Inl ErrInvalidFrame
                  else Inr (RepairBody g (get_be16 (subslice 4 6 b)) s c (drop 7 b)))
      else if ty = TypeCLOSE then
        if length b \<noteq> 2 then Inl ErrBodyTooShort else Inr (CloseBody (b ! 0) (b ! 1))
      else if ty = TypeBandwidthProbe then
        if length b < 44 then Inl ErrBodyTooShort
        else let c = get_be16 (subslice 18 20 b); q = get_be16 (subslice 16 18 b);
                 t = get_be64 (subslice 28 36 b); r = get_be64 (subslice 36 44 b)
             in if c = 0 \<or> c > 64 \<or> q \<ge> c then Inl ErrInvalidFrame
                else Inr (BandwidthProbeBody (get_be64 (subslice 0 8 b)) (get_be64 (subslice 8 16 b)) q c
                            (get_be64 (subslice 20 28 b)) t r (drop 44 b))
      else if ty = TypeBandwidthProbeAck then
        if length b \<noteq> 36 then Inl ErrBodyTooShort
        else let bs = get_be16 (subslice 8 10 b); c = get_be16 (subslice 10 12 b)
             in if c = 0 \<or> c > 64 \<or> bs \<noteq> 0 then Inl ErrInvalidFrame
                else Inr (BandwidthProbeAckBody (get_be64 (subslice 0 8 b)) bs c
                            (get_be64 (subslice 12 20 b)) (get_be64 (subslice 20 28 b))
                            (get_be64 (subslice 28 36 b)))
      else if ty = TypeLinkStatus then
        if length b \<noteq> 9 then Inl ErrBodyTooShort
        else let s = b ! 0 in
             if \<not> validLinkStatusStatus s then Inl ErrInvalidFrame
             else Inr (LinkStatusBody s (get_be32 (subslice 1 5 b)) (get_be32 (subslice 5 9 b)))
      else Inl ErrInvalidFrame)"

definition decode :: "bytes \<Rightarrow> proto_error + frame" where
  "decode src =
     (if length src < headerSize then Inl ErrFrameTooShort
      else let vt = src ! 0; version = drop_bit 4 vt; ty = vt AND 15 in
        if version \<noteq> Version \<or> ty = 0 \<or> ty > TypeLinkStatus then Inl ErrInvalidFrame
        else case decodeBody ty (drop headerSize src) of
          Inl e \<Rightarrow> Inl e
        | Inr b \<Rightarrow> Inr \<lparr>f_version = version, f_type = ty, f_session = get_be64 (subslice 1 9 src),
                          f_lane = src ! 9, f_body = Some b\<rparr>)"

section \<open>The reference wire image\<close>

fun wire_body :: "body \<Rightarrow> bytes" where
  "wire_body (HelloBody n c p) = put_be64 n @ put_be16 c @ [p]"
| "wire_body (HelloAckBody n a c p) = put_be64 n @ [a] @ put_be16 c @ [p]"
| "wire_body (PingBody i t) = put_be64 i @ put_be64 t"
| "wire_body (DataBody g i p) = put_be32 (push_bit 2 g OR ucast i) @ p"
| "wire_body (RepairBody g k s c y) = put_be32 g @ put_be16 k @ [encodeRepairSpanCount s c] @ y"
| "wire_body (CloseBody s r) = [s, r]"
| "wire_body (BandwidthProbeBody t i q c m b r y) =
     put_be64 t @ put_be64 i @ put_be16 q @ put_be16 c @ put_be64 m @ put_be64 b @ put_be64 r @ y"
| "wire_body (BandwidthProbeAckBody i b c r x l) =
     put_be64 i @ put_be16 b @ put_be16 c @ put_be64 r @ put_be64 x @ put_be64 l"
| "wire_body (LinkStatusBody s u t) = [s] @ put_be32 u @ put_be32 t"

text \<open>Which body a frame type takes, and what the encoder requires of it.\<close>

fun fits :: "u8 \<Rightarrow> body \<Rightarrow> bool" where
  "fits ty (HelloBody n c p) \<longleftrightarrow> ty = TypeHELLO"
| "fits ty (HelloAckBody n a c p) \<longleftrightarrow> ty = TypeHELLOACK"
| "fits ty (PingBody i t) \<longleftrightarrow> ty = TypePING \<or> ty = TypePONG"
| "fits ty (DataBody g i p) \<longleftrightarrow> ty = TypeDATA \<and> g \<le> maxGroupID \<and> ucast i \<le> sourceIndexMask"
| "fits ty (RepairBody g k s c y) \<longleftrightarrow>
     ty = TypeREPAIR \<and> g \<le> maxGroupID \<and> validRepairSourceSpan s \<and> validRepairCount c"
| "fits ty (CloseBody s r) \<longleftrightarrow> ty = TypeCLOSE"
| "fits ty (BandwidthProbeBody t i q c m b r y) \<longleftrightarrow>
     ty = TypeBandwidthProbe \<and> c \<noteq> 0 \<and> c \<le> 64 \<and> q < c"
| "fits ty (BandwidthProbeAckBody i b c r x l) \<longleftrightarrow>
     ty = TypeBandwidthProbeAck \<and> b = 0 \<and> c \<noteq> 0 \<and> c \<le> 64"
| "fits ty (LinkStatusBody s u t) \<longleftrightarrow> ty = TypeLinkStatus \<and> validLinkStatusStatus s"

lemma encodedBodySize_fits:
  "encodedBodySize f = Inr n \<longleftrightarrow>
     (\<exists>b. f_body f = Some b \<and> fits (f_type f) b \<and> n = length (wire_body b))"
proof
  assume "encodedBodySize f = Inr n"
  then show "\<exists>b. f_body f = Some b \<and> fits (f_type f) b \<and> n = length (wire_body b)"
    unfolding encodedBodySize_def validBody_def
    by (auto simp: not_le not_less split: if_splits option.splits body.splits)
next
  assume "\<exists>b. f_body f = Some b \<and> fits (f_type f) b \<and> n = length (wire_body b)"
  then show "encodedBodySize f = Inr n"
    by (auto elim!: fits.elims simp: encodedBodySize_def validBody_def not_le not_less)
qed

lemma encodeBodyInto_wire:
  "f_body f = Some b \<Longrightarrow> fits (f_type f) b \<Longrightarrow> length out = length (wire_body b) \<Longrightarrow>
    encodeBodyInto f out = Inr (wire_body b)"
  by (cases b; auto simp: encodeBodyInto_def overwrite_first overwrite_next overwrite_def)

fun canonBody :: "body \<Rightarrow> body" where
  "canonBody (RepairBody g k s c y) = RepairBody g k s (if c = 0 then 1 else c) y"
| "canonBody b = b"

lemma span_count_roundtrip:
  "validRepairSourceSpan s \<Longrightarrow> validRepairCount c \<Longrightarrow>
    decodeRepairSpanCount (encodeRepairSpanCount s c) = Some (s, if c = 0 then 1 else c)"
  unfolding validRepairSourceSpan_def validRepairCount_def
  by (elim conjE, drule u8_le_4 [of s], drule u8_le_4 [of c])
     (auto simp: decodeRepairSpanCount_def encodeRepairSpanCount_def validRepairSourceSpan_def Let_def)


lemma span_count_bits:
  fixes x :: u8
  assumes "x AND 0xE0 = 0"
  shows "take_bit 3 x OR push_bit 3 (take_bit 2 (drop_bit 3 x)) = x"
proof (rule bit_word_eqI)
  have hi: "\<not> bit x 5" "\<not> bit x 6" "\<not> bit x 7"
    using arg_cong [OF assms, of "\<lambda>w. bit w 5"] arg_cong [OF assms, of "\<lambda>w. bit w 6"]
      arg_cong [OF assms, of "\<lambda>w. bit w 7"] by (simp_all add: bit_and_iff)
  fix n assume "n < LENGTH(8)"
  then have "n = 5 \<or> n = 6 \<or> n = 7 \<or> n < 5" by auto
  with hi show "bit (take_bit 3 x OR push_bit 3 (take_bit 2 (drop_bit 3 x))) n = bit x n"
    by (auto simp only: bit_slots bit_take_bit_iff) auto
qed

lemma span_count_canonical:
  assumes "decodeRepairSpanCount x = Some (s, c)"
  shows "encodeRepairSpanCount s c = x" and "validRepairSourceSpan s" and "validRepairCount c"
    and "c \<noteq> 0"
proof -
  from assms have x: "x AND 0xE0 = 0" and s: "s = x AND 7" and c: "c = (drop_bit 3 x AND 3) + 1"
    and "validRepairSourceSpan s"
    by (auto simp: decodeRepairSpanCount_def Let_def split: if_splits)
  then show "validRepairSourceSpan s" by simp
  have "drop_bit 3 x AND 3 \<le> (3 :: u8)" by (simp add: word_and_le1)
  then have "drop_bit 3 x AND 3 = 0 \<or> drop_bit 3 x AND 3 = 1 \<or> drop_bit 3 x AND 3 = 2 \<or>
      drop_bit 3 x AND 3 = (3 :: u8)"
    by unat_arith
  with c show "c \<noteq> 0" "validRepairCount c" by (auto simp: validRepairCount_def)
  then show "encodeRepairSpanCount s c = x"
    using span_count_bits [OF x] c s
    by (simp add: encodeRepairSpanCount_def take_bit_and3 take_bit_and7)
qed

lemma group_index_roundtrip:
  fixes g :: u32 and i :: u8
  assumes "g \<le> maxGroupID" and "ucast i \<le> sourceIndexMask"
  shows "drop_bit 2 (push_bit 2 g OR ucast i) = g"
    and "ucast ((push_bit 2 g OR ucast i) AND sourceIndexMask) = i"
proof -
  from assms(1) have "unat g < 2 ^ 30" by (simp add: word_le_nat_alt)
  then have gb: "bit g n \<Longrightarrow> n < 30" for n by (rule bit_lt_pow)
  have "unat i < 2 ^ 32" using unsigned_less [of i, where 'a = nat] by simp
  with assms(2) have "unat i < 2 ^ 2"
    by (simp add: word_le_nat_alt unsigned_ucast_eq take_bit_nat_eq_self)
  then have ib: "bit i n \<Longrightarrow> n < 2" for n by (rule bit_lt_pow)
  show "drop_bit 2 (push_bit 2 g OR ucast i) = g"
    by (rule bit_word_eqI) (simp only: bit_slots, auto dest: gb ib)
  show "ucast ((push_bit 2 g OR ucast i) AND sourceIndexMask) = i"
    by (rule bit_word_eqI)
       (simp only: bit_slots take_bit_and3 bit_take_bit_iff, auto dest: gb ib)
qed

lemma group_index_canonical:
  fixes x :: u32
  shows "push_bit 2 (drop_bit 2 x) OR ucast (ucast (x AND sourceIndexMask) :: u8) = x"
    and "drop_bit 2 x \<le> maxGroupID"
    and "ucast (ucast (x AND sourceIndexMask) :: u8) \<le> sourceIndexMask"
proof -
  have [simp]: "2 \<le> n \<Longrightarrow> Suc (Suc (n - 2)) = n" for n by simp
  have lo: "ucast (ucast (x AND 3) :: u8) = (x AND 3 :: u32)"
    by (rule bit_word_eqI) (simp only: bit_slots take_bit_and3 bit_take_bit_iff, auto)
  show "push_bit 2 (drop_bit 2 x) OR ucast (ucast (x AND sourceIndexMask) :: u8) = x"
    unfolding lo by (rule bit_word_eqI) (simp only: bit_slots take_bit_and3 bit_take_bit_iff, auto simp: not_less)
  show "ucast (ucast (x AND sourceIndexMask) :: u8) \<le> sourceIndexMask"
    unfolding lo by (rule word_and_le1)
  have "unat (drop_bit 2 x) \<le> 1073741823"
    using unsigned_less [of x, where 'a = nat] by (simp add: unat_drop_bit_eq drop_bit_eq_div unat_div)
  then show "drop_bit 2 x \<le> maxGroupID" by (simp add: word_le_nat_alt)
qed

lemma decodeBody_wire:
  "fits ty b \<Longrightarrow> decodeBody ty (wire_body b) = Inr (canonBody b)"
  by (cases b; auto simp: decodeBody_def subslice_def wire_simps nth_append Let_def not_less
       group_index_roundtrip span_count_roundtrip not_le simp del: drop_bit_or)

lemma fits_canonBody: "fits ty b \<Longrightarrow> fits ty (canonBody b)"
  by (cases b) (auto simp: validRepairCount_def)

lemma wire_body_canonBody: "wire_body (canonBody b) = wire_body b"
  by (cases b) (auto simp: encodeRepairSpanCount_def)

lemma decodeBody_fits:
  assumes "decodeBody ty bs = Inr b"
  shows "fits ty b" and "wire_body b = bs" and "canonBody b = b"
proof -
  show "fits ty b"
    using assms unfolding decodeBody_def Let_def
    by (auto split: if_splits option.splits simp: not_less not_le group_index_canonical)
       (blast dest: span_count_canonical(2,3))+
  show "canonBody b = b"
    using assms unfolding decodeBody_def Let_def
    by (auto split: if_splits option.splits dest!: span_count_canonical(4))
  show "wire_body b = bs"
  proof (cases "ty = TypeBandwidthProbeAck")
    case True
    with assms have "length bs = 36" and "b = BandwidthProbeAckBody (get_be64 (subslice 0 8 bs))
       (get_be16 (subslice 8 10 bs)) (get_be16 (subslice 10 12 bs)) (get_be64 (subslice 12 20 bs))
       (get_be64 (subslice 20 28 bs)) (get_be64 (subslice 28 36 bs))"
      by (auto simp: decodeBody_def Let_def split: if_splits)
    then show ?thesis by (simp add: wire_simps)
  next
    case False
    with assms show ?thesis unfolding decodeBody_def Let_def
      by (auto split: if_splits option.splits dest!: span_count_canonical(1)
          simp: wire_simps group_index_canonical not_less)
  qed
qed


section \<open>Whole frames\<close>

definition canonFrame :: "frame \<Rightarrow> frame" where
  "canonFrame f = f\<lparr>f_version := Version, f_body := map_option canonBody (f_body f)\<rparr>"

definition encodable :: "frame \<Rightarrow> bool" where
  "encodable f \<longleftrightarrow> (f_version f = 0 \<or> f_version f = Version) \<and>
     (\<exists>b. f_body f = Some b \<and> fits (f_type f) b)"

definition wire_frame :: "frame \<Rightarrow> bytes" where
  "wire_frame f = (32 OR f_type f) # put_be64 (f_session f) @ f_lane f # wire_body (the (f_body f))"

lemma fits_type: "fits ty b \<Longrightarrow> ty \<noteq> 0 \<and> ty \<le> TypeLinkStatus"
  by (cases b) auto

lemma length_grownRegion [simp]: "length (grownRegion spare n) = n"
  by (simp add: grownRegion_def)

lemma header_written:
  "overwrite 9 [l] (overwrite (Suc 0) (put_be64 n) (overwrite 0 [x] out)) = x # put_be64 n @ l # drop 10 out"
  using overwrite_next [of "[x]" 1 "put_be64 n" 1 out]
    overwrite_next [of "x # put_be64 n" 9 "[l]" 9 out]
  by (simp add: overwrite_first)

lemma encode_encodable:
  assumes "encodable f" shows "encode f dst spare = Inr (dst @ wire_frame f)"
proof -
  from assms obtain b where v: "f_version f = 0 \<or> f_version f = Version"
    and b: "f_body f = Some b" and fit: "fits (f_type f) b"
    by (auto simp: encodable_def)
  define f' where "f' = (if f_version f = 0 then f\<lparr>f_version := Version\<rparr> else f)"
  have f': "f_version f' = Version" "f_type f' = f_type f" "f_session f' = f_session f"
    "f_lane f' = f_lane f" "f_body f' = Some b" using v b by (auto simp: f'_def)
  have size: "encodedBodySize f' = Inr (length (wire_body b))"
    by (simp add: encodedBodySize_fits f' fit)
  have body: "encodeBodyInto f' (drop 10 (grownRegion spare (10 + length (wire_body b))))
      = Inr (wire_body b)"
    by (rule encodeBodyInto_wire) (simp_all add: f' fit)
  show ?thesis using fits_type [OF fit]
    by (simp add: encode_def f' size header_written body wire_frame_def b Let_def not_less
        del: f'_def flip: f'_def)
qed

lemma encode_Inr: "encode f dst spare = Inr out \<Longrightarrow> encodable f"
  by (auto simp: encode_def Let_def encodable_def encodedBodySize_fits split: if_splits sum.splits)

lemma encode_Inl_cases:
  assumes "encode f dst spare = Inl e" shows "e = ErrInvalidFrame"
proof -
  have sz: "encodedBodySize g = Inl e' \<Longrightarrow> e' = ErrInvalidFrame" for g e'
    unfolding encodedBodySize_def validBody_def
    by (auto split: if_splits option.splits body.splits)
  have ok: "encodedBodySize g = Inr n \<Longrightarrow>
      encodeBodyInto g (drop 10 (grownRegion spare (10 + n))) \<noteq> Inl e'" for g n e'
    by (auto simp: encodedBodySize_fits encodeBodyInto_wire)
  show ?thesis using assms
    by (auto simp: encode_def Let_def header_written dest: sz ok split: if_splits sum.splits)
qed

lemma type_nibbles:
  fixes t :: u8
  assumes "t \<le> 10"
  shows "drop_bit 4 (32 OR t) = 2" and "(32 OR t) AND 15 = t"
  using u8_le_10 [OF assms] by auto

lemma nibbles_type:
  fixes v :: u8
  assumes "drop_bit 4 v = 2" shows "32 OR (v AND 15) = v"
proof -
  have "(15 :: u8) = mask 4" by (simp add: mask_eq_exp_minus_1)
  then have "v AND 15 = take_bit 4 v" by (simp only: take_bit_eq_mask)
  moreover have "push_bit 4 (drop_bit 4 v) OR take_bit 4 v = v"
    by (rule bit_word_eqI) (simp only: bit_slots bit_take_bit_iff, auto)
  ultimately have "push_bit 4 (drop_bit 4 v) OR (v AND 15) = v" by simp
  with assms show ?thesis by simp
qed

lemma decode_wire_frame:
  assumes "encodable f" shows "decode (wire_frame f) = Inr (canonFrame f)"
proof -
  from assms obtain b where b: "f_body f = Some b" and fit: "fits (f_type f) b"
    by (auto simp: encodable_def)
  show ?thesis using fits_type [OF fit]
    by (simp add: decode_def wire_frame_def Let_def type_nibbles b decodeBody_wire fit canonFrame_def
        subslice_def nth_append wire_simps not_less del: drop_bit_or)
qed

lemma decode_encodable:
  assumes "decode bs = Inr f"
  shows "encodable f" and "canonFrame f = f" and "wire_frame f = bs"
proof -
  from assms obtain b where len: "10 \<le> length bs" and vt: "drop_bit 4 (bs ! 0) = 2"
    and d: "decodeBody ((bs ! 0) AND 15) (drop 10 bs) = Inr b"
    and f: "f = \<lparr>f_version = 2, f_type = (bs ! 0) AND 15, f_session = get_be64 (subslice 1 9 bs),
                 f_lane = bs ! 9, f_body = Some b\<rparr>"
    by (auto simp: decode_def Let_def not_less split: if_splits sum.splits)
  note fit = decodeBody_fits [OF d]
  show "encodable f" by (simp add: encodable_def f fit)
  show "canonFrame f = f" by (simp add: canonFrame_def f fit)
  from len have "0 < length bs" "9 < length bs" by linarith+
  then have "bs ! 0 # subslice 1 9 bs @ bs ! 9 # drop 10 bs = bs"
    by (simp add: wire_simps)
  then show "wire_frame f = bs"
    using len by (simp add: wire_frame_def f fit nibbles_type [OF vt] wire_simps)
qed

section \<open>Properties\<close>

text \<open>
  C1: \<open>Encode\<close> succeeds exactly on the frames whose body matches the frame type and whose
  fields are in range; it then appends the reference wire image to \<open>dst\<close>, whatever the spare
  capacity held before, and on every other frame it returns \<open>ErrInvalidFrame\<close> (so no type
  assertion of \<open>encodeBodyInto\<close> can panic).
\<close>
theorem encode_reference:
  "encode f dst spare = (if encodable f then Inr (dst @ wire_frame f) else Inl ErrInvalidFrame)"
proof (cases "encodable f")
  case True
  then show ?thesis by (simp add: encode_encodable)
next
  case False
  then obtain e where "encode f dst spare = Inl e"
    using encode_Inr by (cases "encode f dst spare") auto
  with False show ?thesis by (simp add: encode_Inl_cases)
qed

text \<open>
  C2: what \<open>Encode\<close> appends is decoded to the same frame, with the version filled in and a
  REPAIR repair count of 0 read back as 1.
\<close>
theorem decode_encode:
  assumes "encode f dst spare = Inr out"
  shows "\<exists>w. out = dst @ w \<and> decode w = Inr (canonFrame f)"
proof -
  from assms have "encodable f" by (rule encode_Inr)
  with assms have "out = dst @ wire_frame f" by (simp add: encode_encodable)
  with decode_wire_frame [OF \<open>encodable f\<close>] show ?thesis by blast
qed

definition sample_repair :: frame where
  "sample_repair = \<lparr>f_version = 0, f_type = TypeREPAIR, f_session = 7, f_lane = 1,
     f_body = Some (RepairBody 9 513 4 0 [1, 2, 3])\<rparr>"

theorem decode_encode_witness:
  "\<exists>w. decode w = Inr \<lparr>f_version = 2, f_type = TypeREPAIR, f_session = 7, f_lane = 1,
     f_body = Some (RepairBody 9 513 4 1 [1, 2, 3])\<rparr>"
proof -
  have "encodable sample_repair"
    by (simp add: encodable_def sample_repair_def validRepairSourceSpan_def validRepairCount_def)
  then have "encode sample_repair [] [] = Inr (wire_frame sample_repair)"
    by (simp add: encode_encodable)
  from decode_encode [OF this] obtain w where "decode w = Inr (canonFrame sample_repair)" by blast
  then show ?thesis by (intro exI [of _ w]) (simp add: canonFrame_def sample_repair_def)
qed

text \<open>
  C3: the wire format is canonical: every byte string that \<open>Decode\<close> accepts is exactly what
  \<open>Encode\<close> produces for the decoded frame, so two different strings never decode alike.
\<close>
theorem encode_decode:
  assumes "decode bs = Inr f"
  shows "encode f dst spare = Inr (dst @ bs)"
  using decode_encodable [OF assms] by (simp add: encode_encodable)

theorem encode_decode_witness:
  "encode \<lparr>f_version = 2, f_type = TypeCLOSE, f_session = 1, f_lane = 255,
      f_body = Some (CloseBody 2 1)\<rparr> [9] [] = Inr [9, 0x27, 0, 0, 0, 0, 0, 0, 0, 1, 255, 2, 1]"
proof -
  have "decode [0x27, 0, 0, 0, 0, 0, 0, 0, 1, 255, 2, 1] =
    Inr \<lparr>f_version = 2, f_type = TypeCLOSE, f_session = 1, f_lane = 255,
      f_body = Some (CloseBody 2 1)\<rparr>"
    by (simp add: decode_def decodeBody_def subslice_def get_be64_def Let_def)
  from encode_decode [OF this] show ?thesis by simp
qed

end
