(* ===== verification/Galois.thy ===== *)
theory Galois
  imports Prelude
begin

text \<open>
  The finite field GF(256) with the reduction polynomial 0x11D, the field of
  \<open>github.com/klauspost/reedsolomon\<close>. That package is not part of the repository: \<open>Fec\<close> takes its
  byte kernels as parameters and states what it relies on as the locale \<open>galois_laws\<close>. This
  theory provides an executable field multiplication and inverse that meet those laws.
\<close>

section \<open>Multiplication by the generator\<close>

definition xtime :: "u8 \<Rightarrow> u8" where
  "xtime a = push_bit 1 a XOR (if bit a 7 then 0x1D else 0)"

lemma xtime_xor: "xtime (a XOR b) = xtime a XOR xtime b"
proof -
  have "push_bit 1 (a XOR b) = push_bit 1 a XOR push_bit 1 b" by (simp only: push_bit_xor)
  then show ?thesis by (simp add: xtime_def bit_xor_iff ac_simps del: push_bit_xor)
qed

lemma xtime_pow_xor: "(xtime ^^ n) (a XOR b) = (xtime ^^ n) a XOR (xtime ^^ n) b"
  by (induction n) (simp_all add: xtime_xor)

lemma xtime_pow_0 [simp]: "(xtime ^^ n) 0 = 0"
  by (induction n) (simp_all add: xtime_def)

section \<open>The field multiplication\<close>

fun gf_aux :: "nat \<Rightarrow> u8 \<Rightarrow> u8 \<Rightarrow> u8" where
  "gf_aux 0 a b = 0"
| "gf_aux (Suc n) a b = (if bit b 0 then a else 0) XOR gf_aux n (xtime a) (drop_bit 1 b)"

definition gf_mul :: "u8 \<Rightarrow> u8 \<Rightarrow> u8" where
  "gf_mul c x = gf_aux 8 x c"

lemma gf_aux_xor: "gf_aux n (a XOR b) c = gf_aux n a c XOR gf_aux n b c"
  by (induction n arbitrary: a b c) (simp_all add: xtime_xor ac_simps)

lemma gf_mul_xor: "gf_mul c (x XOR y) = gf_mul c x XOR gf_mul c y"
  by (simp add: gf_mul_def gf_aux_xor)

lemma gf_mul_1 [simp]: "gf_mul 1 x = x"
  by (simp add: gf_mul_def eval_nat_numeral)

fun orbit :: "nat \<Rightarrow> u8 \<Rightarrow> u8 list" where
  "orbit 0 a = []" | "orbit (Suc n) a = a # orbit n (xtime a)"
lemma orbit_add: "orbit (m + n) a = orbit m a @ orbit n ((xtime ^^ m) a)"
  by (induction m arbitrary: a) (auto simp: funpow_swap1)
definition powers :: "u8 list" where "powers = orbit 255 1"
lemma orbit_num: "orbit (numeral k) a = a # orbit (pred_numeral k) (xtime a)"
  by (simp add: numeral_eq_Suc)
lemma powers_eq: "powers =
  [1, 2, 4, 8, 16, 32, 64, 128, 29, 58, 116, 232, 205, 135, 19, 38, 76, 152, 45, 90,
   180, 117, 234, 201, 143, 3, 6, 12, 24, 48, 96, 192, 157, 39, 78, 156, 37, 74, 148, 53,
   106, 212, 181, 119, 238, 193, 159, 35, 70, 140, 5, 10, 20, 40, 80, 160, 93, 186, 105, 210,
   185, 111, 222, 161, 95, 190, 97, 194, 153, 47, 94, 188, 101, 202, 137, 15, 30, 60, 120, 240,
   253, 231, 211, 187, 107, 214, 177, 127, 254, 225, 223, 163, 91, 182, 113, 226, 217, 175, 67, 134,
   17, 34, 68, 136, 13, 26, 52, 104, 208, 189, 103, 206, 129, 31, 62, 124, 248, 237, 199, 147,
   59, 118, 236, 197, 151, 51, 102, 204, 133, 23, 46, 92, 184, 109, 218, 169, 79, 158, 33, 66,
   132, 21, 42, 84, 168, 77, 154, 41, 82, 164, 85, 170, 73, 146, 57, 114, 228, 213, 183, 115,
   230, 209, 191, 99, 198, 145, 63, 126, 252, 229, 215, 179, 123, 246, 241, 255, 227, 219, 171, 75,
   150, 49, 98, 196, 149, 55, 110, 220, 165, 87, 174, 65, 130, 25, 50, 100, 200, 141, 7, 14,
   28, 56, 112, 224, 221, 167, 83, 166, 81, 162, 89, 178, 121, 242, 249, 239, 195, 155, 43, 86,
   172, 69, 138, 9, 18, 36, 72, 144, 61, 122, 244, 245, 247, 243, 251, 235, 203, 139, 11, 22,
   44, 88, 176, 125, 250, 233, 207, 131, 27, 54, 108, 216, 173, 71, 142]"
  by (simp add: powers_def orbit_num xtime_def)

lemma orbit_nth: "k < n \<Longrightarrow> orbit n a ! k = (xtime ^^ k) a"
  by (induction n arbitrary: a k) (auto simp: nth_Cons funpow_swap1 split: nat.splits)

text \<open>Every byte is the sum of its bits, so additive maps are determined by the eight basis bytes.\<close>

definition bit_part :: "u8 \<Rightarrow> nat \<Rightarrow> u8" where
  "bit_part x i = (if bit x i then 2 ^ i else 0)"

lemma byte_split:
  "x = bit_part x 0 XOR bit_part x 1 XOR bit_part x 2 XOR bit_part x 3 XOR bit_part x 4
     XOR bit_part x 5 XOR bit_part x 6 XOR bit_part x 7"
proof (rule bit_word_eqI)
  have part: "bit (bit_part x i) n \<longleftrightarrow> bit x i \<and> n = i" if "n < 8" for i n
    using that by (auto simp: bit_part_def bit_exp_iff possible_bit_def)
  fix n assume "n < LENGTH(8)"
  then have n: "n < 8" by simp
  then have "n = 0 \<or> n = 1 \<or> n = 2 \<or> n = 3 \<or> n = 4 \<or> n = 5 \<or> n = 6 \<or> n = 7" by auto
  then show "bit x n = bit (bit_part x 0 XOR bit_part x 1 XOR bit_part x 2 XOR bit_part x 3
      XOR bit_part x 4 XOR bit_part x 5 XOR bit_part x 6 XOR bit_part x 7) n"
    by (elim disjE) (simp_all add: bit_xor_iff part n)
qed

lemma additive_eqI:
  fixes g h :: "u8 \<Rightarrow> u8"
  assumes g: "\<And>a b. g (a XOR b) = g a XOR g b" and h: "\<And>a b. h (a XOR b) = h a XOR h b"
    and basis: "list_all (\<lambda>x. g x = h x) [0, 1, 2, 4, 8, 16, 32, 64, 128]"
  shows "g x = h x"
proof -
  have part: "g (bit_part x i) = h (bit_part x i)" if "i \<in> {0, 1, 2, 3, 4, 5, 6, 7}" for i
    using that basis by (auto simp: bit_part_def)
  show ?thesis
    by (subst (1 2) byte_split [of x]) (simp only: g h part insert_iff simp_thms)
qed

lemma funpow_num: "(f ^^ numeral k) x = f ((f ^^ pred_numeral k) x)"
  by (simp add: numeral_eq_Suc)

lemma xtime_pow_8: "(xtime ^^ 8) x = x XOR (xtime ^^ 2) x XOR (xtime ^^ 3) x XOR (xtime ^^ 4) x"
proof (rule additive_eqI [of "xtime ^^ 8"])
  show "list_all (\<lambda>x. (xtime ^^ 8) x = x XOR (xtime ^^ 2) x XOR (xtime ^^ 3) x XOR (xtime ^^ 4) x)
      [0, 1, 2, 4, 8, 16, 32, 64, 128]"
    by (simp add: funpow_num xtime_def)
qed (simp_all only: xtime_pow_xor ac_simps)

lemma gf_mul_bits:
  "gf_mul c x = (if bit c 0 then x else 0) XOR (if bit c 1 then (xtime ^^ 1) x else 0)
     XOR (if bit c 2 then (xtime ^^ 2) x else 0) XOR (if bit c 3 then (xtime ^^ 3) x else 0)
     XOR (if bit c 4 then (xtime ^^ 4) x else 0) XOR (if bit c 5 then (xtime ^^ 5) x else 0)
     XOR (if bit c 6 then (xtime ^^ 6) x else 0) XOR (if bit c 7 then (xtime ^^ 7) x else 0)"
  by (simp add: gf_mul_def eval_nat_numeral bit_drop_bit_eq)

lemma bit_xtime:
  "bit (xtime c) 0 = bit c 7" "bit (xtime c) 1 = bit c 0" "bit (xtime c) 2 = (bit c 1 \<noteq> bit c 7)"
  "bit (xtime c) 3 = (bit c 2 \<noteq> bit c 7)" "bit (xtime c) 4 = (bit c 3 \<noteq> bit c 7)"
  "bit (xtime c) 5 = bit c 4" "bit (xtime c) 6 = bit c 5" "bit (xtime c) 7 = bit c 6"
proof -
  have *: "bit (push_bit 1 c) n \<longleftrightarrow> 1 \<le> n \<and> n < 8 \<and> bit c (n - 1)" for n
    by (simp only: bit_slots) auto
  have "bit (xtime c) n \<longleftrightarrow> (1 \<le> n \<and> n < 8 \<and> bit c (n - 1)) \<noteq> (bit c 7 \<and> bit (0x1D :: u8) n)" for n
    unfolding xtime_def bit_xor_iff * by simp
  then show "bit (xtime c) 0 = bit c 7" "bit (xtime c) 1 = bit c 0"
    "bit (xtime c) 2 = (bit c 1 \<noteq> bit c 7)" "bit (xtime c) 3 = (bit c 2 \<noteq> bit c 7)"
    "bit (xtime c) 4 = (bit c 3 \<noteq> bit c 7)" "bit (xtime c) 5 = bit c 4"
    "bit (xtime c) 6 = bit c 5" "bit (xtime c) 7 = bit c 6"
    by simp_all
qed

lemma gf_mul_xtime: "gf_mul (xtime c) x = xtime (gf_mul c x)"
proof -
  have "(xtime ^^ Suc 7) x = x XOR (xtime ^^ 2) x XOR (xtime ^^ 3) x XOR (xtime ^^ 4) x"
    using xtime_pow_8 [of x] by simp
  then show ?thesis
    unfolding gf_mul_bits [of "xtime c"] gf_mul_bits [of c] bit_xtime xtime_xor
    by (cases "bit c 0"; cases "bit c 1"; cases "bit c 2"; cases "bit c 3"; cases "bit c 7")
       (simp_all add: if_distrib [of xtime] xtime_pow_0 [of 1, simplified] ac_simps numeral_eq_Suc)
qed

lemma gf_mul_pow: "gf_mul ((xtime ^^ n) 1) x = (xtime ^^ n) x"
  by (induction n) (simp_all add: gf_mul_xtime)

lemma powers_no_0: "list_all (\<lambda>x. x \<noteq> 0) powers" unfolding powers_eq by simp
lemma powers_tl_no_1: "list_all (\<lambda>x. x \<noteq> 1) (tl powers)" unfolding powers_eq by simp
lemma last_power: "xtime (last powers) = 1" unfolding powers_eq by (simp add: xtime_def)
lemma length_powers [simp]: "length powers = 255"
  by (simp add: powers_eq)

lemma powers_nth: "k < 255 \<Longrightarrow> powers ! k = (xtime ^^ k) 1"
  by (simp add: powers_def orbit_nth)

lemma xtime_255: "(xtime ^^ 255) x = x"
proof -
  have "last powers = (xtime ^^ 254) 1"
    using powers_nth [of 254] by (simp add: last_conv_nth flip: length_greater_0_conv)
  then have "(xtime ^^ Suc 254) (1 :: u8) = 1" using last_power by (simp only: funpow.simps comp_apply)
  moreover have "Suc 254 = 255" by simp
  ultimately have one: "(xtime ^^ 255) (1 :: u8) = 1" by (simp only:)
  have "(xtime ^^ 255) x = gf_mul ((xtime ^^ 255) 1) x" by (simp only: gf_mul_pow)
  then show ?thesis by (simp only: one gf_mul_1)
qed

lemma xtime_pow_mod: "(xtime ^^ n) x = (xtime ^^ (n mod 255)) x"
  by (rule funpow_mod_eq [symmetric, OF xtime_255])

lemma xtime_pow_ne_1: "0 < d \<Longrightarrow> d < 255 \<Longrightarrow> (xtime ^^ d) 1 \<noteq> (1 :: u8)"
proof -
  assume d: "0 < d" "d < 255"
  then have "tl powers ! (d - 1) \<noteq> 1" using powers_tl_no_1 by (simp add: list_all_length)
  moreover have "tl powers ! (d - 1) = powers ! d" using d by (simp add: nth_tl)
  ultimately show ?thesis using powers_nth [OF d(2)] by simp
qed

lemma cycle_distinct:
  assumes cycle: "(f ^^ N) a = a" and ne: "\<And>d. 0 < d \<Longrightarrow> d < N \<Longrightarrow> (f ^^ d) a \<noteq> a"
    and ij: "i < j" "j < N"
  shows "(f ^^ i) a \<noteq> (f ^^ j) a"
proof
  assume "(f ^^ i) a = (f ^^ j) a"
  then have "(f ^^ (N - j + i)) a = (f ^^ (N - j + j)) a" by (simp only: funpow_add comp_apply)
  also have "N - j + j = N" using ij(2) by (rule le_add_diff_inverse2 [OF less_imp_le])
  also note cycle
  finally have eq: "(f ^^ (N - j + i)) a = a" .
  have "0 < N - j + i" and "N - j + i < N" using ij by simp_all
  from ne [OF this] eq show False by (rule notE)
qed

lemma distinct_nthI:
  assumes "\<And>i j. i < j \<Longrightarrow> j < length xs \<Longrightarrow> xs ! i \<noteq> xs ! j"
  shows "distinct xs"
  using assms unfolding distinct_conv_nth by (metis nat_neq_iff)

lemma distinct_powers: "distinct powers"
proof (rule distinct_nthI)
  fix i j assume ij: "i < j" "j < length powers"
  have j: "j < 255" using ij(2) unfolding length_powers .
  have i: "i < 255" by (rule less_trans [OF ij(1) j])
  show "powers ! i \<noteq> powers ! j"
    unfolding powers_nth [OF i] powers_nth [OF j]
    by (rule cycle_distinct [OF xtime_255 xtime_pow_ne_1 ij(1) j])
qed

lemma set_powers: "set powers = UNIV - {0}"
proof (rule card_subset_eq)
  show "set powers \<subseteq> UNIV - {0}" using powers_no_0 by (auto simp: list_all_iff)
  show "card (set powers) = card (UNIV - {0 :: u8})"
    using distinct_card [OF distinct_powers] by (simp add: card_Diff_singleton card_word)
qed simp

section \<open>Inverses\<close>

text \<open>Discrete logarithm by search in the table of powers; the inverse negates the logarithm.\<close>

definition gf_log :: "u8 \<Rightarrow> nat" where
  "gf_log c = length (takeWhile (\<lambda>p. p \<noteq> c) powers)"

definition gf_inv :: "u8 \<Rightarrow> u8" where
  "gf_inv c = powers ! ((255 - gf_log c) mod 255)"

lemma length_takeWhile_ne: "c \<in> set xs \<Longrightarrow> length (takeWhile (\<lambda>p. p \<noteq> c) xs) < length xs"
  by (induction xs) auto

lemma gf_log:
  assumes "c \<noteq> 0"
  shows "gf_log c < 255" "(xtime ^^ gf_log c) 1 = c"
proof -
  have c: "c \<in> set powers" using assms by (simp add: set_powers)
  show *: "gf_log c < 255"
    using length_takeWhile_ne [OF c] by (simp add: gf_log_def)
  show "(xtime ^^ gf_log c) 1 = c"
    using nth_length_takeWhile [of "\<lambda>p. p \<noteq> c" powers] * powers_nth [of "gf_log c"]
    by (simp add: gf_log_def)
qed

lemma gf_mul_log: "c \<noteq> 0 \<Longrightarrow> gf_mul c x = (xtime ^^ gf_log c) x"
  using gf_mul_pow [of "gf_log c" x] gf_log(2) [of c] by simp

lemma gf_inv_mul: "c \<noteq> 0 \<Longrightarrow> gf_mul (gf_inv c) (gf_mul c x) = x"
proof -
  assume c: "c \<noteq> 0"
  let ?n = "gf_log c" and ?m = "(255 - gf_log c) mod 255"
  have inv: "gf_inv c = (xtime ^^ ?m) 1"
    unfolding gf_inv_def by (rule powers_nth) simp
  have "gf_mul (gf_inv c) (gf_mul c x) = (xtime ^^ (?m + ?n)) x"
    unfolding inv gf_mul_log [OF c] gf_mul_pow by (simp add: funpow_add)
  also have "\<dots> = (xtime ^^ ((?m + ?n) mod 255)) x" by (rule xtime_pow_mod)
  also have "(?m + ?n) mod 255 = 0" using gf_log(1) [OF c] by (simp add: mod_add_left_eq)
  finally show ?thesis by simp
qed

section \<open>Linear systems\<close>

lemma gf_mul_0 [simp]: "gf_mul 0 x = 0" "gf_mul c 0 = 0"
  using gf_mul_xor [of c 0 0] by (simp_all add: gf_mul_bits)

lemma gf_mul_xor_left: "gf_mul (a XOR b) x = gf_mul a x XOR gf_mul b x"
proof -
  have bit: "(if bit (a XOR b) i then y else 0) = (if bit a i then y else 0) XOR (if bit b i then y else (0 :: u8))" for i y
    by (simp add: bit_xor_iff)
  show ?thesis unfolding gf_mul_bits bit by (simp only: ac_simps)
qed

lemma gf_mul_assoc: "gf_mul (gf_mul a b) x = gf_mul a (gf_mul b x)"
proof (cases "a = 0")
  case False
  have "gf_mul ((xtime ^^ n) b) x = (xtime ^^ n) (gf_mul b x)" for n
    by (induction n) (simp_all add: gf_mul_xtime)
  then show ?thesis using False by (simp add: gf_mul_log)
qed simp

text \<open>
  \<open>sdot cs xs\<close> is the value of a linear form. \<open>solve eqs k\<close> eliminates \<open>k\<close> unknowns one by one,
  pivoting on the first equation with a non-zero leading coefficient.
\<close>

fun sdot :: "u8 list \<Rightarrow> u8 list \<Rightarrow> u8" where
  "sdot (c # cs) (x # xs) = gf_mul c x XOR sdot cs xs"
| "sdot _ _ = 0"

definition scaled :: "u8 \<Rightarrow> u8 list \<Rightarrow> u8 list \<Rightarrow> u8 list" where
  "scaled q ps cs = map2 (\<lambda>p c. c XOR gf_mul q p) ps cs"

definition eliminate :: "u8 list \<times> u8 \<Rightarrow> u8 list \<times> u8 \<Rightarrow> u8 list \<times> u8" where
  "eliminate p e =
    (let q = gf_mul (hd (fst e)) (gf_inv (hd (fst p)))
     in (scaled q (tl (fst p)) (tl (fst e)), snd e XOR gf_mul q (snd p)))"

fun solve :: "(u8 list \<times> u8) list \<Rightarrow> nat \<Rightarrow> u8 list option" where
  "solve eqs 0 = Some []"
| "solve eqs (Suc k) =
    (case filter (\<lambda>e. hd (fst e) \<noteq> 0) eqs of [] \<Rightarrow> None
     | p # _ \<Rightarrow>
       (case solve (map (eliminate p) eqs) k of None \<Rightarrow> None
        | Some xs \<Rightarrow> Some (gf_mul (gf_inv (hd (fst p))) (snd p XOR sdot (tl (fst p)) xs) # xs)))"

lemma sdot_scaled:
  "length ps = length cs \<Longrightarrow> length cs = length xs \<Longrightarrow>
    sdot (scaled q ps cs) xs = sdot cs xs XOR gf_mul q (sdot ps xs)"
  by (induction ps cs xs rule: list_induct3)
     (simp_all add: scaled_def gf_mul_xor gf_mul_xor_left gf_mul_assoc ac_simps)

lemma gf_xor_eq_iff: "a XOR b = c \<longleftrightarrow> a = c XOR (b :: u8)"
  by (metis xor.assoc xor.right_neutral xor_self_eq)

lemma gf_inv_mul_right: "c \<noteq> 0 \<Longrightarrow> gf_mul (gf_mul d (gf_inv c)) (gf_mul c x) = gf_mul d x"
  by (simp add: gf_mul_assoc gf_inv_mul)

lemma eliminate_sound:
  assumes p: "fst p = a # ps" "a \<noteq> 0" "sdot (fst p) (x # xs) = snd p" "length ps = length xs"
    and e: "length (fst e) = Suc (length xs)" "sdot (fst e) (x # xs) = snd e"
  shows "sdot (fst (eliminate p e)) xs = snd (eliminate p e) \<and> length (fst (eliminate p e)) = length xs"
proof -
  obtain b cs where b: "fst e = b # cs" "length cs = length xs" using e(1) by (cases "fst e") auto
  have "snd p = gf_mul a x XOR sdot ps xs" "snd e = gf_mul b x XOR sdot cs xs"
    using p(1,3) e(2) b(1) by simp_all
  then show ?thesis
    using p b by (simp add: eliminate_def Let_def sdot_scaled gf_mul_xor gf_inv_mul_right ac_simps)
       (simp add: scaled_def)
qed

lemma solve_sound:
  assumes "\<forall>e \<in> set eqs. length (fst e) = length xs \<and> sdot (fst e) xs = snd e"
    and "solve eqs (length xs) = Some ys"
  shows "ys = xs"
  using assms
proof (induction xs arbitrary: eqs ys)
  case (Cons x xs)
  obtain p rest where f: "filter (\<lambda>e. hd (fst e) \<noteq> 0) eqs = p # rest"
    using Cons.prems(2) by (auto split: list.splits)
  then have "p \<in> set (filter (\<lambda>e. hd (fst e) \<noteq> 0) eqs)" by simp
  then have p: "p \<in> set eqs" "hd (fst p) \<noteq> 0" by auto
  obtain a ps where a: "fst p = a # ps" "length ps = length xs" "a \<noteq> 0"
    using Cons.prems(1) p by (cases "fst p") auto
  have sp: "snd p = gf_mul a x XOR sdot ps xs" using Cons.prems(1) p(1) a(1) by force
  obtain zs where z: "solve (map (eliminate p) eqs) (length xs) = Some zs"
      "ys = gf_mul (gf_inv a) (snd p XOR sdot ps zs) # zs"
    using Cons.prems(2) f a(1) by (auto split: option.splits)
  have "\<forall>e \<in> set (map (eliminate p) eqs). length (fst e) = length xs \<and> sdot (fst e) xs = snd e"
  proof
    fix e' assume "e' \<in> set (map (eliminate p) eqs)"
    then obtain e where e: "e \<in> set eqs" "e' = eliminate p e" by auto
    have "sdot (fst p) (x # xs) = snd p" "length (fst e) = Suc (length xs)" "sdot (fst e) (x # xs) = snd e"
      using Cons.prems(1) p(1) e(1) by simp_all
    from eliminate_sound [OF a(1,3) this(1) a(2) this(2,3)]
    show "length (fst e') = length xs \<and> sdot (fst e') xs = snd e'" by (simp add: e(2))
  qed
  then have "zs = xs" using Cons.IH z(1) by blast
  then show ?case using z(2) by (simp add: sp gf_inv_mul a(3) xor.assoc)
qed simp

lemma solve_one:
  assumes "e \<in> set eqs" "hd (fst e) \<noteq> 0"
  shows "solve eqs (Suc 0) \<noteq> None"
proof -
  have "filter (\<lambda>e. hd (fst e) \<noteq> 0) eqs \<noteq> []" using assms by (auto simp: filter_empty_conv)
  then show ?thesis by (auto split: list.splits)
qed

end
