(* ===== verification/Fec.thy ===== *)
theory Fec
  imports Galois
begin

text \<open>
  \<open>internal/fec/fec.go\<close>: the TinyMT32 generator of RFC 8682, the coding coefficients drawn from
  it, and the block codec with its single-repair path and its multi-repair path.

  A shard is a \<open>[]byte\<close>, with \<open>None\<close> for a nil slice. A call returns \<open>None\<close> when the loop that
  draws non-zero coefficients never ends, \<open>Some (Inl e)\<close> for an error and \<open>Some (Inr shards)\<close> for
  the slice as the call leaves it. Buffers the code reuses when their capacity suffices are
  cleared (\<open>Encode\<close>) or fully overwritten (\<open>Reconstruct\<close>), so capacities do not show.

  The kernels of \<open>github.com/klauspost/reedsolomon\<close> are the operation records \<open>galois\<close> and \<open>rs\<close>;
  what the code relies on is stated in the locales \<open>galois_laws\<close> and \<open>rs_laws\<close>.
\<close>

unbundle bit_operations_syntax

section \<open>The TinyMT32 generator\<close>

abbreviation (input) tinyMT32Mat1 :: u32 where "tinyMT32Mat1 \<equiv> 0x8f7011ee"
abbreviation (input) tinyMT32Mat2 :: u32 where "tinyMT32Mat2 \<equiv> 0xfc78ff1f"
abbreviation (input) tinyMT32TMat :: u32 where "tinyMT32TMat \<equiv> 0x3793fdff"
abbreviation (input) tinyMT32Mask :: u32 where "tinyMT32Mask \<equiv> 0x7fffffff"

record tinyMT32 =
  status :: "u32 list"

definition nextState :: "tinyMT32 \<Rightarrow> tinyMT32" where
  "nextState r =
    (let s = status r;
         y = s ! 3;
         x = (s ! 0 AND tinyMT32Mask) XOR s ! 1 XOR s ! 2;
         x = x XOR push_bit 1 x;
         y = y XOR (drop_bit 1 y XOR x);
         s = s[0 := s ! 1];
         s = s[1 := s ! 2];
         s = s[2 := x XOR push_bit 10 y];
         s = s[3 := y];
         s = (if y AND 1 \<noteq> 0
              then s[1 := s ! 1 XOR tinyMT32Mat1, 2 := s ! 2 XOR tinyMT32Mat2] else s)
     in r\<lparr>status := s\<rparr>)"

definition temper :: "tinyMT32 \<Rightarrow> u32" where
  "temper r =
    (let s = status r;
         t0 = s ! 3;
         t1 = s ! 0 + drop_bit 8 (s ! 2);
         t0 = t0 XOR t1
     in if t1 AND 1 \<noteq> 0 then t0 XOR tinyMT32TMat else t0)"

definition generate :: "tinyMT32 \<Rightarrow> tinyMT32 \<times> u32" where
  "generate r = (let r = nextState r in (r, temper r))"

definition seedStep :: "nat \<Rightarrow> u32 list \<Rightarrow> u32 list" where
  "seedStep i s =
    (let prev = s ! ((i - 1) mod 4)
     in s[i mod 4 := s ! (i mod 4) XOR (of_nat i + 1812433253 * (prev XOR drop_bit 30 prev))])"

definition newTinyMT32 :: "u32 \<Rightarrow> tinyMT32" where
  "newTinyMT32 seed =
    (let s = fold seedStep [1, 2, 3, 4, 5, 6, 7] [seed, tinyMT32Mat1, tinyMT32Mat2, tinyMT32TMat]
     in (nextState ^^ 8) \<lparr>status = s\<rparr>)"

section \<open>The coding coefficients\<close>

text \<open>\<open>for coeffs[i] == 0 { coeffs[i] = byte(rng.generate() & 0xff) }\<close>\<close>

partial_function (option) nonzeroByte :: "tinyMT32 \<Rightarrow> u8 \<Rightarrow> (tinyMT32 \<times> u8) option" where
  "nonzeroByte r c =
    (if c \<noteq> 0 then Some (r, c)
     else (case generate r of (r', v) \<Rightarrow> nonzeroByte r' (ucast (v AND 0xff))))"

declare nonzeroByte.simps [code]

fun fillCoefficients :: "tinyMT32 \<Rightarrow> bytes \<Rightarrow> bytes option" where
  "fillCoefficients r [] = Some []"
| "fillCoefficients r (c # cs) =
    (case nonzeroByte r c of None \<Rightarrow> None
     | Some (r', v) \<Rightarrow> map_option ((#) v) (fillCoefficients r' cs))"

definition fillCodingCoefficients :: "u16 \<Rightarrow> bytes \<Rightarrow> bytes option" where
  "fillCodingCoefficients key coeffs = fillCoefficients (newTinyMT32 (ucast key)) coeffs"

abbreviation codingCoefficients :: "u16 \<Rightarrow> nat \<Rightarrow> bytes option" where
  "codingCoefficients key n \<equiv> fillCodingCoefficients key (replicate n 0)"

section \<open>The third-party kernels\<close>

record galois =
  gal_mul_slice_xor :: "u8 \<Rightarrow> bytes \<Rightarrow> bytes \<Rightarrow> bytes"
  gal_mul_slice :: "u8 \<Rightarrow> bytes \<Rightarrow> bytes"
  gal_inv :: "u8 \<Rightarrow> u8"

type_synonym shard = "bytes option"

record 'e rs =
  rs_new :: "int \<Rightarrow> int \<Rightarrow> bytes list \<Rightarrow> string + 'e"
  rs_encode :: "'e \<Rightarrow> bytes list \<Rightarrow> string + bytes list"
  rs_reconstruct_data :: "'e \<Rightarrow> shard list \<Rightarrow> string + shard list"

section \<open>The codec\<close>

datatype fec_error = ErrInvalidShardConfig | ErrUnrecoverable | ErrReedSolomon string

record codec =
  dataShards :: int
  repairShards :: int

definition NewCodec :: "int \<Rightarrow> int \<Rightarrow> fec_error + codec" where
  "NewCodec d r =
    (if d \<le> 0 \<or> r \<le> 0 \<or> r > 4 then Inl ErrInvalidShardConfig
     else Inr \<lparr>dataShards = d, repairShards = r\<rparr>)"

definition validate :: "codec option \<Rightarrow> shard list \<Rightarrow> u16 list \<Rightarrow> bool" where
  "validate co shards keys =
    (case co of None \<Rightarrow> False
     | Some c \<Rightarrow> \<not> (dataShards c \<le> 0 \<or> repairShards c \<le> 0 \<or> repairShards c > 4)
         \<and> int (length shards) = dataShards c + repairShards c \<and> int (length keys) = repairShards c)"

definition sbytes :: "shard \<Rightarrow> bytes" where
  "sbytes s = (case s of None \<Rightarrow> [] | Some b \<Rightarrow> b)"

abbreviation slen :: "shard \<Rightarrow> nat" where
  "slen s \<equiv> length (sbytes s)"

definition maxShardLen :: "shard list \<Rightarrow> nat" where
  "maxShardLen shards = fold (\<lambda>s n. if slen s > n then slen s else n) shards 0"

definition paddedShard :: "bytes \<Rightarrow> nat \<Rightarrow> bytes" where
  "paddedShard s n = (if length s = n then s else overwrite 0 (take n s) (replicate n 0))"

definition xorPrefix :: "galois \<Rightarrow> u8 \<Rightarrow> bytes \<Rightarrow> bytes \<Rightarrow> bytes" where
  "xorPrefix G c s out = gal_mul_slice_xor G c s (take (length s) out) @ drop (length s) out"

definition encodeSingle ::
  "galois \<Rightarrow> codec \<Rightarrow> shard list \<Rightarrow> u16 \<Rightarrow> (fec_error + shard list) option" where
  "encodeSingle G c shards key =
    (let d = nat (dataShards c);
         repairLen = maxShardLen (take d shards)
     in if repairLen = 0 then Some (Inl ErrInvalidShardConfig)
        else if \<exists>s \<in> set (take d shards). s = None then Some (Inl ErrInvalidShardConfig)
        else (case codingCoefficients key d of None \<Rightarrow> None
          | Some coeffs \<Rightarrow>
              Some (Inr (shards[d :=
                Some (fold (\<lambda>(k, s) out. xorPrefix G k (sbytes s) out)
                       (zip coeffs (take d shards)) (replicate repairLen 0))]))))"

definition missingScan :: "shard list \<Rightarrow> int \<times> nat" where
  "missingScan shards =
    fold (\<lambda>(i, s) (m, n). if slen s = 0 then (int i, n + 1) else (m, n)) (enumerate 0 shards) (- 1, 0)"

definition reconstructSingle ::
  "galois \<Rightarrow> codec \<Rightarrow> shard list \<Rightarrow> u16 \<Rightarrow> (fec_error + shard list) option" where
  "reconstructSingle G c shards key =
    (let d = nat (dataShards c);
         repair = sbytes (shards ! d);
         repairLen = length repair
     in if repairLen = 0 then Some (Inl ErrUnrecoverable)
        else case missingScan (take d shards) of (mi, missingCount) \<Rightarrow>
          let m = nat mi in
          if missingCount \<noteq> 1 then Some (Inl ErrUnrecoverable)
          else if \<exists>(i, s) \<in> set (enumerate 0 (take d shards)). i \<noteq> m \<and> slen s > repairLen
            then Some (Inl ErrUnrecoverable)
          else (case codingCoefficients key d of None \<Rightarrow> None
            | Some coeffs \<Rightarrow>
                let recovered =
                      fold (\<lambda>(i, k, s) out. if i = m then out else xorPrefix G k (sbytes s) out)
                        (enumerate 0 (zip coeffs (take d shards))) repair;
                    recovered = gal_mul_slice G (gal_inv G (coeffs ! m)) recovered
                in Some (Inr (shards[m := Some recovered]))))"

text \<open>\<open>encoder\<close> builds the coefficient matrix, one row per key, and hands it to the package.\<close>

fun codingMatrix :: "nat \<Rightarrow> u16 list \<Rightarrow> bytes list option" where
  "codingMatrix d [] = Some []"
| "codingMatrix d (key # keys) =
    (case codingCoefficients key d of None \<Rightarrow> None
     | Some row \<Rightarrow> map_option ((#) row) (codingMatrix d keys))"

definition encoder :: "'e rs \<Rightarrow> codec \<Rightarrow> u16 list \<Rightarrow> (string + 'e) option" where
  "encoder R c keys =
    map_option (rs_new R (dataShards c) (repairShards c)) (codingMatrix (nat (dataShards c)) keys)"

definition Encode ::
  "galois \<Rightarrow> 'e rs \<Rightarrow> codec option \<Rightarrow> shard list \<Rightarrow> u16 list \<Rightarrow> (fec_error + shard list) option" where
  "Encode G R co shards keys =
    (if \<not> validate co shards keys then Some (Inl ErrInvalidShardConfig)
     else let c = the co in
       if repairShards c = 1 then encodeSingle G c shards (keys ! 0)
       else
         let d = nat (dataShards c); r = nat (repairShards c);
             repairLen = maxShardLen (take d shards)
         in if repairLen = 0 then Some (Inl ErrInvalidShardConfig)
            else if \<exists>s \<in> set (take d shards). s = None then Some (Inl ErrInvalidShardConfig)
            else
              let work = map (\<lambda>s. paddedShard (sbytes s) repairLen) (take d shards)
                           @ replicate r (replicate repairLen 0)
              in (case encoder R c keys of None \<Rightarrow> None
                 | Some (Inl e) \<Rightarrow> Some (Inl (ErrReedSolomon e))
                 | Some (Inr enc) \<Rightarrow>
                     (case rs_encode R enc work of
                        Inl e \<Rightarrow> Some (Inl (ErrReedSolomon e))
                      | Inr work \<Rightarrow> Some (Inr (take d shards @ map Some (drop d work))))))"

definition Reconstruct ::
  "galois \<Rightarrow> 'e rs \<Rightarrow> codec option \<Rightarrow> shard list \<Rightarrow> u16 list \<Rightarrow> (fec_error + shard list) option" where
  "Reconstruct G R co shards keys =
    (if \<not> validate co shards keys then Some (Inl ErrInvalidShardConfig)
     else let c = the co in
       if repairShards c = 1 then reconstructSingle G c shards (keys ! 0)
       else
         let d = nat (dataShards c); r = nat (repairShards c);
             shardLen = maxShardLen shards;
             missingData = length (filter (\<lambda>s. slen s = 0) (take d shards))
         in if shardLen = 0 then Some (Inl ErrUnrecoverable)
            else if \<exists>s \<in> set (take d shards). slen s > shardLen then Some (Inl ErrUnrecoverable)
            else if \<exists>s \<in> set (drop d shards). slen s \<noteq> 0 \<and> slen s \<noteq> shardLen
              then Some (Inl ErrUnrecoverable)
            else if missingData = 0 \<or> missingData > r then Some (Inl ErrUnrecoverable)
            else
              let work = map (\<lambda>s. if slen s = 0 then s else Some (paddedShard (sbytes s) shardLen))
                             (take d shards)
                           @ map (\<lambda>s. if slen s = 0 then None else s) (drop d shards)
              in (case encoder R c keys of None \<Rightarrow> None
                 | Some (Inl e) \<Rightarrow> Some (Inl (ErrReedSolomon e))
                 | Some (Inr enc) \<Rightarrow>
                     (case rs_reconstruct_data R enc work of
                        Inl e \<Rightarrow> Some (Inl ErrUnrecoverable)
                      | Inr work \<Rightarrow>
                          Some (Inr (map2 (\<lambda>s w. if slen s = 0 then w else s)
                                       (take d shards) (take d work) @ drop d shards)))))"

section \<open>The contract of the Galois kernels\<close>

definition cterm :: "(u8 \<Rightarrow> u8 \<Rightarrow> u8) \<Rightarrow> nat \<Rightarrow> u8 \<Rightarrow> bytes \<Rightarrow> u8" where
  "cterm mul k c s = (if k < length s then mul c (s ! k) else 0)"

definition dot :: "(u8 \<Rightarrow> u8 \<Rightarrow> u8) \<Rightarrow> nat \<Rightarrow> (u8 \<times> shard) list \<Rightarrow> u8" where
  "dot mul k xs = foldr (\<lambda>(c, s) a. cterm mul k c (sbytes s) XOR a) xs 0"

lemma dot_simps [simp]:
  "dot mul k [] = 0"
  "dot mul k ((c, s) # xs) = cterm mul k c (sbytes s) XOR dot mul k xs"
  by (simp_all add: dot_def)

lemma dot_append: "dot mul k (xs @ ys) = dot mul k xs XOR dot mul k ys"
  by (induction xs) (auto simp: ac_simps)

lemma length_paddedShard [simp]: "length (paddedShard s n) = n"
  by (simp add: paddedShard_def overwrite_def)

lemma paddedShard_Nil [simp]: "paddedShard s n = [] \<longleftrightarrow> n = 0"
  by (simp flip: length_0_conv)

lemma sbytes_simps [simp]: "sbytes None = []" "sbytes (Some b) = b"
  by (simp_all add: sbytes_def)

lemma paddedShard_nth:
  "length s \<le> n \<Longrightarrow> k < n \<Longrightarrow> paddedShard s n ! k = (if k < length s then s ! k else 0)"
  by (auto simp: paddedShard_def overwrite_def nth_append)

locale galois_laws =
  fixes G :: galois and mul :: "u8 \<Rightarrow> u8 \<Rightarrow> u8"
  assumes mul_slice_xor:
      "length xs = length ys \<Longrightarrow> gal_mul_slice_xor G c xs ys = map2 (\<lambda>x y. y XOR mul c x) xs ys"
    and mul_slice: "gal_mul_slice G c xs = map (mul c) xs"
    and mul_xor: "mul c (x XOR y) = mul c x XOR mul c y"
    and mul_inv: "c \<noteq> 0 \<Longrightarrow> mul (gal_inv G c) (mul c x) = x"
begin

lemma mul_0 [simp]: "mul c 0 = 0"
  using mul_xor [of c 0 0] by simp

lemma length_xorPrefix: "length s \<le> length out \<Longrightarrow> length (xorPrefix G c s out) = length out"
  by (simp add: xorPrefix_def mul_slice_xor min_def)

lemma xorPrefix_nth:
  "length s \<le> length out \<Longrightarrow> k < length out \<Longrightarrow> xorPrefix G c s out ! k = out ! k XOR cterm mul k c s"
  by (simp add: xorPrefix_def mul_slice_xor cterm_def nth_append min_def)

lemma fold_xorPrefix:
  assumes "\<forall>(c, s) \<in> set xs. slen s \<le> length out"
  shows "length (fold (\<lambda>(c, s) out. xorPrefix G c (sbytes s) out) xs out) = length out"
    and "k < length out \<Longrightarrow>
      fold (\<lambda>(c, s) out. xorPrefix G c (sbytes s) out) xs out ! k = out ! k XOR dot mul k xs"
  using assms
proof (induction xs arbitrary: out)
  case (Cons x xs)
  case 1
  then show ?case using Cons.IH(1) by (auto simp: length_xorPrefix split: prod.splits)
next
  case (Cons x xs)
  case 2
  then show ?case
    using Cons.IH(2) by (auto simp: length_xorPrefix xorPrefix_nth ac_simps split: prod.splits)
qed simp_all


lemma xorPrefix_empty [simp]: "xorPrefix G c [] out = out"
  using mul_slice_xor [of "[]" "[]" c] by (simp add: xorPrefix_def)

lemma fold_skip:
  assumes "\<And>i. i < length xs \<Longrightarrow> a + i = m \<Longrightarrow> slen (snd (xs ! i)) = 0"
  shows "fold (\<lambda>(i, k, s) out. if i = m then out else xorPrefix G k (sbytes s) out) (enumerate a xs) out
    = fold (\<lambda>(k, s) out. xorPrefix G k (sbytes s) out) xs out"
  using assms
proof (induction xs arbitrary: a out)
  case (Cons x xs)
  have "slen (snd x) = 0" if "a = m" using Cons.prems [of 0] that by simp
  moreover have "slen (snd (xs ! i)) = 0" if "i < length xs" "Suc a + i = m" for i
    using Cons.prems [of "Suc i"] that by simp
  ultimately show ?case using Cons.IH [of "Suc a"] by (auto split: prod.splits)
qed simp

text \<open>Summing all shards but one on top of the repair shard leaves the term of the missing one.\<close>

lemma recover_missing:
  assumes len: "length cs = length ss" and m: "m < length ss" and nz: "cs ! m \<noteq> 0"
    and fits: "\<forall>s \<in> set ss. slen s \<le> n" and lost: "slen lost = 0"
    and repair: "repair = fold (\<lambda>(k, s) out. xorPrefix G k (sbytes s) out) (zip cs ss) (replicate n 0)"
  shows "gal_mul_slice G (gal_inv G (cs ! m))
      (fold (\<lambda>(i, k, s) out. if i = m then out else xorPrefix G k (sbytes s) out)
        (enumerate 0 (zip cs (ss[m := lost]))) repair)
    = paddedShard (sbytes (ss ! m)) n" (is "gal_mul_slice G _ ?rec = _")
proof -
  let ?zs = "zip cs (ss[m := lost])"
  have fit1: "\<forall>(c, s) \<in> set (zip cs ss). slen s \<le> length (replicate n (0 :: u8))"
    using fits by (auto dest: set_zip_rightD)
  have rep: "length repair = n" "\<And>k. k < n \<Longrightarrow> repair ! k = dot mul k (zip cs ss)"
    using fold_xorPrefix [OF fit1] by (simp_all add: repair)
  have fit2: "\<forall>(c, s) \<in> set ?zs. slen s \<le> length repair"
    using fits lost rep(1) by (auto dest!: set_zip_rightD set_update_subset_insert [THEN subsetD])
  have skip: "?rec = fold (\<lambda>(k, s) out. xorPrefix G k (sbytes s) out) ?zs repair"
    by (rule fold_skip) (use lost len m in \<open>simp add: nth_list_update\<close>)
  have rec: "length ?rec = n" "\<And>k. k < n \<Longrightarrow> ?rec ! k = repair ! k XOR dot mul k ?zs"
    using fold_xorPrefix [OF fit2] by (simp_all add: skip rep(1))
  let ?A = "zip (take m cs) (take m ss)" and ?B = "zip (drop (Suc m) cs) (drop (Suc m) ss)"
  have zip1: "zip cs ss = ?A @ (cs ! m, ss ! m) # ?B"
    using id_take_nth_drop [of m "zip cs ss"] m len by (simp add: take_zip drop_zip)
  have zip2: "?zs = ?A @ (cs ! m, lost) # ?B"
    using id_take_nth_drop [of m ?zs] m len by (simp add: take_zip drop_zip)
  have term0: "cterm mul k c (sbytes lost) = 0" for k c using lost by (simp add: cterm_def)
  have "?rec ! k = cterm mul k (cs ! m) (sbytes (ss ! m))" if "k < n" for k
    using rec(2) [OF that] rep(2) [OF that]
    by (simp add: zip1 zip2 dot_append term0 ac_simps) 
  moreover have "slen (ss ! m) \<le> n" using fits m by simp
  ultimately show ?thesis
    using rec(1) nz by (intro nth_equalityI) (auto simp: mul_slice cterm_def mul_inv paddedShard_nth)
qed

end

section \<open>Facts about the helpers\<close>

lemma nonzeroByte_snd: "nonzeroByte r c = Some p \<Longrightarrow> snd p \<noteq> 0"
  by (erule nonzeroByte.raw_induct [where P = "\<lambda>r c p. snd p \<noteq> 0", rotated])
     (force split: if_splits prod.splits)

lemma nonzeroByte_nz: "nonzeroByte r c = Some (r', v) \<Longrightarrow> v \<noteq> 0"
  using nonzeroByte_snd by fastforce

lemma fillCoefficients_props:
  "fillCoefficients r cs = Some vs \<Longrightarrow> length vs = length cs \<and> 0 \<notin> set vs"
proof (induction cs arbitrary: r vs)
  case (Cons c cs)
  then show ?case
    by (auto split: option.splits prod.splits dest: nonzeroByte_nz)
qed simp

lemma codingCoefficients_props:
  "codingCoefficients key n = Some cs \<Longrightarrow> length cs = n \<and> 0 \<notin> set cs"
  using fillCoefficients_props [of _ "replicate n 0" cs] by (simp add: fillCodingCoefficients_def)

lemma maxShardLen_Max: "maxShardLen xs = Max (set (0 # map slen xs))"
proof -
  have "(\<lambda>s n. if slen s > n then slen s else n) = (\<lambda>s. max (slen s))"
    by (auto simp: fun_eq_iff max_def)
  then have "maxShardLen xs = fold max (map slen xs) 0"
    by (simp add: maxShardLen_def fold_map comp_def)
  then show ?thesis by (simp only: Max.set_eq_fold)
qed

lemma maxShardLen_ge: "s \<in> set xs \<Longrightarrow> slen s \<le> maxShardLen xs"
  unfolding maxShardLen_Max by (rule Max_ge) auto

lemma maxShardLen_le: "(\<And>s. s \<in> set xs \<Longrightarrow> slen s \<le> n) \<Longrightarrow> maxShardLen xs \<le> n"
  unfolding maxShardLen_Max by (rule Max.boundedI) auto

lemma maxShardLen_0: "maxShardLen xs = 0 \<longleftrightarrow> (\<forall>s \<in> set xs. slen s = 0)"
  using maxShardLen_ge [of _ xs] maxShardLen_le [of xs 0] by fastforce

lemma missingScan_none:
  fixes acc :: "int \<times> nat"
  shows "\<forall>s \<in> set xs. sbytes s \<noteq> [] \<Longrightarrow>
    fold (\<lambda>(i, s) (m, n). if sbytes s = [] then (int i, n + 1) else (m, n)) (enumerate a xs) acc = acc"
  by (induction xs arbitrary: a) auto

lemma missingScan_one:
  assumes "\<forall>s \<in> set ys. sbytes s \<noteq> []" "sbytes s = []" "\<forall>s \<in> set zs. sbytes s \<noteq> []"
  shows "missingScan (ys @ s # zs) = (int (length ys), 1)"
  using missingScan_none [OF assms(1), of 0 "(- 1, 0)"] missingScan_none [OF assms(3)]
  by (simp add: missingScan_def enumerate_append_eq assms(2))

lemma missingScan_count:
  "snd (fold (\<lambda>(i, s) (m, n). if slen s = 0 then (int i, n + 1) else (m, n)) (enumerate a xs) (m0, n0))
    = n0 + length (filter (\<lambda>s. slen s = 0) xs)"
  by (induction xs arbitrary: a m0 n0) auto

section \<open>The kernels over GF(256)\<close>

definition gf_galois :: galois where
  "gf_galois = \<lparr>gal_mul_slice_xor = (\<lambda>c xs ys. map2 (\<lambda>x y. y XOR gf_mul c x) xs ys),
     gal_mul_slice = (\<lambda>c. map (gf_mul c)), gal_inv = gf_inv\<rparr>"

interpretation gf: galois_laws gf_galois gf_mul
  by unfold_locales (simp_all add: gf_galois_def gf_mul_xor gf_inv_mul)

section \<open>Single-repair recovery\<close>

lemma ex_enumerate:
  "(\<exists>(i, s) \<in> set (enumerate 0 xs). P i s) \<longleftrightarrow> (\<exists>i < length xs. P i (xs ! i))"
  by (force simp: in_set_enumerate_eq)

lemma missing_one_split:
  assumes m: "m < length ss" and others: "\<And>i. i < length ss \<Longrightarrow> i \<noteq> m \<Longrightarrow> sbytes (ss ! i) \<noteq> []"
    and lost: "sbytes lost = []"
  shows "missingScan (ss[m := lost]) = (int m, 1)"
proof -
  have "\<forall>s \<in> set (take m ss). sbytes s \<noteq> []" "\<forall>s \<in> set (drop (Suc m) ss). sbytes s \<noteq> []"
    using others m by (auto simp: in_set_conv_nth)
  from missingScan_one [OF this(1) lost this(2)]
  show ?thesis using m by (simp add: upd_conv_take_nth_drop min_def)
qed

lemma encodeSingle_ok:
  "encodeSingle G c shards key = Some (Inr sent) \<Longrightarrow>
    \<exists>coeffs. codingCoefficients key (nat (dataShards c)) = Some coeffs
      \<and> None \<notin> set (take (nat (dataShards c)) shards)
      \<and> 0 < maxShardLen (take (nat (dataShards c)) shards)
      \<and> sent = shards[nat (dataShards c) :=
          Some (fold (\<lambda>(k, s) out. xorPrefix G k (sbytes s) out) (zip coeffs (take (nat (dataShards c)) shards))
            (replicate (maxShardLen (take (nat (dataShards c)) shards)) 0))]"
  by (auto simp: encodeSingle_def Let_def simp del: not_None_eq split: if_splits option.splits)

context galois_laws
begin

lemma reconstructSingle_lost:
  assumes enc: "encodeSingle G c shards key = Some (Inr sent)"
    and len: "nat (dataShards c) < length shards" and m: "m < nat (dataShards c)"
    and others: "\<And>i. i < nat (dataShards c) \<Longrightarrow> i \<noteq> m \<Longrightarrow> shards ! i \<noteq> Some []"
    and lost: "slen lost = 0"
  shows "reconstructSingle G c (sent[m := lost]) key
    = Some (Inr (sent[m := Some (paddedShard (sbytes (shards ! m)) (maxShardLen (take (nat (dataShards c)) shards)))]))"
proof -
  let ?d = "nat (dataShards c)" and ?ss = "take (nat (dataShards c)) shards"
  let ?n = "maxShardLen ?ss"
  let ?fold = "fold (\<lambda>(k, s) out. xorPrefix G k (sbytes s) out)"
  obtain cs where cs: "codingCoefficients key ?d = Some cs" and nil: "None \<notin> set ?ss"
    and n: "0 < ?n" and sent: "sent = shards[?d := Some (?fold (zip cs ?ss) (replicate ?n 0))]"
    using encodeSingle_ok [OF enc] by blast
  have cs': "length cs = ?d" "cs ! m \<noteq> 0"
    using codingCoefficients_props [OF cs] m by (auto simp: in_set_conv_nth)
  have ssd: "length ?ss = ?d" using len by simp
  have fit: "\<forall>s \<in> set ?ss. slen s \<le> ?n" by (simp add: maxShardLen_ge)
  have "\<forall>(c, s) \<in> set (zip cs ?ss). slen s \<le> length (replicate ?n (0 :: u8))"
    using fit by (auto dest: set_zip_rightD)
  then have rlen: "length (?fold (zip cs ?ss) (replicate ?n 0)) = ?n"
    using fold_xorPrefix(1) by fastforce
  have data: "take ?d (sent[m := lost]) = ?ss[m := lost]"
    using m by (simp add: sent take_update_swap list_update_beyond)
  have repair: "sbytes (sent[m := lost] ! ?d) = ?fold (zip cs ?ss) (replicate ?n 0)"
    using m len by (simp add: sent sbytes_def)
  have ne: "sbytes (?ss ! i) \<noteq> []" if "i < length ?ss" "i \<noteq> m" for i
  proof -
    have "?ss ! i \<noteq> None" using nil that(1) by (metis nth_mem)
    then show ?thesis using others [of i] that by (auto simp: sbytes_def)
  qed
  have scan: "missingScan (?ss[m := lost]) = (int m, 1)"
    by (rule missing_one_split) (use m ssd ne lost in auto)
  have "\<forall>s \<in> set (?ss[m := lost]). slen s \<le> ?n"
    using fit lost by (auto dest!: set_update_subset_insert [THEN subsetD])
  then have fit': "\<forall>i < length (?ss[m := lost]). slen (?ss[m := lost] ! i) \<le> ?n"
    by (simp only: all_set_conv_all_nth)
  have short: "\<not> (\<exists>(i, s) \<in> set (enumerate 0 (?ss[m := lost])). i \<noteq> m \<and> slen s > ?n)"
    using fit' unfolding ex_enumerate by (meson not_le)
  have upd: "(sent[m := lost])[m := x] = sent[m := x]" for x by simp
  have rec: "gal_mul_slice G (gal_inv G (cs ! m))
      (fold (\<lambda>(i, k, s) out. if i = m then out else xorPrefix G k (sbytes s) out)
        (enumerate 0 (zip cs (?ss[m := lost]))) (?fold (zip cs ?ss) (replicate ?n 0)))
    = paddedShard (sbytes (?ss ! m)) ?n"
    by (rule recover_missing) (use cs' ssd m fit lost in auto)
  show ?thesis
    unfolding reconstructSingle_def Let_def data repair rlen scan cs
    using n m short rec by (simp add: upd split del: if_split)
qed

end

lemma reconstructSingle_error:
  assumes "codingCoefficients key (nat (dataShards c)) = Some cs"
  shows "reconstructSingle G c shards key = Some (Inl e) \<longleftrightarrow> e = ErrUnrecoverable \<and>
    (slen (shards ! nat (dataShards c)) = 0
     \<or> length (filter (\<lambda>s. slen s = 0) (take (nat (dataShards c)) shards)) \<noteq> 1
     \<or> (\<exists>s \<in> set (take (nat (dataShards c)) shards). slen s > slen (shards ! nat (dataShards c))))"
proof -
  let ?ss = "take (nat (dataShards c)) shards" and ?n = "slen (shards ! nat (dataShards c))"
  obtain mi cnt where scan: "missingScan ?ss = (mi, cnt)" by fastforce
  have cnt: "cnt = length (filter (\<lambda>s. slen s = 0) ?ss)"
    using scan missingScan_count [of 0 ?ss "- 1" 0] by (simp add: missingScan_def)
  have long: "(\<exists>(i, s) \<in> set (enumerate 0 ?ss). i \<noteq> nat mi \<and> slen s > ?n) \<longleftrightarrow> (\<exists>s \<in> set ?ss. slen s > ?n)"
    if one: "cnt = 1"
  proof -
    obtain ys s zs where split: "?ss = ys @ s # zs" "slen s = 0" "\<forall>x \<in> set ys. sbytes x \<noteq> []"
        "\<forall>x \<in> set zs. sbytes x \<noteq> []"
    proof -
      have "filter (\<lambda>s. slen s = 0) ?ss \<noteq> []" using cnt one by auto
      then obtain x where "x \<in> set ?ss" "slen x = 0" by (auto simp: filter_empty_conv)
      then obtain ys s zs where 1: "?ss = ys @ s # zs" "slen s = 0" "\<forall>y \<in> set ys. slen y \<noteq> 0"
        using split_list_first_prop [of ?ss "\<lambda>s. slen s = 0"] by blast
      have "filter (\<lambda>s. slen s = 0) zs = []" using cnt one 1 by simp
      then show thesis using that [OF 1(1,2)] 1(3) by (simp add: filter_empty_conv)
    qed
    have mi: "nat mi = length ys" using scan missingScan_one [of ys s zs] split by simp
    have "i \<noteq> nat mi" if "slen (?ss ! i) > ?n" for i
      using that split(1,2) mi by auto
    then show ?thesis unfolding ex_enumerate by (metis in_set_conv_nth)
  qed
  show ?thesis
  proof (cases "?n = 0 \<or> cnt \<noteq> 1")
    case True
    then show ?thesis unfolding reconstructSingle_def Let_def scan prod.case cnt by auto
  next
    case False
    then have "reconstructSingle G c shards key = Some (Inl e) \<longleftrightarrow>
        e = ErrUnrecoverable \<and> (\<exists>(i, s) \<in> set (enumerate 0 ?ss). i \<noteq> nat mi \<and> slen s > ?n)"
      unfolding reconstructSingle_def Let_def scan prod.case assms option.case by auto
    then show ?thesis using False long cnt by auto
  qed
qed

section \<open>The contract of the block encoder\<close>

text \<open>
  The documented behaviour of \<open>New\<close> with a custom matrix, \<open>Encode\<close> and \<open>ReconstructData\<close>: every
  parity shard is the linear combination its matrix row gives; data rebuilt from shards that
  survive of an encoded set is the encoded data; a single missing data shard can be rebuilt from
  any parity shard when no coefficient is zero.
\<close>

definition parity :: "(u8 \<Rightarrow> u8 \<Rightarrow> u8) \<Rightarrow> nat \<Rightarrow> bytes list \<Rightarrow> bytes \<Rightarrow> bytes" where
  "parity mul n data row = map (\<lambda>k. dot mul k (zip row (map Some data))) [0..<n]"

definition encoded_set :: "(u8 \<Rightarrow> u8 \<Rightarrow> u8) \<Rightarrow> nat \<Rightarrow> bytes list \<Rightarrow> bytes list \<Rightarrow> bytes list" where
  "encoded_set mul n M data = data @ map (parity mul n data) M"

definition survives :: "shard list \<Rightarrow> bytes list \<Rightarrow> bool" where
  "survives part full = list_all2 (\<lambda>s b. s = Some b \<or> slen s = 0) part full"

locale rs_laws =
  fixes R :: "'e rs" and mul :: "u8 \<Rightarrow> u8 \<Rightarrow> u8"
  assumes new_ok:
      "0 < d \<Longrightarrow> 0 < r \<Longrightarrow> d + r \<le> 256 \<Longrightarrow> length M = nat r \<Longrightarrow> \<forall>row \<in> set M. length row = nat d \<Longrightarrow>
        \<exists>e. rs_new R d r M = Inr e"
    and encode_ok:
      "rs_new R d r M = Inr e \<Longrightarrow> 0 < n \<Longrightarrow> length data = nat d \<Longrightarrow> \<forall>b \<in> set data. length b = n \<Longrightarrow>
        rs_encode R e (data @ replicate (nat r) (replicate n 0)) = Inr (encoded_set mul n M data)"
    and reconstruct_sound:
      "rs_new R d r M = Inr e \<Longrightarrow> 0 < n \<Longrightarrow> length data = nat d \<Longrightarrow> \<forall>b \<in> set data. length b = n \<Longrightarrow>
        survives part (encoded_set mul n M data) \<Longrightarrow> rs_reconstruct_data R e part = Inr out \<Longrightarrow>
        take (nat d) out = map Some data"
    and reconstruct_one:
      "rs_new R d r M = Inr e \<Longrightarrow> 0 < n \<Longrightarrow> length data = nat d \<Longrightarrow> \<forall>b \<in> set data. length b = n \<Longrightarrow>
        survives part (encoded_set mul n M data) \<Longrightarrow> \<forall>row \<in> set M. 0 \<notin> set row \<Longrightarrow>
        length (filter (\<lambda>s. slen s = 0) (take (nat d) part)) = 1 \<Longrightarrow>
        \<exists>s \<in> set (drop (nat d) part). slen s \<noteq> 0 \<Longrightarrow>
        \<exists>out. rs_reconstruct_data R e part = Inr out"

subsection \<open>An encoder that meets it\<close>

fun misses :: "bytes \<Rightarrow> shard list \<Rightarrow> bytes" where
  "misses (c # cs) (s # ss) = (if slen s = 0 then c # misses cs ss else misses cs ss)"
| "misses _ _ = []"

fun refill :: "shard list \<Rightarrow> bytes list \<Rightarrow> shard list" where
  "refill [] vs = []"
| "refill (s # ss) vs = (if slen s = 0 then Some (hd vs) # refill ss (tl vs) else s # refill ss vs)"

definition equations :: "bytes list \<Rightarrow> shard list \<Rightarrow> shard list \<Rightarrow> nat \<Rightarrow> (bytes \<times> u8) list" where
  "equations M known par k =
    map (\<lambda>(row, p). (misses row known, sbytes p ! k XOR dot gf_mul k (zip row known)))
      (filter (\<lambda>(row, p). slen p \<noteq> 0) (zip M par))"

definition gf_rs :: "(nat \<times> bytes list) rs" where
  "gf_rs = \<lparr>
    rs_new = (\<lambda>d r M. if 0 < d \<and> 0 < r \<and> d + r \<le> 256 \<and> length M = nat r \<and> (\<forall>row \<in> set M. length row = nat d)
       then Inr (nat d, M) else Inl ''invalid shard counts''),
    rs_encode = (\<lambda>(d, M) work. let n = length (hd work) in
       if n = 0 \<or> length work \<noteq> d + length M \<or> (\<exists>b \<in> set work. length b \<noteq> n) then Inl ''shard sizes''
       else Inr (encoded_set gf_mul n M (take d work))),
    rs_reconstruct_data = (\<lambda>(d, M) part.
       let n = maxShardLen part; known = take d part;
           miss = length (filter (\<lambda>s. slen s = 0) known);
           sols = map (\<lambda>k. solve (equations M known (drop d part) k) miss) [0..<n]
       in if n = 0 \<or> length part \<noteq> d + length M \<or> None \<in> set sols then Inl ''too few shards''
          else Inr (refill known (map (\<lambda>j. map (\<lambda>k. the (sols ! k) ! j) [0..<n]) [0..<miss]) @ drop d part))\<rparr>"

fun lost_bytes :: "nat \<Rightarrow> shard list \<Rightarrow> bytes list \<Rightarrow> bytes" where
  "lost_bytes k (s # ss) (b # bs) = (if slen s = 0 then b ! k # lost_bytes k ss bs else lost_bytes k ss bs)"
| "lost_bytes k _ _ = []"

lemma length_misses: "length row = length ss \<Longrightarrow> length (misses row ss) = length (filter (\<lambda>s. slen s = 0) ss)"
  by (induction row ss rule: list_induct2) auto

lemma length_lost_bytes: "length ss = length bs \<Longrightarrow> length (lost_bytes k ss bs) = length (filter (\<lambda>s. slen s = 0) ss)"
  by (induction ss bs rule: list_induct2) auto

lemma dot_split:
  assumes "length row = length ss" "length ss = length bs" "survives ss bs" "\<forall>b \<in> set bs. k < length b"
  shows "dot gf_mul k (zip row (map Some bs)) = dot gf_mul k (zip row ss) XOR sdot (misses row ss) (lost_bytes k ss bs)"
  using assms
  by (induction row ss bs rule: list_induct3)
     (auto simp: survives_def sbytes_def cterm_def ac_simps split: option.splits)

lemma refill_lost:
  assumes "length ss = length bs" "survives ss bs" "\<forall>b \<in> set bs. length b = n"
    and "\<And>j. j < length (filter (\<lambda>s. slen s = 0) ss) \<Longrightarrow> vs ! j = map (\<lambda>k. lost_bytes k ss bs ! j) [0..<n]"
    and "length vs = length (filter (\<lambda>s. slen s = 0) ss)"
  shows "refill ss vs = map Some bs"
  using assms
proof (induction ss bs arbitrary: vs rule: list_induct2)
  case (Cons s ss b bs)
  show ?case
  proof (cases "slen s = 0")
    case True
    then obtain v vs' where vs: "vs = v # vs'" using Cons.prems(4) by (cases vs) auto
    have "v = map (\<lambda>k. b ! k) [0..<n]" using Cons.prems(3) [of 0] True by (simp add: vs)
    then have "v = b" using Cons.prems(2) map_nth [of b] by simp
    moreover have "vs' ! j = map (\<lambda>k. lost_bytes k ss bs ! j) [0..<n]"
      if "j < length (filter (\<lambda>s. slen s = 0) ss)" for j
      using Cons.prems(3) [of "Suc j"] that True by (simp add: vs)
    then have "refill ss vs' = map Some bs"
      by (intro Cons.IH) (use Cons.prems True vs in \<open>auto simp: survives_def\<close>)
    ultimately show ?thesis using True vs by simp
  next
    case False
    then show ?thesis using Cons.prems by (auto simp: survives_def intro!: Cons.IH)
  qed
qed simp

lemma survives_len: "survives part full \<Longrightarrow> length part = length full"
  by (simp add: survives_def list_all2_lengthD)

lemma survives_nth: "survives part full \<Longrightarrow> i < length part \<Longrightarrow> part ! i = Some (full ! i) \<or> slen (part ! i) = 0"
  by (auto simp: survives_def dest: list_all2_nthD)

lemma survives_take: "survives part full \<Longrightarrow> survives (take d part) (take d full)"
  and survives_drop: "survives part full \<Longrightarrow> survives (drop d part) (drop d full)"
  by (auto simp: survives_def list_all2_takeI list_all2_dropI)

lemma equations_ok:
  assumes known: "survives known data" and len: "\<forall>b \<in> set data. length b = n"
    and par: "survives par (map (parity gf_mul n data) M)"
    and rows: "\<forall>row \<in> set M. length row = length data" and k: "k < n"
  shows "\<forall>e \<in> set (equations M known par k).
    length (fst e) = length (lost_bytes k known data) \<and> sdot (fst e) (lost_bytes k known data) = snd e"
proof
  fix e assume "e \<in> set (equations M known par k)"
  then obtain row p where rp: "(row, p) \<in> set (zip M par)" "slen p \<noteq> 0"
      "e = (misses row known, sbytes p ! k XOR dot gf_mul k (zip row known))"
    by (auto simp: equations_def)
  obtain i where i: "i < length M" "i < length par" "row = M ! i" "p = par ! i"
    using rp(1) by (auto simp: in_set_zip)
  then have "p = Some (parity gf_mul n data row)"
    using survives_nth [OF par i(2)] rp(2) by simp
  then have pk: "sbytes p ! k = dot gf_mul k (zip row (map Some data))"
    using k by (simp add: sbytes_def parity_def)
  have lens: "length row = length known" "length known = length data"
    using rows i survives_len [OF known] by simp_all
  have "dot gf_mul k (zip row (map Some data)) =
      dot gf_mul k (zip row known) XOR sdot (misses row known) (lost_bytes k known data)"
    by (rule dot_split [OF lens known]) (use len k in simp)
  then show "length (fst e) = length (lost_bytes k known data) \<and>
      sdot (fst e) (lost_bytes k known data) = snd e"
    using lens by (simp add: rp(3) pk length_misses length_lost_bytes ac_simps)
qed

lemma survives_maxShardLen:
  assumes "survives part full" "\<forall>b \<in> set full. length b = n" "maxShardLen part \<noteq> 0"
  shows "maxShardLen part = n"
proof -
  have len: "slen s = n \<or> slen s = 0" if "s \<in> set part" for s
    using that survives_nth [OF assms(1)] survives_len [OF assms(1)] assms(2)
    by (metis in_set_conv_nth nth_mem option.simps(5) sbytes_def)
  obtain s where s: "s \<in> set part" "slen s \<noteq> 0" using assms(3) by (auto simp: maxShardLen_0)
  have "maxShardLen part \<le> n" by (rule maxShardLen_le) (use len in fastforce)
  moreover have "n \<le> maxShardLen part" using maxShardLen_ge [OF s(1)] len [OF s(1)] s(2) by simp
  ultimately show ?thesis by simp
qed

lemma encoded_set_lengths:
  "\<forall>b \<in> set data. length b = n \<Longrightarrow> \<forall>b \<in> set (encoded_set mul n M data). length b = n"
  by (auto simp: encoded_set_def parity_def)

lemma gf_rs_new: "rs_new gf_rs d r M = Inr e \<Longrightarrow>
    e = (nat d, M) \<and> length M = nat r \<and> (\<forall>row \<in> set M. length row = nat d) \<and> 0 < d \<and> 0 < r"
  by (auto simp: gf_rs_def split: if_splits)

lemma encoded_set_split:
  assumes "length data = d" "survives part (encoded_set gf_mul n M data)"
  shows "survives (take d part) data" "survives (drop d part) (map (parity gf_mul n data) M)"
    and "length part = d + length M"
  using survives_take [OF assms(2), of d] survives_drop [OF assms(2), of d] survives_len [OF assms(2)] assms(1)
  by (simp_all add: encoded_set_def)

lemma gf_rs_sound:
  assumes data: "length data = d" "\<forall>b \<in> set data. length b = n"
    and M: "\<forall>row \<in> set M. length row = d" and surv: "survives part (encoded_set gf_mul n M data)"
    and out: "rs_reconstruct_data gf_rs (d, M) part = Inr out"
  shows "take d out = map Some data"
proof -
  let ?known = "take d part"
  let ?miss = "length (filter (\<lambda>s. slen s = 0) ?known)"
  let ?n = "maxShardLen part"
  let ?sols = "map (\<lambda>k. solve (equations M ?known (drop d part) k) ?miss) [0..<?n]"
  note known = encoded_set_split(1) [OF data(1) surv] and par = encoded_set_split(2) [OF data(1) surv]
  have ok: "?n \<noteq> 0" "None \<notin> set ?sols"
    and out': "out = refill ?known (map (\<lambda>j. map (\<lambda>k. the (?sols ! k) ! j) [0..<?n]) [0..<?miss]) @ drop d part"
    using out by (auto simp: gf_rs_def Let_def split: if_splits)
  have n: "?n = n" by (rule survives_maxShardLen [OF surv encoded_set_lengths [OF data(2)] ok(1)])
  have lk: "length ?known = length data" using survives_len [OF known] .
  have miss: "length (lost_bytes k ?known data) = ?miss" for k by (rule length_lost_bytes [OF lk])
  have sol: "?sols ! k = Some (lost_bytes k ?known data)" if "k < n" for k
  proof -
    have "k < length ?sols" using that n by simp
    then have "?sols ! k \<noteq> None" using ok(2) by (metis nth_mem)
    moreover have "?sols ! k = solve (equations M ?known (drop d part) k) ?miss"
      using that n by simp
    ultimately obtain ys where ys: "solve (equations M ?known (drop d part) k) ?miss = Some ys"
      by (metis not_None_eq)
    have "ys = lost_bytes k ?known data"
      by (rule solve_sound [OF equations_ok [OF known data(2) par _ that], of ys])
         (use M data(1) ys miss in simp_all)
    then show ?thesis using ys that n by simp
  qed
  have "refill ?known (map (\<lambda>j. map (\<lambda>k. the (?sols ! k) ! j) [0..<n]) [0..<?miss]) = map Some data"
    by (rule refill_lost [OF lk known data(2)]) (use sol in auto)
  then show ?thesis using data(1) lk unfolding out' n by simp
qed

lemma gf_rs_one:
  assumes data: "length data = d" "\<forall>b \<in> set data. length b = n" and n: "0 < n"
    and M: "\<forall>row \<in> set M. length row = d" and surv: "survives part (encoded_set gf_mul n M data)"
    and nz: "\<forall>row \<in> set M. 0 \<notin> set row"
    and one: "length (filter (\<lambda>s. slen s = 0) (take d part)) = 1"
    and left: "\<exists>s \<in> set (drop d part). slen s \<noteq> 0"
  shows "\<exists>out. rs_reconstruct_data gf_rs (d, M) part = Inr out"
proof -
  note known = encoded_set_split(1) [OF data(1) surv] and len = encoded_set_split(3) [OF data(1) surv]
  have lk: "length (take d part) = d" using survives_len [OF known] data(1) by simp
  obtain j where j: "j < length M" "slen (drop d part ! j) \<noteq> 0"
    using left len by (auto simp: in_set_conv_nth)
  have rowj: "length (M ! j) = d" "0 \<notin> set (M ! j)" using M nz j(1) by auto
  have "hd (misses row known) \<noteq> 0" if "0 \<notin> set row" "misses row known \<noteq> []" for row known
    using that by (induction row known rule: misses.induct) (auto split: if_splits)
  moreover have "misses (M ! j) (take d part) \<noteq> []"
    using length_misses [of "M ! j" "take d part"] rowj(1) lk one by auto
  ultimately have hd: "hd (misses (M ! j) (take d part)) \<noteq> 0" using rowj(2) by blast
  have "solve (equations M (take d part) (drop d part) k) (Suc 0) \<noteq> None" for k
  proof (rule solve_one)
    let ?e = "(misses (M ! j) (take d part),
      sbytes (drop d part ! j) ! k XOR dot gf_mul k (zip (M ! j) (take d part)))"
    have "(M ! j, drop d part ! j) \<in> set (zip M (drop d part))"
      using j(1) len by (auto simp: in_set_zip)
    then show "?e \<in> set (equations M (take d part) (drop d part) k)"
      using j(2) by (force simp: equations_def)
    show "hd (fst ?e) \<noteq> 0" using hd by simp
  qed
  moreover have "maxShardLen part \<noteq> 0"
    using left by (auto simp: maxShardLen_0 dest: in_set_dropD)
  ultimately show ?thesis using one len
    by (auto simp: gf_rs_def Let_def image_iff simp del: solve.simps) (metis not_None_eq)
qed

interpretation gfrs: rs_laws gf_rs gf_mul
proof (unfold_locales, goal_cases)
  case (1 d r M)
  then show ?case by (auto simp: gf_rs_def)
next
  case (2 d r M e n data)
  then have "hd (data @ replicate (nat r) (replicate n 0)) \<in> set data"
    using gf_rs_new [OF 2(1)] by (cases data) auto
  then show ?case
    using 2 gf_rs_new [OF 2(1)] by (auto simp: gf_rs_def Let_def)
next
  case (3 d r M e n data part out)
  then show ?case using gf_rs_new [OF 3(1)] by (intro gf_rs_sound) auto
next
  case (4 d r M e n data part)
  then show ?case using gf_rs_new [OF 4(1)] gf_rs_one [of data "nat d" n M part] by auto
qed

section \<open>Multi-repair recovery\<close>

lemma codingMatrix_props:
  "codingMatrix d keys = Some M \<Longrightarrow> length M = length keys \<and> (\<forall>row \<in> set M. length row = d \<and> 0 \<notin> set row)"
  by (induction keys arbitrary: M) (auto split: option.splits dest: codingCoefficients_props)

definition padded :: "nat \<Rightarrow> shard list \<Rightarrow> bytes list" where
  "padded n ss = map (\<lambda>s. paddedShard (sbytes s) n) ss"

text \<open>What the receiver holds: shards as they were sent, or empty.\<close>

definition received :: "shard list \<Rightarrow> shard list \<Rightarrow> bool" where
  "received recv sent = list_all2 (\<lambda>r s. r = s \<or> slen r = 0) recv sent"

lemma validate_Some:
  "validate (Some c) shards keys \<longleftrightarrow> 0 < dataShards c \<and> 0 < repairShards c \<and> repairShards c \<le> 4
    \<and> int (length shards) = dataShards c + repairShards c \<and> int (length keys) = repairShards c"
  by (auto simp: validate_def)

context rs_laws
begin

lemma Encode_multi:
  assumes enc: "Encode G R (Some c) shards keys = Some (Inr sent)" and multi: "repairShards c \<noteq> 1"
  defines "d \<equiv> nat (dataShards c)"
  defines "n \<equiv> maxShardLen (take d shards)"
  shows "\<exists>M e. codingMatrix d keys = Some M \<and> rs_new R (dataShards c) (repairShards c) M = Inr e
    \<and> sent = take d shards @ map Some (map (parity mul n (padded n (take d shards))) M)
    \<and> 0 < n \<and> validate (Some c) shards keys \<and> None \<notin> set (take d shards)"
proof -
  let ?data = "padded n (take d shards)"
  have v: "validate (Some c) shards keys" using enc by (auto simp: Encode_def split: if_splits)
  then have d: "length ?data = d" by (auto simp: validate_Some padded_def d_def)
  have all: "\<forall>b \<in> set ?data. length b = n" by (auto simp: padded_def)
  obtain M e work where M: "codingMatrix d keys = Some M" "rs_new R (dataShards c) (repairShards c) M = Inr e"
      and n: "0 < n" and nil: "None \<notin> set (take d shards)"
      and work: "rs_encode R e (?data @ replicate (nat (repairShards c)) (replicate n 0)) = Inr work"
      and sent: "sent = take d shards @ map Some (drop d work)"
    using enc v multi unfolding Encode_def Let_def d_def n_def padded_def encoder_def
    by (auto simp del: not_None_eq split: if_splits option.splits sum.splits)
  have "work = encoded_set mul n M ?data"
    using encode_ok [OF M(2) n _ all] d work by (simp add: d_def)
  then have "drop d work = map (parity mul n ?data) M" using d by (simp add: encoded_set_def)
  then show ?thesis using M n nil sent v by auto
qed

lemma received_survives:
  assumes recv: "received recv (ss @ map Some ps)" and n: "\<forall>s \<in> set ss. slen s \<le> n" and d: "length ss = d"
  shows "survives (map (\<lambda>s. if slen s = 0 then s else Some (paddedShard (sbytes s) n)) (take d recv)
      @ map (\<lambda>s. if slen s = 0 then None else s) (drop d recv)) (padded n ss @ ps)"
proof -
  have "list_all2 (\<lambda>r s. r = s \<or> slen r = 0) (take d recv) ss"
    using list_all2_takeI [OF recv [unfolded received_def], of d] d by simp
  then have 1: "survives (map (\<lambda>s. if slen s = 0 then s else Some (paddedShard (sbytes s) n)) (take d recv)) (padded n ss)"
    unfolding survives_def padded_def list_all2_map1 list_all2_map2
    by (rule list_all2_mono) auto
  have "list_all2 (\<lambda>r s. r = s \<or> slen r = 0) (drop d recv) (map Some ps)"
    using list_all2_dropI [OF recv [unfolded received_def], of d] d by simp
  then have 2: "survives (map (\<lambda>s. if slen s = 0 then None else s) (drop d recv)) ps"
    unfolding survives_def list_all2_map1 list_all2_map2
    by (rule list_all2_mono) (auto simp: sbytes_def)
  show ?thesis using 1 2 by (simp add: survives_def list_all2_appendI)
qed

lemma received_maxShardLen:
  assumes recv: "received recv (ss @ map Some ps)" and n: "\<forall>s \<in> set ss. slen s \<le> n"
    and ps: "\<forall>p \<in> set ps. length p = n" and left: "\<exists>s \<in> set (drop (length ss) recv). slen s \<noteq> 0"
  shows "maxShardLen recv = n"
proof (rule antisym)
  have len: "length recv = length ss + length ps" using recv by (auto simp: received_def dest: list_all2_lengthD)
  have at: "recv ! i = (ss @ map Some ps) ! i \<or> slen (recv ! i) = 0" if "i < length recv" for i
    using recv that by (auto simp: received_def dest: list_all2_nthD)
  have fit: "\<forall>s \<in> set (ss @ map Some ps). slen s \<le> n" using n ps by (auto simp: sbytes_def)
  show "maxShardLen recv \<le> n"
  proof (rule maxShardLen_le)
    fix s assume "s \<in> set recv"
    then obtain i where i: "i < length recv" "s = recv ! i" by (auto simp: in_set_conv_nth)
    have "(ss @ map Some ps) ! i \<in> set (ss @ map Some ps)" by (rule nth_mem) (use i len in simp)
    then show "slen s \<le> n" using at [OF i(1)] fit i(2) by (metis le0)
  qed
  obtain j where j: "j < length ps" "slen (recv ! (length ss + j)) \<noteq> 0"
    using left len by (auto simp: in_set_conv_nth)
  then have "recv ! (length ss + j) = Some (ps ! j)" using at [of "length ss + j"] len by simp
  then have "slen (recv ! (length ss + j)) = n" using ps j(1) by (simp add: sbytes_def)
  then show "n \<le> maxShardLen recv" using maxShardLen_ge [of "recv ! (length ss + j)" recv] j(1) len by simp
qed

lemma Reconstruct_multi:
  assumes enc: "Encode G R (Some c) shards keys = Some (Inr sent)" and multi: "repairShards c \<noteq> 1"
    and recv: "received recv sent" and left: "\<exists>s \<in> set (drop (nat (dataShards c)) recv). slen s \<noteq> 0"
  defines "d \<equiv> nat (dataShards c)"
  defines "n \<equiv> maxShardLen (take d shards)"
  defines "miss \<equiv> length (filter (\<lambda>s. slen s = 0) (take d recv))"
  defines "good \<equiv> map2 (\<lambda>r b. if slen r = 0 then Some b else r) (take d recv) (padded n (take d shards)) @ drop d recv"
  shows "Reconstruct G R (Some c) recv keys = Some (Inr out) \<Longrightarrow> out = good"
    and "miss = 1 \<Longrightarrow> Reconstruct G R (Some c) recv keys = Some (Inr good)"
proof -
  let ?ss = "take d shards" and ?r = "nat (repairShards c)"
  let ?data = "padded n ?ss"
  obtain M e where M: "codingMatrix d keys = Some M" "rs_new R (dataShards c) (repairShards c) M = Inr e"
    and sent: "sent = ?ss @ map Some (map (parity mul n ?data) M)"
    and n: "0 < n" and v: "validate (Some c) shards keys"
    using Encode_multi [OF enc multi] unfolding d_def n_def by auto
  have d: "length ?ss = d" "length ?data = d" using v by (auto simp: validate_Some padded_def d_def)
  have lenM: "length M = ?r" using codingMatrix_props [OF M(1)] v by (auto simp: validate_Some)
  have fit: "\<forall>s \<in> set ?ss. slen s \<le> n" by (simp add: n_def maxShardLen_ge)
  have all: "\<forall>b \<in> set ?data. length b = n" by (auto simp: padded_def)
  have recv': "received recv (?ss @ map Some (map (parity mul n ?data) M))" using recv sent by simp
  have lenr: "length recv = d + ?r" using recv' d lenM by (auto simp: received_def dest: list_all2_lengthD)
  let ?work = "map (\<lambda>s. if slen s = 0 then s else Some (paddedShard (sbytes s) n)) (take d recv)
      @ map (\<lambda>s. if slen s = 0 then None else s) (drop d recv)"
  have surv: "survives ?work (encoded_set mul n M ?data)"
    unfolding encoded_set_def by (rule received_survives [OF recv' fit d(1)])
  have max: "maxShardLen recv = n"
    by (rule received_maxShardLen [OF recv' fit]) (use left d in \<open>auto simp: parity_def d_def\<close>)
  have vr: "validate (Some c) recv keys" using v lenr by (auto simp: validate_Some d_def)
  have dl: "slen s \<le> n" if "s \<in> set recv" for s using maxShardLen_ge [OF that] max by simp
  have rl: "slen s = 0 \<or> slen s = n" if "s \<in> set (drop d recv)" for s
  proof -
    obtain i where i: "i < ?r" "s = recv ! (d + i)" using \<open>s \<in> _\<close> lenr by (auto simp: in_set_conv_nth)
    have "recv ! (d + i) = (?ss @ map Some (map (parity mul n ?data) M)) ! (d + i) \<or> slen (recv ! (d + i)) = 0"
      using recv' i(1) lenr by (intro list_all2_nthD [of "\<lambda>r s. r = s \<or> slen r = 0", folded received_def]) auto
    then show ?thesis using i d lenM by (auto simp: nth_append sbytes_def parity_def)
  qed
  have step: "Reconstruct G R (Some c) recv keys =
      (if miss = 0 \<or> miss > ?r then Some (Inl ErrUnrecoverable)
       else case rs_reconstruct_data R e ?work of
          Inl _ \<Rightarrow> Some (Inl ErrUnrecoverable)
        | Inr w \<Rightarrow> Some (Inr (map2 (\<lambda>s w. if slen s = 0 then w else s) (take d recv) (take d w) @ drop d recv)))"
  proof -
    have a: "\<not> (\<exists>s \<in> set (take d recv). slen s > n)" using dl by (auto dest: in_set_takeD simp: not_less)
    have b: "\<not> (\<exists>s \<in> set (drop d recv). slen s \<noteq> 0 \<and> slen s \<noteq> n)" using rl by blast
    show ?thesis
      using vr multi n M
      unfolding Reconstruct_def Let_def encoder_def option.sel d_def [symmetric] max miss_def [symmetric]
        if_not_P [OF a] if_not_P [OF b] M option.map option.case sum.case
      by (simp split del: if_split)
  qed
  have good: "map2 (\<lambda>s w. if slen s = 0 then w else s) (take d recv) (take d w) @ drop d recv = good"
    if "rs_reconstruct_data R e ?work = Inr w" for w
    using reconstruct_sound [OF M(2) n _ all surv that] d(2) unfolding good_def d_def [symmetric]
    by (auto simp: zip_map2 comp_def intro!: map_cong)
  show "Reconstruct G R (Some c) recv keys = Some (Inr out) \<Longrightarrow> out = good"
    using good unfolding step by (auto split: if_splits sum.splits)
  show "Reconstruct G R (Some c) recv keys = Some (Inr good)" if "miss = 1"
  proof -
    have "\<exists>w. rs_reconstruct_data R e ?work = Inr w"
    proof (rule reconstruct_one [OF M(2) n _ all surv])
      have same: "(slen (if slen s = 0 then s else Some (paddedShard (sbytes s) n)) = 0) = (slen s = 0)" for s
        using n by simp
      show "\<forall>row \<in> set M. 0 \<notin> set row" using codingMatrix_props [OF M(1)] by blast
      show "length (filter (\<lambda>s. slen s = 0) (take (nat (dataShards c)) ?work)) = 1"
        using that lenr same unfolding d_def [symmetric] miss_def by (simp add: filter_map comp_def)
      show "\<exists>s \<in> set (drop (nat (dataShards c)) ?work). slen s \<noteq> 0"
        using left lenr unfolding d_def [symmetric] by (auto simp: d_def)
    qed (use d(2) in \<open>simp add: d_def\<close>)
    then show ?thesis using good that v unfolding step by (auto simp: validate_Some)
  qed
qed

end

section \<open>Evaluation on concrete seeds\<close>

lemma nextState_4: "nextState \<lparr>status = [a, b, c, d]\<rparr> =
  (let x = (a AND tinyMT32Mask) XOR b XOR c; x = x XOR push_bit 1 x;
       y = d XOR (drop_bit 1 d XOR x); z = x XOR push_bit 10 y
   in if y AND 1 \<noteq> 0 then \<lparr>status = [b, c XOR tinyMT32Mat1, z XOR tinyMT32Mat2, y]\<rparr>
      else \<lparr>status = [b, c, z, y]\<rparr>)"
  by (simp add: nextState_def Let_def numeral_2_eq_2 numeral_3_eq_3)

lemma temper_4: "temper \<lparr>status = [a, b, c, d]\<rparr> =
  (let t1 = a + drop_bit 8 c; t0 = d XOR t1 in if t1 AND 1 \<noteq> 0 then t0 XOR tinyMT32TMat else t0)"
  by (simp add: temper_def Let_def numeral_2_eq_2 numeral_3_eq_3)

lemma nth4: "[a, b, c, d] ! Suc 0 = b" "[a, b, c, d] ! 2 = c" "[a, b, c, d] ! 3 = d"
  and upd4: "[a, b, c, d][Suc 0 := x] = [a, x, c, d]" "[a, b, c, d][2 := x] = [a, b, x, d]"
    "[a, b, c, d][3 := x] = [a, b, c, x]"
  by (simp_all add: numeral_2_eq_2 numeral_3_eq_3)

definition seedMix :: "u32 \<Rightarrow> u32 \<Rightarrow> u32 \<Rightarrow> u32" where
  "seedMix i p s = s XOR (i + 1812433253 * (p XOR drop_bit 30 p))"

lemma seedStep_4:
  "seedStep (Suc 0) [a, b, c, d] = [a, seedMix 1 a b, c, d]"
  "seedStep 2 [a, b, c, d] = [a, b, seedMix 2 b c, d]"
  "seedStep 3 [a, b, c, d] = [a, b, c, seedMix 3 c d]"
  "seedStep 4 [a, b, c, d] = [seedMix 4 d a, b, c, d]"
  "seedStep 5 [a, b, c, d] = [a, seedMix 5 a b, c, d]"
  "seedStep 6 [a, b, c, d] = [a, b, seedMix 6 b c, d]"
  "seedStep 7 [a, b, c, d] = [a, b, c, seedMix 7 c d]"
  by (simp_all add: seedStep_def seedMix_def Let_def nth4 upd4)

lemmas tinymt_eval = newTinyMT32_def seedStep_4 seedMix_def funpow_num nextState_4 temper_4 generate_def Let_def


lemma seeded:
  "newTinyMT32 1 = \<lparr>status = [214574296, 297425621, 4074426437, 3646805938]\<rparr>"
  "newTinyMT32 2 = \<lparr>status = [1364490923, 3397000382, 3078557198, 2338129308]\<rparr>"
  by (simp_all add: tinymt_eval)

lemma generated:
  "generate \<lparr>status = [214574296, 297425621, 4074426437, 3646805938]\<rparr> = (\<lparr>status = [297425621, 2108342699, 4290625991, 2232209075]\<rparr>, 2545341989)"
  "generate \<lparr>status = [297425621, 2108342699, 4290625991, 2232209075]\<rparr> = (\<lparr>status = [2108342699, 1892536361, 3180827860, 1937589793]\<rparr>, 981918433)"
  "generate \<lparr>status = [2108342699, 1892536361, 3180827860, 1937589793]\<rparr> = (\<lparr>status = [1892536361, 854033722, 1690459365, 2614258379]\<rparr>, 3715302833)"
  "generate \<lparr>status = [1892536361, 854033722, 1690459365, 2614258379]\<rparr> = (\<lparr>status = [854033722, 1690459365, 1714342426, 3171108276]\<rparr>, 2387538352)"
  "generate \<lparr>status = [854033722, 1690459365, 1714342426, 3171108276]\<rparr> = (\<lparr>status = [1690459365, 3915308020, 3542699856, 3013595937]\<rparr>, 3591001365)"
  "generate \<lparr>status = [1364490923, 3397000382, 3078557198, 2338129308]\<rparr> = (\<lparr>status = [3397000382, 940515296, 2289482546, 3120578431]\<rparr>, 1183928825)"
  "generate \<lparr>status = [3397000382, 940515296, 2289482546, 3120578431]\<rparr> = (\<lparr>status = [940515296, 2289482546, 497359028, 3909412980]\<rparr>, 3509070988)"
  "generate \<lparr>status = [940515296, 2289482546, 497359028, 3909412980]\<rparr> = (\<lparr>status = [2289482546, 497359028, 2064012458, 1810061540]\<rparr>, 3809646946)"
  by (simp_all add: tinymt_eval)


lemma nonzeroByte_0: "generate r = (r', v) \<Longrightarrow> ucast (v AND 0xff) \<noteq> (0 :: u8) \<Longrightarrow>
    nonzeroByte r 0 = Some (r', ucast (v AND 0xff))"
  by (subst nonzeroByte.simps) (simp add: nonzeroByte.simps)

lemma coefficients_1: "fillCodingCoefficients 1 [0, 0, 0] = Some [37, 225, 177]"
  and coefficients_2: "fillCodingCoefficients 2 [0, 0, 0] = Some [249, 140, 98]"
  by (simp_all add: fillCodingCoefficients_def seeded generated nonzeroByte_0)

lemma replicate_3: "replicate 3 x = [x, x, x]"
  and replicate_2: "replicate 2 x = [x, x]"
  and take_3: "take 3 (a # b # c # xs) = [a, b, c]" and drop_3: "drop 3 (a # b # c # xs) = xs"
  by (simp_all add: numeral_3_eq_3 numeral_2_eq_2)

section \<open>Properties\<close>

text \<open>For seed 1 the generator yields the output sequence RFC 8682 lists for its TinyMT32. \<close>

lemma tinymt32_rfc8682:
  "(let r = newTinyMT32 1; (r, a) = generate r; (r, b) = generate r; (r, c) = generate r;
        (r, d) = generate r; (r, e) = generate r
    in [a, b, c, d, e]) = [2545341989, 981918433, 3715302833, 2387538352, 3591001365]"
  by (simp add: seeded generated)

text \<open> C4: Single-repair recovery. If Encode succeeded with one repair shard over data shards that
  are non-empty except possibly the one lost, then Reconstruct with any one data shard lost returns
  that shard, padded with zeros to the longest, and leaves every other shard alone. \<close>

theorem single_repair_recovers:
  assumes laws: "galois_laws G mul"
    and c: "repairShards c = 1"
    and enc: "Encode G R (Some c) shards [key] = Some (Inr sent)"
    and m: "m < nat (dataShards c)"
    and others: "\<forall>i < nat (dataShards c). i \<noteq> m \<longrightarrow> shards ! i \<noteq> Some []"
    and lost: "slen lost = 0"
  shows "Reconstruct G R (Some c) (sent[m := lost]) [key]
    = Some (Inr (sent[m := Some (paddedShard (sbytes (shards ! m)) (maxShardLen (take (nat (dataShards c)) shards)))]))"
proof -
  have v: "validate (Some c) shards [key]" and single: "encodeSingle G c shards key = Some (Inr sent)"
    using enc c by (auto simp: Encode_def split: if_splits)
  have len: "nat (dataShards c) < length shards" using v c by (auto simp: validate_Some)
  have "length sent = length shards" using encodeSingle_ok [OF single] by auto
  then have "validate (Some c) (sent[m := lost]) [key]" using v by (simp add: validate_Some)
  then show ?thesis
    using galois_laws.reconstructSingle_lost [OF laws single len m _ lost] others c
    by (simp add: Reconstruct_def)
qed

lemma single_repair_recovers_witness:
  "\<exists>sent. Encode gf_galois gf_rs (Some \<lparr>dataShards = 3, repairShards = 1\<rparr>)
      [Some [1, 2], Some [3], Some [4, 5, 6], None] [1] = Some (Inr sent)
    \<and> Reconstruct gf_galois gf_rs (Some \<lparr>dataShards = 3, repairShards = 1\<rparr>) (sent[1 := None]) [1]
      = Some (Inr (sent[1 := Some [3, 0, 0]]))"
proof -
  let ?c = "\<lparr>dataShards = 3, repairShards = 1\<rparr> :: codec"
  let ?s = "[Some [1, 2], Some [3], Some [4, 5, 6], None] :: shard list"
  have laws: "galois_laws gf_galois gf_mul" ..
  obtain sent where enc: "Encode gf_galois gf_rs (Some ?c) ?s [1] = Some (Inr sent)"
    by (simp add: Encode_def encodeSingle_def validate_Some maxShardLen_def coefficients_1 replicate_3 Let_def)
  have "shards ! i \<noteq> Some []" if "i < 3" "shards = ?s" for i shards
    using that by (auto simp: numeral_3_eq_3 less_Suc_eq)
  then show ?thesis
    using enc single_repair_recovers [OF laws _ enc, of 1 None]
    by (simp add: maxShardLen_def paddedShard_def overwrite_def numeral_3_eq_3)
qed

text \<open> C5: The single-repair Reconstruct fails exactly when the repair shard is empty, when the
  number of empty data shards is not one, or when a data shard is longer than the repair shard;
  the error is ErrUnrecoverable. \<close>

theorem single_repair_errors:
  assumes "validate (Some c) shards [key]"
    and "codingCoefficients key (nat (dataShards c)) = Some cs"
  shows "Reconstruct G R (Some c) shards [key] = Some (Inl e) \<longleftrightarrow> e = ErrUnrecoverable \<and>
    (slen (shards ! nat (dataShards c)) = 0
     \<or> length (filter (\<lambda>s. slen s = 0) (take (nat (dataShards c)) shards)) \<noteq> 1
     \<or> (\<exists>s \<in> set (take (nat (dataShards c)) shards). slen s > slen (shards ! nat (dataShards c))))"
proof -
  have "repairShards c = 1" using assms(1) by (simp add: validate_Some)
  then show ?thesis using assms reconstructSingle_error [OF assms(2)] by (simp add: Reconstruct_def)
qed

lemma single_repair_errors_witness:
  "Reconstruct gf_galois gf_rs (Some \<lparr>dataShards = 3, repairShards = 1\<rparr>)
    [None, Some [3], None, Some [7, 8]] [1] = Some (Inl ErrUnrecoverable)"
  by (subst single_repair_errors [where cs = "[37, 225, 177]"])
     (simp_all add: validate_Some coefficients_1 numeral_3_eq_3)

text \<open> C6: Multi-repair recovery is sound and live. Under the documented contract of the block
  encoder, whatever Reconstruct returns from shards that survive of an encoded set, one repair shard
  among them, holds the sent data in every lost place (zero padded to the longest) and leaves the
  others alone; with exactly one lost data shard it does return. \<close>

theorem multi_repair_recovers:
  assumes laws: "rs_laws R mul"
    and c: "repairShards c \<noteq> 1"
    and enc: "Encode G R (Some c) shards keys = Some (Inr sent)"
    and recv: "received recv sent"
    and left: "\<exists>s \<in> set (drop (nat (dataShards c)) recv). slen s \<noteq> 0"
  shows "let d = nat (dataShards c); n = maxShardLen (take d shards);
             good = map2 (\<lambda>r b. if slen r = 0 then Some b else r) (take d recv)
               (map (\<lambda>s. paddedShard (sbytes s) n) (take d shards)) @ drop d recv
    in (\<forall>out. Reconstruct G R (Some c) recv keys = Some (Inr out) \<longrightarrow> out = good) \<and>
       (length (filter (\<lambda>s. slen s = 0) (take d recv)) = 1 \<longrightarrow>
          Reconstruct G R (Some c) recv keys = Some (Inr good))"
  using rs_laws.Reconstruct_multi [OF laws enc c recv left] unfolding Let_def padded_def by blast

lemma multi_repair_recovers_witness:
  "\<exists>sent. Encode gf_galois gf_rs (Some \<lparr>dataShards = 3, repairShards = 2\<rparr>)
      [Some [1, 2], Some [3], Some [4, 5, 6], None, None] [1, 2] = Some (Inr sent)
    \<and> Reconstruct gf_galois gf_rs (Some \<lparr>dataShards = 3, repairShards = 2\<rparr>) (sent[1 := None, 3 := None]) [1, 2]
      = Some (Inr (sent[1 := Some [3, 0, 0], 3 := None]))"
proof -
  let ?c = "\<lparr>dataShards = 3, repairShards = 2\<rparr> :: codec"
  let ?s = "[Some [1, 2], Some [3], Some [4, 5, 6], None, None] :: shard list"
  let ?M = "[[37, 225, 177], [249, 140, 98]] :: bytes list"
  let ?d = "[[1, 2, 0], [3, 0, 0], [4, 5, 6]] :: bytes list"
  let ?p = "map (\<lambda>row. Some (parity gf_mul 3 ?d row)) ?M"
  have laws: "rs_laws gf_rs gf_mul" ..
  obtain e where e: "rs_new gf_rs 3 2 ?M = Inr e" using gfrs.new_ok [of 3 2 ?M] by auto
  have "rs_encode gf_rs e (?d @ replicate (nat 2) (replicate 3 0)) = Inr (encoded_set gf_mul 3 ?M ?d)"
    by (rule gfrs.encode_ok [OF e]) (simp_all add: numeral_3_eq_3)
  then have enc: "Encode gf_galois gf_rs (Some ?c) ?s [1, 2] = Some (Inr (take 3 ?s @ ?p))"
    by (simp add: Encode_def validate_Some maxShardLen_def encoder_def coefficients_1 coefficients_2
        replicate_3 replicate_2 drop_3 take_3 paddedShard_def overwrite_def e Let_def encoded_set_def)
  let ?recv = "[Some [1, 2], None, Some [4, 5, 6], None, Some (parity gf_mul 3 ?d [249, 140, 98])] :: shard list"
  have recv: "received ?recv (take 3 ?s @ ?p)"
    by (simp add: received_def take_3)
  have left: "\<exists>s \<in> set (drop (nat (dataShards ?c)) ?recv). slen s \<noteq> 0"
    by (simp add: drop_3 parity_def)
  have two: "repairShards ?c \<noteq> 1" and nat3: "nat 3 = (3 :: nat)" by simp_all
  have "Reconstruct gf_galois gf_rs (Some ?c) ?recv [1, 2] = Some (Inr (?recv[1 := Some [3, 0, 0]]))"
    using multi_repair_recovers [OF laws two enc recv left, unfolded Let_def codec.simps nat3, THEN conjunct2]
    by (simp add: Let_def maxShardLen_def take_3 drop_3 paddedShard_def overwrite_def)
  moreover have "(take 3 ?s @ ?p)[1 := None, 3 := None] = ?recv"
    "(take 3 ?s @ ?p)[1 := Some [3, 0, 0], 3 := None] = ?recv[1 := Some [3, 0, 0]]"
    by (simp_all add: take_3 numeral_3_eq_3)
  ultimately show ?thesis using enc by (intro exI [of _ "take 3 ?s @ ?p"]) (simp only: simp_thms)
qed

end
