(* ===== verification/Schedule.thy ===== *)
theory Schedule
  imports Prelude
begin

text \<open>
  \<open>internal/schedule/strategy.go\<close>: the interfaces between the sender and its lane scheduler. The
  methods of a lane are the operations of \<open>lane_ops\<close>. The contract \<open>Strategy.Pick\<close> owes its
  callers is the locale \<open>strategy\<close>; \<open>Drr\<close> and \<open>Cfs\<close> are its two providers.
\<close>

record 'l lane_ops =
  Weight :: "'l \<Rightarrow> u32"
  Cost :: "'l \<Rightarrow> u32 \<Rightarrow> u32"

text \<open>The lanes a scheduler may pick: those with non-zero weight.\<close>

abbreviation candidates :: "'l lane_ops \<Rightarrow> 'l list \<Rightarrow> 'l list" where
  "candidates ops lanes \<equiv> filter (\<lambda>l. Weight ops l \<noteq> 0) lanes"

locale strategy =
  fixes Pick :: "'s \<Rightarrow> 'l list \<Rightarrow> u32 \<Rightarrow> 's \<times> 'l option"
    and ops :: "'l lane_ops"
  assumes pick_candidate: "Pick s lanes c = (s', Some l) \<Longrightarrow> l \<in> set (candidates ops lanes)"
    and work_conserving: "Pick s lanes c = (s', None) \<Longrightarrow> candidates ops lanes = []"
begin

lemma pick_None_iff: "snd (Pick s lanes c) = None \<longleftrightarrow> candidates ops lanes = []"
proof (cases "snd (Pick s lanes c)")
  case (Some l)
  then show ?thesis
    using pick_candidate [of s lanes c "fst (Pick s lanes c)" l]
    by (cases "Pick s lanes c") (auto simp: filter_empty_conv)
qed (metis prod.collapse work_conserving)

lemma pick_single: "candidates ops lanes = [l] \<Longrightarrow> snd (Pick s lanes c) = Some l"
  using pick_None_iff [of s lanes c] pick_candidate [of s lanes c "fst (Pick s lanes c)"]
  by (cases "Pick s lanes c") auto

end

text \<open>A run of picks over a fixed lane list: the final state and the lanes picked.\<close>

fun picks :: "('s \<Rightarrow> 'l list \<Rightarrow> u32 \<Rightarrow> 's \<times> 'l option) \<Rightarrow> 'l list \<Rightarrow> u32 list \<Rightarrow> 's \<Rightarrow> 's \<times> 'l list" where
  "picks P lanes [] s = (s, [])"
| "picks P lanes (c # cs) s =
    (case P s lanes c of (s', None) \<Rightarrow> picks P lanes cs s'
     | (s', Some l) \<Rightarrow> (case picks P lanes cs s' of (s'', ls) \<Rightarrow> (s'', l # ls)))"

end
