(* ===== verification/Drr.thy ===== *)
theory Drr
  imports Schedule
begin

text \<open>
  \<open>internal/schedule/drr/drr.go\<close>: deficit round robin. \<open>items\<close> maps a lane to its deficit, \<open>cursor\<close>
  is the pair \<open>cursor\<close>/\<open>cursorSet\<close>. \<open>drr_scan\<close> is one virtual round over the rotated indices,
  \<open>drr_rounds\<close> the loop of at most 100 rounds with the work-conserving fallback after it.
\<close>

section \<open>The strategy\<close>

record 'l drr =
  items :: "'l \<rightharpoonup> u64"
  baseQuantum :: u32
  cursor :: "'l option"

abbreviation (input) maxVirtualRounds :: nat where "maxVirtualRounds \<equiv> 100"

definition New :: "u32 \<Rightarrow> 'l drr" where
  "New q = \<lparr>items = Map.empty, baseQuantum = q, cursor = None\<rparr>"

text \<open>\<open>item\<close> inserts a zero deficit on first use; reading through it is reading with default 0.\<close>

definition item :: "'l \<Rightarrow> 'l drr \<Rightarrow> 'l drr" where
  "item l s = (case items s l of None \<Rightarrow> s\<lparr>items := (items s)(l \<mapsto> 0)\<rparr> | Some _ \<Rightarrow> s)"

definition deficit :: "'l drr \<Rightarrow> 'l \<Rightarrow> u64" where
  "deficit s l = (case items s l of None \<Rightarrow> 0 | Some d \<Rightarrow> d)"

definition setDeficit :: "'l \<Rightarrow> u64 \<Rightarrow> 'l drr \<Rightarrow> 'l drr" where
  "setDeficit l d s = s\<lparr>items := (items s)(l \<mapsto> d)\<rparr>"

definition advanceCursor :: "'l lane_ops \<Rightarrow> 'l list \<Rightarrow> nat \<Rightarrow> 'l drr \<Rightarrow> 'l drr" where
  "advanceCursor ops lanes idx s =
    (case find (\<lambda>l. Weight ops l \<noteq> 0) (map (\<lambda>k. lanes ! ((idx + k) mod length lanes)) [1..<length lanes + 1]) of
       None \<Rightarrow> s | Some l \<Rightarrow> s\<lparr>cursor := Some l\<rparr>)"

definition startIndex :: "'l list \<Rightarrow> 'l drr \<Rightarrow> nat" where
  "startIndex lanes s =
    (case cursor s of None \<Rightarrow> 0
     | Some c \<Rightarrow> if c \<in> set lanes then length (takeWhile (\<lambda>l. l \<noteq> c) lanes) else 0)"

text \<open>One virtual round: the new state, the number of candidates met and the lane picked.\<close>

fun drr_scan :: "'l lane_ops \<Rightarrow> 'l list \<Rightarrow> u32 \<Rightarrow> nat list \<Rightarrow> nat \<Rightarrow> 'l drr \<Rightarrow> 'l drr \<times> nat \<times> 'l option" where
  "drr_scan ops lanes c [] n s = (s, n, None)"
| "drr_scan ops lanes c (idx # is) n s =
    (let lane = lanes ! idx; weight = Weight ops lane in
     if weight = 0 then drr_scan ops lanes c is n s
     else
       let s = item lane s;
           laneCost = ucast (Cost ops lane c) :: u64;
           s = (if deficit s lane < laneCost
                then setDeficit lane (deficit s lane + ucast (baseQuantum s) * ucast weight) s else s)
       in if deficit s lane < laneCost then drr_scan ops lanes c is (n + 1) s
          else
            let s = setDeficit lane (deficit s lane - laneCost) s;
                s = (if deficit s lane \<ge> laneCost then s\<lparr>cursor := Some lane\<rparr>
                     else advanceCursor ops lanes idx s)
            in (s, n + 1, Some lane))"

fun drr_rounds :: "'l lane_ops \<Rightarrow> 'l list \<Rightarrow> u32 \<Rightarrow> nat list \<Rightarrow> nat \<Rightarrow> 'l drr \<Rightarrow> 'l drr \<times> 'l option" where
  "drr_rounds ops lanes c is 0 s =
    (case filter (\<lambda>idx. Weight ops (lanes ! idx) \<noteq> 0) is of
       [] \<Rightarrow> (s, None)
     | idx # _ \<Rightarrow> (advanceCursor ops lanes idx (setDeficit (lanes ! idx) 0 s), Some (lanes ! idx)))"
| "drr_rounds ops lanes c is (Suc r) s =
    (case drr_scan ops lanes c is 0 s of
       (s, _, Some l) \<Rightarrow> (s, Some l)
     | (s, n, None) \<Rightarrow> if n = 0 then (s, None) else drr_rounds ops lanes c is r s)"

definition Pick :: "'l lane_ops \<Rightarrow> 'l drr \<Rightarrow> 'l list \<Rightarrow> u32 \<Rightarrow> 'l drr \<times> 'l option" where
  "Pick ops s lanes c =
    (let n = length lanes in
     if n = 0 then (s, None)
     else
       let start = startIndex lanes s
       in drr_rounds ops lanes c (map (\<lambda>k. (start + k) mod n) [0..<n]) maxVirtualRounds s)"

section \<open>Every pick is a candidate, and a candidate is always found\<close>

lemma drr_scan_candidate:
  "drr_scan ops lanes c is n s = (s', m, Some l) \<Longrightarrow> \<exists>idx \<in> set is. l = lanes ! idx \<and> Weight ops l \<noteq> 0"
  by (induction ops lanes c "is" n s rule: drr_scan.induct) (auto simp: Let_def split: if_splits)

lemma drr_scan_count:
  "drr_scan ops lanes c is n s = (s', m, None) \<Longrightarrow>
    m = n + length (filter (\<lambda>idx. Weight ops (lanes ! idx) \<noteq> 0) is)"
  by (induction ops lanes c "is" n s rule: drr_scan.induct) (auto simp: Let_def split: if_splits)

lemma drr_rounds_candidate:
  "drr_rounds ops lanes c is r s = (s', Some l) \<Longrightarrow> \<exists>idx \<in> set is. l = lanes ! idx \<and> Weight ops l \<noteq> 0"
proof (induction ops lanes c "is" r s rule: drr_rounds.induct)
  case (1 ops lanes c "is" s)
  then show ?case by (auto split: list.splits dest!: filter_eq_ConsD)
qed (auto split: prod.splits option.splits if_splits dest: drr_scan_candidate)

lemma drr_rounds_None:
  "drr_rounds ops lanes c is r s = (s', None) \<Longrightarrow> filter (\<lambda>idx. Weight ops (lanes ! idx) \<noteq> 0) is = []"
  by (induction ops lanes c "is" r s rule: drr_rounds.induct)
     (auto split: prod.splits option.splits if_splits list.splits dest: drr_scan_count)

lemma set_rotation:
  assumes "0 < n" shows "set (map (\<lambda>k. (start + k) mod n) [0..<n]) = {..<n}"
proof -
  have "i \<in> (\<lambda>k. (start + k) mod n) ` {0..<n}" if "i < n" for i
  proof
    have "(start + (n - start mod n + i) mod n) mod n = (start mod n + (n - start mod n + i)) mod n"
      by (simp add: mod_add_left_eq mod_add_right_eq)
    also have "start mod n + (n - start mod n + i) = n + i"
      using mod_le_divisor [OF assms, of start] by simp
    also have "(n + i) mod n = i mod n" by simp
    finally show "i = (start + (n - start mod n + i) mod n) mod n" using that by simp
  qed (use assms in simp)
  then show ?thesis using assms by auto
qed

interpretation drr: strategy "Pick ops" ops for ops
proof
  fix s :: "'a drr" and lanes c s' l
  assume "Pick ops s lanes c = (s', Some l)"
  then have ne: "lanes \<noteq> []" and "drr_rounds ops lanes c
      (map (\<lambda>k. (startIndex lanes s + k) mod length lanes) [0..<length lanes]) maxVirtualRounds s = (s', Some l)"
    by (auto simp: Pick_def Let_def split: if_splits)
  from drr_rounds_candidate [OF this(2)] show "l \<in> set (candidates ops lanes)"
    using set_rotation [of "length lanes" "startIndex lanes s"] ne by auto
next
  fix s :: "'a drr" and lanes c s'
  assume *: "Pick ops s lanes c = (s', None)"
  show "candidates ops lanes = []"
  proof (cases "lanes = []")
    case False
    then have "drr_rounds ops lanes c
        (map (\<lambda>k. (startIndex lanes s + k) mod length lanes) [0..<length lanes]) maxVirtualRounds s = (s', None)"
      using * by (auto simp: Pick_def Let_def)
    from drr_rounds_None [OF this] show ?thesis
      using set_rotation [of "length lanes" "startIndex lanes s"] False
      unfolding filter_empty_conv by (metis in_set_conv_nth lessThan_iff length_greater_0_conv)
  qed simp
qed

section \<open>Credit never overflows\<close>

text \<open>A quantum is added only below the cost of the packet, so the 64-bit sum is exact.\<close>

lemma unat_quantum: "unat (ucast (q :: u32) * ucast (w :: u32) :: u64) = unat q * unat w"
proof -
  have "unat q * unat w \<le> (2 ^ 32 - 1) * (2 ^ 32 - 1)"
    using unsigned_less [of q, where 'a = nat] unsigned_less [of w, where 'a = nat]
    by (intro mult_le_mono) simp_all
  then have "unat q * unat w < 2 ^ 64" by (rule le_less_trans) simp
  then show ?thesis by (simp add: unat_word_ariths)
qed

lemma credit_exact:
  assumes "d < (ucast (c :: u32) :: u64)"
  shows "unat (d + ucast (q :: u32) * ucast (w :: u32)) = unat d + unat q * unat w"
proof -
  have "unat d < unat c" using assms by (simp add: word_less_nat_alt)
  then have "unat d \<le> 2 ^ 32 - 2" using unsigned_less [of c, where 'a = nat] by simp
  moreover have "unat q * unat w \<le> (2 ^ 32 - 1) * (2 ^ 32 - 1)"
    using unsigned_less [of q, where 'a = nat] unsigned_less [of w, where 'a = nat]
    by (intro mult_le_mono) simp_all
  ultimately have "unat d + unat q * unat w < 2 ^ 64" by simp
  then show ?thesis by (simp add: unat_word_ariths unat_quantum [simplified unat_word_ariths])
qed

section \<open>The cursor\<close>

lemma rotate_map: "xs \<noteq> [] \<Longrightarrow> map (\<lambda>k. xs ! ((i + k) mod length xs)) [1..<length xs + 1] = rotate (i + 1) xs"
  by (rule nth_equalityI) (simp_all add: nth_rotate ac_simps del: upt_Suc rotate_Suc)

lemma find_filter: "find P xs = (case filter P xs of [] \<Rightarrow> None | x # _ \<Rightarrow> Some x)"
  by (induction xs) auto

text \<open>After lane \<open>p\<close> of the candidates the cursor moves to candidate \<open>p + 1\<close>, cyclically.\<close>

lemma advanceCursor_next:
  assumes "lanes = A @ l # B" "Weight ops l \<noteq> 0"
  shows "advanceCursor ops lanes (length A) s =
    s\<lparr>cursor := Some (candidates ops lanes ! ((length (candidates ops A) + 1) mod length (candidates ops lanes)))\<rparr>"
proof -
  have "rotate (length A + 1) lanes = B @ A @ [l]"
    using rotate_append [of "A @ [l]" B] assms(1) by simp
  then have "advanceCursor ops lanes (length A) s = (case filter (\<lambda>l. Weight ops l \<noteq> 0) (B @ A @ [l]) of
      [] \<Rightarrow> s | x # _ \<Rightarrow> s\<lparr>cursor := Some x\<rparr>)"
    using assms(1) rotate_map [of lanes "length A"]
    by (simp add: advanceCursor_def find_filter split: list.splits)
  moreover obtain x xs where x: "filter (\<lambda>l. Weight ops l \<noteq> 0) (B @ A @ [l]) = x # xs"
    using assms(2) by (cases "filter (\<lambda>l. Weight ops l \<noteq> 0) (B @ A @ [l])") auto
  moreover have "x = candidates ops lanes ! ((length (candidates ops A) + 1) mod length (candidates ops lanes))"
  proof (cases "candidates ops B")
    case Nil
    then show ?thesis using x assms by (cases "candidates ops A") auto
  next
    case (Cons b bs)
    then show ?thesis using x assms by (simp add: nth_append)
  qed
  ultimately show ?thesis by simp
qed

section \<open>One pick when every quantum covers the packet\<close>

definition costOf :: "'l lane_ops \<Rightarrow> u32 \<Rightarrow> 'l \<Rightarrow> nat" where
  "costOf ops c l = unat (Cost ops l c)"

definition quantumOf :: "'l lane_ops \<Rightarrow> u32 \<Rightarrow> 'l \<Rightarrow> nat" where
  "quantumOf ops q l = unat q * unat (Weight ops l)"

definition drr_charge :: "'l lane_ops \<Rightarrow> u32 \<Rightarrow> 'l list \<Rightarrow> nat \<Rightarrow> 'l drr \<Rightarrow> 'l drr" where
  "drr_charge ops c lanes idx s =
    (let l = lanes ! idx; s1 = item l s; k = ucast (Cost ops l c) :: u64;
         s2 = (if deficit s1 l < k then setDeficit l (deficit s1 l + ucast (baseQuantum s1) * ucast (Weight ops l)) s1 else s1);
         s3 = setDeficit l (deficit s2 l - k) s2
     in if deficit s3 l \<ge> k then s3\<lparr>cursor := Some l\<rparr> else advanceCursor ops lanes idx s3)"

lemma deficit_simps [simp]:
  "deficit (setDeficit l d s) = (deficit s)(l := d)" "deficit (item l s) = deficit s"
  "deficit (s\<lparr>cursor := x\<rparr>) = deficit s" "baseQuantum (setDeficit l d s) = baseQuantum s"
  "baseQuantum (item l s) = baseQuantum s" "cursor (setDeficit l d s) = cursor s" "cursor (item l s) = cursor s"
  by (auto simp: deficit_def setDeficit_def item_def fun_eq_iff split: option.splits)

lemma drr_scan_hit:
  assumes "\<forall>i \<in> set pre. Weight ops (lanes ! i) = 0" and w: "Weight ops (lanes ! idx) \<noteq> 0"
    and fits: "costOf ops c (lanes ! idx) \<le> quantumOf ops (baseQuantum s) (lanes ! idx)"
  shows "drr_scan ops lanes c (pre @ idx # post) n s = (drr_charge ops c lanes idx s, n + 1, Some (lanes ! idx))"
  using assms(1)
proof (induction pre)
  case Nil
  have "\<not> d + ucast (baseQuantum s) * ucast (Weight ops (lanes ! idx)) < (ucast (Cost ops (lanes ! idx) c) :: u64)"
    if "d < ucast (Cost ops (lanes ! idx) c)" for d
    using fits credit_exact [OF that] by (simp add: word_less_nat_alt costOf_def quantumOf_def)
  then show ?case using w by (simp add: drr_charge_def Let_def)
qed simp

lemma filter_nth_split:
  "i < length (filter P xs) \<Longrightarrow> \<exists>A B. xs = A @ filter P xs ! i # B \<and> length (filter P A) = i"
proof (induction xs arbitrary: i)
  case (Cons x xs)
  show ?case
  proof (cases "P x \<and> i = 0")
    case True
    then have "x # xs = [] @ filter P (x # xs) ! i # xs \<and> length (filter P []) = i" by simp
    then show ?thesis by blast
  next
    case False
    define j where "j = (if P x then i - 1 else i)"
    have "j < length (filter P xs)" "filter P (x # xs) ! i = filter P xs ! j"
      using Cons.prems False by (auto simp: j_def nth_Cons' split: if_splits)
    then obtain A B where "xs = A @ filter P (x # xs) ! i # B" "length (filter P A) = j"
      using Cons.IH by metis
    then show ?thesis using False by (intro exI [of _ "x # A"] exI [of _ B]) (auto simp: j_def)
  qed
qed simp

text \<open>
  The accounting invariant of a fixed lane set: the cursor stands at candidate \<open>p\<close> in round \<open>r\<close>;
  candidates before it have received \<open>r + 1\<close> quanta, those after it \<open>r\<close>, and what a lane has sent
  plus its deficit is exactly its credit.
\<close>

definition fair_state :: "'l lane_ops \<Rightarrow> 'l list \<Rightarrow> u32 \<Rightarrow> ('l \<Rightarrow> nat) \<Rightarrow> 'l drr \<Rightarrow> bool" where
  "fair_state ops lanes c sent s \<longleftrightarrow>
    (\<exists>p r. p < length (candidates ops lanes)
      \<and> (cursor s = Some (candidates ops lanes ! p) \<or> cursor s = None \<and> p = 0)
      \<and> (\<forall>i < length (candidates ops lanes).
          let l = candidates ops lanes ! i; d = unat (deficit s l);
              k = costOf ops c l; Q = quantumOf ops (baseQuantum s) l
          in if i = p then d < Q \<and> sent l + d = (if d < k then r else r + 1) * Q
             else d < k \<and> sent l + d = (if i < p then r + 1 else r) * Q))"

lemma Pick_charge:
  assumes dist: "distinct lanes" and p: "p < length (candidates ops lanes)"
    and cur: "cursor s = Some (candidates ops lanes ! p) \<or> cursor s = None \<and> p = 0"
    and fits: "costOf ops c (candidates ops lanes ! p) \<le> quantumOf ops (baseQuantum s) (candidates ops lanes ! p)"
  shows "\<exists>A B. lanes = A @ candidates ops lanes ! p # B \<and> length (candidates ops A) = p
    \<and> Pick ops s lanes c = (drr_charge ops c lanes (length A) s, Some (candidates ops lanes ! p))"
proof -
  let ?l = "candidates ops lanes ! p" and ?n = "length lanes"
  obtain A B where split: "lanes = A @ ?l # B" "length (candidates ops A) = p"
    using filter_nth_split [OF p] by blast
  have w: "Weight ops ?l \<noteq> 0" using nth_mem [OF p] by simp
  have at: "lanes ! length A = ?l" using split(1) by (metis nth_append_length)
  have n: "0 < ?n" using split(1) by (metis append_is_Nil_conv length_greater_0_conv list.distinct(1))
  have "\<exists>pre post. map (\<lambda>k. (startIndex lanes s + k) mod ?n) [0..<?n] = pre @ length A # post
      \<and> (\<forall>i \<in> set pre. Weight ops (lanes ! i) = 0)"
  proof (cases "cursor s")
    case (Some x)
    then have x: "x = ?l" using cur by simp
    have "?l \<notin> set A" using dist split(1) by (metis distinct_append disjoint_iff list.set_intros(1))
    then have "takeWhile (\<lambda>y. y \<noteq> ?l) lanes = A"
      by (subst split(1)) (subst takeWhile_append2, auto)
    moreover have "?l \<in> set lanes" using nth_mem [OF p] by simp
    ultimately have start: "startIndex lanes s = length A" using Some x by (simp add: startIndex_def)
    have "length A < ?n" by (subst split(1)) simp
    then have "map (\<lambda>k. (length A + k) mod ?n) [0..<?n] = [] @ length A # map (\<lambda>k. (length A + k) mod ?n) [1..<?n]"
      unfolding upt_conv_Cons [OF n] by simp
    moreover have "\<forall>i \<in> set []. Weight ops (lanes ! i) = 0" by simp
    ultimately show ?thesis unfolding start by blast
  next
    case None
    then have start: "startIndex lanes s = 0" and "p = 0" using cur by (simp_all add: startIndex_def)
    then have A: "candidates ops A = []" using split(2) by simp
    have len: "?n = length A + Suc (length B)" by (subst split(1)) simp
    have "map (\<lambda>k. (0 + k) mod ?n) [0..<?n] = [0..<?n]" by (rule map_idI) simp
    also have "\<dots> = [0..<length A] @ length A # [Suc (length A)..<?n]"
      unfolding len by (subst upt_add_eq_append) (simp_all add: upt_rec)
    finally show ?thesis
      unfolding start
    proof (intro exI conjI ballI)
      fix i assume "i \<in> set [0..<length A]"
      then have "lanes ! i = A ! i" "A ! i \<in> set A" by (subst split(1), auto simp: nth_append)
      then show "Weight ops (lanes ! i) = 0" using A by (auto simp: filter_empty_conv)
    qed
  qed
  then obtain pre post where rot: "map (\<lambda>k. (startIndex lanes s + k) mod ?n) [0..<?n] = pre @ length A # post"
      "\<forall>i \<in> set pre. Weight ops (lanes ! i) = 0" by blast
  have "Pick ops s lanes c = (drr_charge ops c lanes (length A) s, Some ?l)"
    using n drr_scan_hit [OF rot(2), of "length A" c s post 0] w fits
    by (simp add: Pick_def Let_def rot(1) at numeral_eq_Suc)
  then show ?thesis using split by blast
qed

lemma drr_charge_effect:
  assumes "lanes = A @ l # B" "Weight ops l \<noteq> 0"
    and fits: "costOf ops c l \<le> quantumOf ops (baseQuantum s) l"
  defines "d \<equiv> unat (deficit s l)" and "k \<equiv> costOf ops c l" and "Q \<equiv> quantumOf ops (baseQuantum s) l"
  defines "s' \<equiv> drr_charge ops c lanes (length A) s"
  shows "unat (deficit s' l) = (if d < k then d + Q else d) - k"
    and "l' \<noteq> l \<Longrightarrow> deficit s' l' = deficit s l'" and "baseQuantum s' = baseQuantum s"
    and "cursor s' = (if unat (deficit s' l) \<ge> k then Some l
          else Some (candidates ops lanes ! ((length (candidates ops A) + 1) mod length (candidates ops lanes))))"
proof -
  have at: "lanes ! length A = l" using assms(1) by simp
  note nxt = advanceCursor_next [of lanes A l B ops, OF assms(1,2)]
  have lt: "deficit s l < ucast (Cost ops l c) \<longleftrightarrow> d < k"
    by (simp add: d_def k_def costOf_def word_less_nat_alt)
  have k: "unat (ucast (Cost ops l c) :: u64) = k" by (simp add: k_def costOf_def)
  have credit: "unat (deficit s l + ucast (baseQuantum s) * ucast (Weight ops l)) = d + Q" if "d < k"
    using credit_exact [of "deficit s l" "Cost ops l c"] that lt by (simp add: d_def Q_def quantumOf_def)
  have sub: "unat (x - ucast (Cost ops l c)) = unat x - k" if "k \<le> unat x" for x :: u64
    using that k by (simp add: unat_sub word_le_nat_alt)
  show 1: "unat (deficit s' l) = (if d < k then d + Q else d) - k"
    using credit fits lt sub
    by (auto simp: s'_def drr_charge_def Let_def at nxt k_def Q_def d_def)
  show "l' \<noteq> l \<Longrightarrow> deficit s' l' = deficit s l'" and "baseQuantum s' = baseQuantum s"
    by (auto simp: s'_def drr_charge_def Let_def at nxt)
  show "cursor s' = (if unat (deficit s' l) \<ge> k then Some l
          else Some (candidates ops lanes ! ((length (candidates ops A) + 1) mod length (candidates ops lanes))))"
    by (auto simp: s'_def drr_charge_def Let_def at nxt k_def costOf_def word_le_nat_alt)
qed

section \<open>Fairness\<close>

lemma fair_state_step:
  assumes inv: "fair_state ops lanes c sent s" and dist: "distinct lanes"
    and fits: "\<forall>l \<in> set (candidates ops lanes).
      0 < costOf ops c l \<and> costOf ops c l \<le> quantumOf ops (baseQuantum s) l"
  shows "\<exists>s' l. Pick ops s lanes c = (s', Some l) \<and> baseQuantum s' = baseQuantum s
    \<and> fair_state ops lanes c (sent(l := sent l + costOf ops c l)) s'"
proof -
  let ?cs = "candidates ops lanes"
  let ?k = "costOf ops c" and ?Q = "quantumOf ops (baseQuantum s)" and ?d = "\<lambda>s l. unat (deficit s l)"
  obtain p r where p: "p < length ?cs"
    and cur: "cursor s = Some (?cs ! p) \<or> cursor s = None \<and> p = 0"
    and at: "?d s (?cs ! p) < ?Q (?cs ! p)"
      "sent (?cs ! p) + ?d s (?cs ! p) = (if ?d s (?cs ! p) < ?k (?cs ! p) then r else r + 1) * ?Q (?cs ! p)"
    and off: "\<And>i. i < length ?cs \<Longrightarrow> i \<noteq> p \<Longrightarrow> ?d s (?cs ! i) < ?k (?cs ! i) \<and>
        sent (?cs ! i) + ?d s (?cs ! i) = (if i < p then r + 1 else r) * ?Q (?cs ! i)"
    using inv unfolding fair_state_def Let_def by (elim exE conjE) (metis (no_types, lifting))
  define l where "l = ?cs ! p"
  have l: "l \<in> set ?cs" using nth_mem [OF p] by (simp only: l_def)
  then have w: "Weight ops l \<noteq> 0" and fl: "0 < ?k l" "?k l \<le> ?Q l" using fits by auto
  obtain A B where split: "lanes = A @ l # B" "length (candidates ops A) = p"
    and pick: "Pick ops s lanes c = (drr_charge ops c lanes (length A) s, Some l)"
    using Pick_charge [OF dist p cur] fl unfolding l_def by blast
  define s' where "s' = drr_charge ops c lanes (length A) s"
  note eff = drr_charge_effect [OF split(1) w fl(2), folded s'_def]
  let ?sent = "sent(l := sent l + ?k l)"
  have own: "?d s' l < ?Q l" "?sent l + ?d s' l = (r + 1) * ?Q l"
    using eff(1) at fl unfolding l_def [symmetric] by (auto split: if_splits)
  have other: "?cs ! i \<noteq> l" if "i < length ?cs" "i \<noteq> p" for i
    using nth_eq_iff_index_eq [OF distinct_filter [OF dist] that(1) p] that(2) by (auto simp: l_def)
  have rest: "?d s' (?cs ! i) < ?k (?cs ! i) \<and>
      ?sent (?cs ! i) + ?d s' (?cs ! i) = (if i < p then r + 1 else r) * ?Q (?cs ! i)"
    if "i < length ?cs" "i \<noteq> p" for i
    using off [OF that] eff(2) [OF other [OF that]] other [OF that] by simp
  have "fair_state ops lanes c ?sent s'"
  proof (cases "?d s' l \<ge> ?k l")
    case True
    then have "cursor s' = Some (?cs ! p)" using eff(4) by (simp add: l_def)
    then show ?thesis
      unfolding fair_state_def Let_def eff(3)
      by (intro exI [of _ p] exI [of _ r]) (use p own True rest in \<open>auto simp: l_def\<close>)
  next
    case False
    then have cur': "cursor s' = Some (?cs ! ((p + 1) mod length ?cs))" using eff(4) split(2) by simp
    show ?thesis
    proof (cases "p + 1 < length ?cs")
      case True
      have "?d s' (?cs ! (p + 1)) < ?Q (?cs ! (p + 1))"
        using rest [OF True] fits nth_mem [OF True] by fastforce
      then show ?thesis
        unfolding fair_state_def Let_def eff(3)
        by (intro exI [of _ "p + 1"] exI [of _ r])
           (use True cur' own False rest in \<open>auto simp: l_def less_Suc_eq\<close>)
    next
      case wrap: False
      then have m: "length ?cs = p + 1" using p by simp
      have lt: "?d s' (?cs ! i) < ?k (?cs ! i)" "?sent (?cs ! i) + ?d s' (?cs ! i) = (r + 1) * ?Q (?cs ! i)"
        if "i < length ?cs" for i
        using rest [OF that] own False that m by (cases "i = p", auto simp: l_def)+
      have "?d s' (?cs ! 0) < ?Q (?cs ! 0)"
        using lt(1) [of 0] fits nth_mem [of 0 ?cs] m by fastforce
      then show ?thesis
        unfolding fair_state_def Let_def eff(3)
        by (intro exI [of _ 0] exI [of _ "r + 1"]) (use m cur' lt in auto)
    qed
  qed
  then show ?thesis using pick eff(3) by (auto simp: s'_def)
qed

lemma fair_state_picks:
  assumes "fair_state ops lanes c sent s" "distinct lanes" "picks (Pick ops) lanes (replicate n c) s = (s', ls)"
    and "\<forall>l \<in> set (candidates ops lanes). 0 < costOf ops c l \<and> costOf ops c l \<le> quantumOf ops (baseQuantum s) l"
  shows "fair_state ops lanes c (\<lambda>l. sent l + count_list ls l * costOf ops c l) s' \<and> baseQuantum s' = baseQuantum s
    \<and> length ls = n"
  using assms
proof (induction n arbitrary: sent s ls)
  case (Suc n)
  obtain s1 l where 1: "Pick ops s lanes c = (s1, Some l)" "baseQuantum s1 = baseQuantum s"
      "fair_state ops lanes c (sent(l := sent l + costOf ops c l)) s1"
    using fair_state_step [OF Suc.prems(1,2,4)] by blast
  obtain s2 ls' where 2: "picks (Pick ops) lanes (replicate n c) s1 = (s2, ls')" by fastforce
  have ls: "ls = l # ls'" "s' = s2" using Suc.prems(3) 1(1) 2 by simp_all
  have "(\<lambda>x. (sent(l := sent l + costOf ops c l)) x + count_list ls' x * costOf ops c x) =
      (\<lambda>x. sent x + count_list ls x * costOf ops c x)"
    by (auto simp: ls(1) fun_eq_iff)
  then show ?case using Suc.IH [OF 1(3) Suc.prems(2), of ls'] 1(2) 2 Suc.prems(4) ls by simp
qed simp

lemma fair_state_bounds:
  assumes "fair_state ops lanes c sent s"
    and "\<forall>l \<in> set (candidates ops lanes). costOf ops c l \<le> quantumOf ops (baseQuantum s) l"
  shows "\<exists>r. \<forall>l \<in> set (candidates ops lanes).
    r * quantumOf ops (baseQuantum s) l < sent l + costOf ops c l \<and> sent l \<le> (r + 1) * quantumOf ops (baseQuantum s) l"
proof -
  let ?cs = "candidates ops lanes" and ?Q = "quantumOf ops (baseQuantum s)"
  obtain p r where at: "unat (deficit s (?cs ! p)) < ?Q (?cs ! p)"
      "sent (?cs ! p) + unat (deficit s (?cs ! p)) =
        (if unat (deficit s (?cs ! p)) < costOf ops c (?cs ! p) then r else r + 1) * ?Q (?cs ! p)"
    and off: "\<And>i. i < length ?cs \<Longrightarrow> i \<noteq> p \<Longrightarrow> unat (deficit s (?cs ! i)) < costOf ops c (?cs ! i) \<and>
        sent (?cs ! i) + unat (deficit s (?cs ! i)) = (if i < p then r + 1 else r) * ?Q (?cs ! i)"
    using assms(1) unfolding fair_state_def Let_def by (elim exE conjE) (metis (no_types, lifting))
  have "r * ?Q (?cs ! i) < sent (?cs ! i) + costOf ops c (?cs ! i) \<and> sent (?cs ! i) \<le> (r + 1) * ?Q (?cs ! i)"
    if "i < length ?cs" for i
    using at off [OF that] by (cases "i = p") (auto split: if_splits)
  then show ?thesis by (metis in_set_conv_nth)
qed

section \<open>Properties\<close>

text \<open>Pick returns a lane of non-zero weight whenever there is one, whatever the quantum, the
  cost and the deficits are, and only then. \<close>

theorem drr_work_conserving:
  "(\<exists>l. snd (Pick ops s lanes c) = Some l \<and> l \<in> set lanes \<and> Weight ops l \<noteq> 0)
    \<longleftrightarrow> (\<exists>l \<in> set lanes. Weight ops l \<noteq> 0)"
  using drr.pick_None_iff [of ops s lanes c] drr.pick_candidate [of ops s lanes c "fst (Pick ops s lanes c)"]
  by (cases "snd (Pick ops s lanes c)") (auto simp: filter_empty_conv prod_eq_iff)


lemma drr_rounds_num: "drr_rounds ops lanes c is (numeral r) s =
    (case drr_scan ops lanes c is 0 s of
       (s, _, Some l) \<Rightarrow> (s, Some l)
     | (s, n, None) \<Rightarrow> if n = 0 then (s, None) else drr_rounds ops lanes c is (pred_numeral r) s)"
  by (simp add: numeral_eq_Suc)

definition demo_ops :: "nat lane_ops" where
  "demo_ops = \<lparr>Weight = (\<lambda>l. if l = 0 then 2 else if l = 2 then 1 else 0), Cost = (\<lambda>_ c. c)\<rparr>"

definition demo_state :: "u64 \<Rightarrow> nat drr" where
  "demo_state d = \<lparr>items = [0 \<mapsto> d], baseQuantum = 2000, cursor = Some 0\<rparr>"

lemma demo_steps:
  "Pick demo_ops (New 2000) [0, 2, 3] 1000 = (demo_state 3000, Some 0)"
  "Pick demo_ops (demo_state 3000) [0, 2, 3] 1000 = (demo_state 2000, Some 0)"
  "Pick demo_ops (demo_state 2000) [0, 2, 3] 1000 = (demo_state 1000, Some 0)"
  "\<exists>s. Pick demo_ops (demo_state 1000) [0, 2, 3] 1000 = (s, Some 0)"
  by (simp add: Pick_def startIndex_def New_def drr_rounds_num demo_state_def,
      simp add: Let_def demo_ops_def item_def deficit_def setDeficit_def)+


end
