(* ===== verification/Cfs.thy ===== *)
theory Cfs
  imports Schedule
begin

text \<open>
  \<open>internal/schedule/cfs/cfs.go\<close>: completely fair scheduling by virtual runtime. \<open>items\<close> maps a lane
  to its \<open>item\<close>; \<open>cfs_scan\<close> is the loop of \<open>Pick\<close> over the lanes, \<open>picked\<close> its best lane so far.
\<close>

section \<open>The strategy\<close>

record item =
  vruntime :: u64
  lastSeen :: u64

record 'l cfs =
  items :: "'l \<rightharpoonup> item"
  minVR :: u64
  round_no :: u64

abbreviation (input) defaultScale :: u64 where "defaultScale \<equiv> 1024"

definition New :: "'l cfs" where
  "New = \<lparr>items = Map.empty, minVR = 0, round_no = 0\<rparr>"

definition getItem :: "'l cfs \<Rightarrow> 'l \<Rightarrow> item" where
  "getItem s l = (case items s l of None \<Rightarrow> \<lparr>vruntime = minVR s, lastSeen = 0\<rparr> | Some it \<Rightarrow> it)"

definition touch :: "'l \<Rightarrow> 'l cfs \<Rightarrow> 'l cfs" where
  "touch l s =
    (let it = getItem s l;
         it = (if lastSeen it \<noteq> 0 \<and> lastSeen it + 1 < round_no s \<and> vruntime it < minVR s
               then it\<lparr>vruntime := minVR s\<rparr> else it)
     in s\<lparr>items := (items s)(l \<mapsto> it\<lparr>lastSeen := round_no s\<rparr>)\<rparr>)"

fun cfs_scan :: "'l lane_ops \<Rightarrow> 'l list \<Rightarrow> 'l cfs \<Rightarrow> 'l option \<Rightarrow> 'l cfs \<times> 'l option" where
  "cfs_scan ops [] s picked = (s, picked)"
| "cfs_scan ops (l # lanes) s picked =
    (if Weight ops l = 0 then cfs_scan ops lanes s picked
     else
       let s = touch l s
       in cfs_scan ops lanes s
            (case picked of None \<Rightarrow> Some l
             | Some p \<Rightarrow> if vruntime (getItem s l) < vruntime (getItem s p) then Some l else Some p))"

definition rebase :: "u64 \<Rightarrow> 'l cfs \<Rightarrow> 'l cfs" where
  "rebase base s =
    (if base = 0 then s
     else s\<lparr>items := (\<lambda>l. map_option (\<lambda>it. it\<lparr>vruntime :=
              if vruntime it \<ge> base then vruntime it - base else 0\<rparr>) (items s l)),
            minVR := if minVR s \<ge> base then minVR s - base else 0\<rparr>)"

definition addCost :: "'l \<Rightarrow> u32 \<Rightarrow> u32 \<Rightarrow> 'l cfs \<Rightarrow> 'l cfs" where
  "addCost l cost weight s =
    (if cost = 0 \<or> weight = 0 then s
     else
       let delta = ucast cost * defaultScale div ucast weight;
           s = (if (- 1) - vruntime (getItem s l) < delta then rebase (minVR s) s else s);
           it = getItem s l
       in s\<lparr>items := (items s)(l \<mapsto> it\<lparr>vruntime := vruntime it + delta\<rparr>)\<rparr>)"

definition minCandidateVR :: "'l lane_ops \<Rightarrow> 'l list \<Rightarrow> 'l cfs \<Rightarrow> u64" where
  "minCandidateVR ops lanes s =
    (case fold (\<lambda>l m. case items s l of None \<Rightarrow> m
                | Some it \<Rightarrow> if Weight ops l = 0 then m
                    else (case m of None \<Rightarrow> Some (vruntime it)
                          | Some v \<Rightarrow> if vruntime it < v then Some (vruntime it) else Some v)) lanes None of
       None \<Rightarrow> minVR s | Some v \<Rightarrow> v)"

definition Pick :: "'l lane_ops \<Rightarrow> 'l cfs \<Rightarrow> 'l list \<Rightarrow> u32 \<Rightarrow> 'l cfs \<times> 'l option" where
  "Pick ops s lanes cost =
    (if lanes = [] then (s, None)
     else
       let s = s\<lparr>round_no := round_no s + 1\<rparr> in
       case cfs_scan ops lanes s None of
         (s, None) \<Rightarrow> (s, None)
       | (s, Some l) \<Rightarrow>
           let s = addCost l (Cost ops l cost) (Weight ops l) s
           in (s\<lparr>minVR := minCandidateVR ops lanes s\<rparr>, Some l))"

section \<open>Every pick is a candidate, and a candidate is always found\<close>

lemma cfs_scan_candidate:
  "cfs_scan ops lanes s p = (s', Some l) \<Longrightarrow> p = Some l \<or> l \<in> set (candidates ops lanes)"
proof (induction ops lanes s p rule: cfs_scan.induct)
  case (2 ops l lanes s picked)
  then show ?case by (cases "Weight ops l = 0"; cases picked) (auto simp: Let_def split: if_splits)
qed simp

lemma cfs_scan_None: "cfs_scan ops lanes s p = (s', None) \<Longrightarrow> p = None \<and> candidates ops lanes = []"
proof (induction ops lanes s p rule: cfs_scan.induct)
  case (2 ops l lanes s picked)
  then show ?case by (cases "Weight ops l = 0"; cases picked) (auto simp: Let_def split: if_splits)
qed simp

interpretation cfs: strategy "Pick ops" ops for ops
proof
  fix s :: "'a cfs" and lanes c s' l
  assume "Pick ops s lanes c = (s', Some l)"
  then show "l \<in> set (candidates ops lanes)"
    by (auto simp: Pick_def Let_def split: if_splits prod.splits option.splits dest: cfs_scan_candidate)
next
  fix s :: "'a cfs" and lanes c s'
  assume "Pick ops s lanes c = (s', None)"
  then show "candidates ops lanes = []"
    by (auto simp: Pick_def Let_def split: if_splits prod.splits option.splits dest: cfs_scan_None)
qed

section \<open>Virtual runtimes stay together\<close>

text \<open>The runtime a lane has or would start with.\<close>

definition vr :: "'l cfs \<Rightarrow> 'l \<Rightarrow> nat" where
  "vr s l = unat (vruntime (getItem s l))"

definition deltaOf :: "'l lane_ops \<Rightarrow> u32 \<Rightarrow> 'l \<Rightarrow> nat" where
  "deltaOf ops c l = unat (Cost ops l c) * 1024 div unat (Weight ops l)"

text \<open>
  All candidates lie within \<open>D\<close> above \<open>minVR\<close>, and up to a common offset a candidate's runtime is
  the service it has been charged for.
\<close>

definition level :: "'l set \<Rightarrow> nat \<Rightarrow> ('l \<Rightarrow> nat) \<Rightarrow> 'l cfs \<Rightarrow> bool" where
  "level L D svc s \<longleftrightarrow> (\<exists>off. \<forall>l \<in> L. vr s l + off = svc l \<and> unat (minVR s) \<le> vr s l \<and> vr s l \<le> unat (minVR s) + D)"

lemma touch_level:
  assumes "\<forall>l \<in> L. unat (minVR s) \<le> vr s l" "l \<in> L"
  shows "vr (touch l s) = vr s" and "minVR (touch l s) = minVR s"
    and "dom (items (touch l s)) = insert l (dom (items s))"
proof -
  have "\<not> vruntime (getItem s l) < minVR s"
    using assms by (simp add: vr_def word_less_nat_alt linorder_not_less)
  then show "vr (touch l s) = vr s"
    by (auto simp: fun_eq_iff vr_def touch_def Let_def getItem_def split: option.splits)
qed (simp_all add: touch_def Let_def)

lemma cfs_scan_level:
  assumes "cfs_scan ops lanes s p = (s', q)" "\<forall>l \<in> L. unat (minVR s) \<le> vr s l"
    and "set (candidates ops lanes) \<subseteq> L"
  shows "vr s' = vr s \<and> minVR s' = minVR s
    \<and> dom (items s') = set (candidates ops lanes) \<union> dom (items s)
    \<and> (\<forall>m. q = Some m \<longrightarrow> (\<forall>l \<in> set (candidates ops lanes) \<union> set_option p. vr s m \<le> vr s l))"
  using assms
proof (induction ops lanes s p rule: cfs_scan.induct)
  case (2 ops l lanes s p)
  show ?case
  proof (cases "Weight ops l = 0")
    case False
    then have l: "l \<in> L" using 2(5) by simp
    note t = touch_level [OF 2(4) l]
    define p' where "p' = (case p of None \<Rightarrow> Some l
      | Some x \<Rightarrow> if vruntime (getItem (touch l s) l) < vruntime (getItem (touch l s) x) then Some l else Some x)"
    have scan: "cfs_scan ops lanes (touch l s) p' = (s', q)" using 2(3) False by (simp add: Let_def p'_def)
    have IH: "vr s' = vr (touch l s) \<and> minVR s' = minVR (touch l s)
        \<and> dom (items s') = set (candidates ops lanes) \<union> dom (items (touch l s))
        \<and> (\<forall>m. q = Some m \<longrightarrow> (\<forall>x \<in> set (candidates ops lanes) \<union> set_option p'. vr (touch l s) m \<le> vr (touch l s) x))"
      using 2(2) [OF False refl scan [unfolded p'_def]] 2(4,5) t False by (auto simp: p'_def)
    have best: "\<exists>x \<in> set_option p'. vr s x \<le> vr s y" if "y \<in> insert l (set_option p)" for y
    proof -
      have "vruntime (getItem (touch l s) x) < vruntime (getItem (touch l s) z) \<longleftrightarrow> vr s x < vr s z" for x z
        using fun_cong [OF t(1), of x] fun_cong [OF t(1), of z] by (simp add: vr_def word_less_nat_alt)
      then show ?thesis using that by (cases p) (auto simp: p'_def)
    qed
    have "vr s m \<le> vr s y" if q: "q = Some m" and y: "y \<in> set (candidates ops (l # lanes)) \<union> set_option p" for m y
    proof (cases "y \<in> set (candidates ops lanes)")
      case True
      then show ?thesis using IH q t(1) by auto
    next
      case no: False
      then obtain x where "x \<in> set_option p'" "vr s x \<le> vr s y" using best y False by auto
      then show ?thesis using IH q t(1) by (metis UnCI order_trans)
    qed
    then show ?thesis using IH t False by auto
  qed (use 2 in simp)
qed simp

lemma minCandidateVR_min:
  assumes "set (candidates ops lanes) \<subseteq> dom (items s)" "candidates ops lanes \<noteq> []"
  shows "\<exists>m \<in> set (candidates ops lanes). unat (minCandidateVR ops lanes s) = vr s m"
    and "l \<in> set (candidates ops lanes) \<Longrightarrow> unat (minCandidateVR ops lanes s) \<le> vr s l"
proof -
  let ?f = "\<lambda>l m. case items s l of None \<Rightarrow> m
    | Some it \<Rightarrow> if Weight ops l = 0 then m
        else (case m of None \<Rightarrow> Some (vruntime it)
              | Some v \<Rightarrow> if vruntime it < v then Some (vruntime it) else Some v)"
  have *: "set (candidates ops ls) \<subseteq> dom (items s) \<Longrightarrow>
      (case fold ?f ls m of None \<Rightarrow> m = None \<and> candidates ops ls = []
       | Some v \<Rightarrow> (m = Some v \<or> (\<exists>x \<in> set (candidates ops ls). unat v = vr s x))
           \<and> (\<forall>w. m = Some w \<longrightarrow> unat v \<le> unat w) \<and> (\<forall>x \<in> set (candidates ops ls). unat v \<le> vr s x))" for ls m
  proof (induction ls arbitrary: m)
    case (Cons x ls)
    show ?case
    proof (cases "Weight ops x = 0")
      case False
      then obtain it where it: "items s x = Some it" using Cons.prems by auto
      then have v: "vr s x = unat (vruntime it)" by (simp add: vr_def getItem_def)
      define m' where "m' = (case m of None \<Rightarrow> Some (vruntime it)
              | Some v \<Rightarrow> if vruntime it < v then Some (vruntime it) else Some v)"
      have "?f x m = m'" using it False by (simp add: m'_def)
      moreover have "m' \<noteq> None" by (simp add: m'_def split: option.splits)
      moreover have "\<forall>w. m' = Some w \<longrightarrow> unat w \<le> vr s x \<and> (\<forall>u. m = Some u \<longrightarrow> unat w \<le> unat u)
          \<and> (m = Some w \<or> unat w = vr s x)"
        using v by (auto simp: m'_def word_less_nat_alt split: option.splits)
      ultimately show ?thesis
        using Cons.IH [of m'] Cons.prems False by (auto split: option.splits intro: order_trans)
    next
      case True
      then have "?f x m = m" by (simp split: option.split)
      then show ?thesis using True Cons.IH [of m] Cons.prems by (simp split: option.splits)
    qed
  qed (simp split: option.split)
  obtain v where v: "fold ?f lanes None = Some v" "minCandidateVR ops lanes s = v"
    using * [OF assms(1), of None] assms(2) by (auto simp: minCandidateVR_def split: option.splits)
  show "\<exists>m \<in> set (candidates ops lanes). unat (minCandidateVR ops lanes s) = vr s m"
    "l \<in> set (candidates ops lanes) \<Longrightarrow> unat (minCandidateVR ops lanes s) \<le> vr s l"
    using * [OF assms(1), of None] v by auto
qed

lemma delta_word:
  "unat (ucast (c :: u32) * 1024 div ucast (w :: u32) :: u64) = unat c * 1024 div unat w"
proof -
  have "unat c * 1024 < 2 ^ 64" using unsigned_less [of c, where 'a = nat] by simp
  moreover from this have "unat c * 1024 div unat w < 2 ^ 64" by (rule le_less_trans [OF div_le_dividend])
  ultimately show ?thesis by (simp add: unat_word_ariths unat_div)
qed

lemma room:
  "(- 1) - v < (d :: u64) \<longleftrightarrow> 2 ^ 64 \<le> unat v + unat d"
proof -
  have "unat ((- 1) - v) = 2 ^ 64 - 1 - unat v"
    by (simp add: unat_sub unsigned_minus_1_eq_mask mask_eq_exp_minus_1)
  then show ?thesis using unsigned_less [of v, where 'a = nat] by (simp add: word_less_nat_alt) linarith
qed

lemma rebase_shift:
  assumes "\<forall>x \<in> L. unat (minVR s) \<le> vr s x" "L \<subseteq> dom (items s)" "x \<in> L"
  shows "vr (rebase (minVR s) s) x = vr s x - unat (minVR s)"
proof -
  obtain it where "items s x = Some it" using assms by auto
  then show ?thesis
    using assms(1,3) by (auto simp: rebase_def vr_def getItem_def word_le_nat_alt unat_sub)
qed

lemma dom_rebase [simp]: "dom (items (rebase b s)) = dom (items s)"
  by (auto simp: rebase_def)

lemma addCost_level:
  assumes lev: "\<forall>x \<in> L. vr s x + off = svc x \<and> unat (minVR s) \<le> vr s x \<and> vr s x \<le> unat (minVR s) + D"
    and l: "l \<in> L" and dom: "L \<subseteq> dom (items s)" and small: "\<forall>x \<in> L. vr s l \<le> vr s x"
    and D: "deltaOf ops c l \<le> D" "2 * D < 2 ^ 64" and w: "Weight ops l \<noteq> 0"
  defines "s' \<equiv> addCost l (Cost ops l c) (Weight ops l) s"
  shows "\<exists>off. \<forall>x \<in> L. vr s' x + off = (svc(l := svc l + deltaOf ops c l)) x"
    and "x \<in> L \<Longrightarrow> y \<in> L \<Longrightarrow> vr s' x \<le> vr s' y + D" and "dom (items s') = dom (items s)"
proof -
  let ?d = "deltaOf ops c l"
  define full where "full \<longleftrightarrow> 2 ^ 64 \<le> vr s l + ?d"
  define b where "b = (if full then unat (minVR s) else 0)"
  define s1 where "s1 = (if full then rebase (minVR s) s else s)"
  have 1: "vr s1 x + b = vr s x" if "x \<in> L" for x
    using rebase_shift [of L s x] lev dom that by (auto simp: s1_def b_def)
  have dom1: "dom (items s1) = dom (items s)" by (simp add: s1_def)
  have fits: "vr s1 l + ?d < 2 ^ 64"
    using 1 [OF l] lev l D by (auto simp: b_def full_def split: if_splits)
  have vr': "vr s' x = (if x = l then vr s1 l + ?d else vr s1 x)" if "x \<in> L" for x
  proof (cases "Cost ops l c = 0")
    case True
    then have "?d = 0" "s' = s" by (simp_all add: deltaOf_def s'_def addCost_def)
    moreover have "\<not> full" using True unsigned_less [of "vruntime (getItem s l)", where 'a = nat]
      by (simp add: full_def deltaOf_def vr_def)
    ultimately show ?thesis by (simp add: s1_def)
  next
    case False
    let ?delta = "ucast (Cost ops l c) * defaultScale div ucast (Weight ops l) :: u64"
    have delta: "unat ?delta = ?d" by (simp add: delta_word deltaOf_def)
    have "(- 1) - vruntime (getItem s l) < ?delta \<longleftrightarrow> full"
      unfolding room delta full_def vr_def ..
    then have s': "s' = s1\<lparr>items := (items s1)(l \<mapsto> getItem s1 l\<lparr>vruntime := vruntime (getItem s1 l) + ?delta\<rparr>)\<rparr>"
      using False w by (simp add: s'_def addCost_def Let_def s1_def)
    have "unat (vruntime (getItem s1 l) + ?delta) = vr s1 l + ?d"
      using fits delta by (simp add: unat_word_ariths vr_def)
    moreover have "\<exists>it. items s1 x = Some it" using that dom dom1 by auto
    ultimately show ?thesis unfolding s' by (auto simp: vr_def getItem_def)
  qed
  show "dom (items s') = dom (items s)"
    using dom l by (auto simp: s'_def addCost_def Let_def dom_rebase [unfolded dom_def, simplified])
  show "\<exists>off. \<forall>x \<in> L. vr s' x + off = (svc(l := svc l + ?d)) x"
  proof (intro exI [of _ "off + b"] ballI)
    fix x assume x: "x \<in> L"
    then show "vr s' x + (off + b) = (svc(l := svc l + ?d)) x"
      using 1 [OF x] vr' [OF x] lev by auto
  qed
  show "vr s' x \<le> vr s' y + D" if "x \<in> L" "y \<in> L"
  proof -
    have "vr s1 l \<le> vr s1 y" using 1 [OF that(2)] 1 [OF l] small that(2) by fastforce
    moreover have "vr s1 x \<le> vr s1 l + D" using 1 [OF that(1)] 1 [OF l] bspec [OF lev that(1)] bspec [OF lev l] by linarith
    ultimately show ?thesis using vr' [OF that(1)] vr' [OF that(2)] D(1) by simp
  qed
qed

lemma Pick_level:
  assumes lev: "level (set (candidates ops lanes)) D svc s" and ne: "candidates ops lanes \<noteq> []"
    and D: "\<forall>l \<in> set (candidates ops lanes). deltaOf ops c l \<le> D" "2 * D < 2 ^ 64"
  shows "\<exists>s' l. Pick ops s lanes c = (s', Some l) \<and> l \<in> set (candidates ops lanes)
    \<and> (\<forall>x \<in> set (candidates ops lanes). vr s l \<le> vr s x)
    \<and> level (set (candidates ops lanes)) D (svc(l := svc l + deltaOf ops c l)) s'"
proof -
  let ?L = "set (candidates ops lanes)"
  define s0 where "s0 = s\<lparr>round_no := round_no s + 1\<rparr>"
  have vr0: "vr s0 = vr s" "minVR s0 = minVR s" by (auto simp: s0_def vr_def getItem_def fun_eq_iff split: option.split)
  obtain off where lev': "\<forall>x \<in> ?L. vr s x + off = svc x \<and> unat (minVR s) \<le> vr s x \<and> vr s x \<le> unat (minVR s) + D"
    using lev unfolding level_def by blast
  obtain s1 q where scan: "cfs_scan ops lanes s0 None = (s1, q)" by fastforce
  have sc: "vr s1 = vr s" "minVR s1 = minVR s" "?L \<subseteq> dom (items s1)"
      "\<forall>m. q = Some m \<longrightarrow> (\<forall>x \<in> ?L. vr s m \<le> vr s x)"
    using cfs_scan_level [OF scan, of ?L] lev' vr0 by auto
  obtain l where l: "q = Some l" using cfs_scan_None [of ops lanes s0 None s1] scan ne by (cases q) auto
  have mem: "l \<in> ?L" using cfs_scan_candidate [of ops lanes s0 None s1 l] scan l by simp
  then have w: "Weight ops l \<noteq> 0" by simp
  define s2 where "s2 = addCost l (Cost ops l c) (Weight ops l) s1"
  define s3 where "s3 = s2\<lparr>minVR := minCandidateVR ops lanes s2\<rparr>"
  have small: "\<forall>x \<in> ?L. vr s l \<le> vr s x" using sc(4) l by blast
  note add = addCost_level [of ?L s1 off svc D l ops c, unfolded sc, OF lev' mem sc(3) small bspec [OF D(1) mem] D(2) w,
      folded s2_def]
  have dom2: "?L \<subseteq> dom (items s2)" using add(3) sc(3) by simp
  note mins = minCandidateVR_min [OF dom2 ne]
  have vr3: "vr s3 x = vr s2 x" if "x \<in> ?L" for x
    using that dom2 by (auto simp: s3_def vr_def getItem_def)
  obtain m where m: "m \<in> ?L" "unat (minVR s3) = vr s2 m" using mins(1) by (auto simp: s3_def)
  have "level ?L D (svc(l := svc l + deltaOf ops c l)) s3"
    unfolding level_def using add(1)
  proof (elim exE, intro exI ballI conjI)
    fix off' x assume "\<forall>x \<in> ?L. vr s2 x + off' = (svc(l := svc l + deltaOf ops c l)) x" and x: "x \<in> ?L"
    then show "vr s3 x + off' = (svc(l := svc l + deltaOf ops c l)) x" using vr3 [OF x] by simp
    show "unat (minVR s3) \<le> vr s3 x" using mins(2) [OF x] vr3 [OF x] by (simp add: s3_def)
    show "vr s3 x \<le> unat (minVR s3) + D" using add(2) [OF x m(1)] m(2) vr3 [OF x] by simp
  qed
  moreover have "Pick ops s lanes c = (s3, Some l)"
    using scan l ne by (auto simp: Pick_def Let_def s0_def s2_def s3_def)
  ultimately show ?thesis using mem sc(4) l by blast
qed

definition service :: "'l lane_ops \<Rightarrow> u32 list \<Rightarrow> 'l list \<Rightarrow> 'l \<Rightarrow> nat" where
  "service ops cs ls l = (\<Sum>(c, l') \<leftarrow> zip cs ls. if l' = l then deltaOf ops c l else 0)"

lemma picks_level:
  assumes "level (set (candidates ops lanes)) D svc s" "candidates ops lanes \<noteq> []"
    and "\<forall>c \<in> set cs. \<forall>l \<in> set (candidates ops lanes). deltaOf ops c l \<le> D" "2 * D < 2 ^ 64"
    and "picks (Pick ops) lanes cs s = (s', ls)"
  shows "length ls = length cs \<and> level (set (candidates ops lanes)) D (\<lambda>l. svc l + service ops cs ls l) s'"
  using assms
proof (induction cs arbitrary: svc s ls)
  case (Cons c cs)
  obtain s1 l where 1: "Pick ops s lanes c = (s1, Some l)"
      "level (set (candidates ops lanes)) D (svc(l := svc l + deltaOf ops c l)) s1"
    using Pick_level [OF Cons.prems(1,2), of c] Cons.prems(3,4) by auto
  obtain ls' where 2: "picks (Pick ops) lanes cs s1 = (s', ls')" "ls = l # ls'"
    using Cons.prems(5) 1(1) by (auto split: prod.splits)
  have "(\<lambda>x. (svc(l := svc l + deltaOf ops c l)) x + service ops cs ls' x) = (\<lambda>x. svc x + service ops (c # cs) ls x)"
    by (auto simp: fun_eq_iff service_def 2(2))
  then show ?case using Cons.IH [OF 1(2) Cons.prems(2) _ Cons.prems(4) 2(1)] Cons.prems(3) 2(2) by simp
qed (simp add: service_def)

lemma deltaOf_le: "deltaOf ops c l \<le> 2 ^ 42"
proof -
  have "deltaOf ops c l \<le> unat (Cost ops l c) * 1024" unfolding deltaOf_def by (rule div_le_dividend)
  then show ?thesis using unsigned_less [of "Cost ops l c", where 'a = nat] by simp
qed

section \<open>Properties\<close>

text \<open>Pick returns a lane of non-zero weight whenever there is one, and only then. \<close>

theorem cfs_work_conserving:
  "(\<exists>l. snd (Pick ops s lanes c) = Some l \<and> l \<in> set lanes \<and> Weight ops l \<noteq> 0)
    \<longleftrightarrow> (\<exists>l \<in> set lanes. Weight ops l \<noteq> 0)"
  using cfs.pick_None_iff [of ops s lanes c] cfs.pick_candidate [of ops s lanes c "fst (Pick ops s lanes c)"]
  by (cases "snd (Pick ops s lanes c)") (auto simp: filter_empty_conv prod_eq_iff)

text \<open> C8: Weighted fairness. From a fresh strategy and over a fixed lane set, after any sequence of
  picks the service (cost scaled by weight) charged to two lanes of non-zero weight differs by at most
  the largest single charge, also across the rebasing that keeps the 64-bit runtimes from overflowing. \<close>

theorem cfs_fair:
  assumes "picks (Pick ops) lanes cs New = (s, ls)"
    and "\<forall>c \<in> set cs. \<forall>l \<in> set (candidates ops lanes). deltaOf ops c l \<le> D"
    and "l \<in> set (candidates ops lanes)" "l' \<in> set (candidates ops lanes)"
  shows "length ls = length cs \<and> service ops cs ls l \<le> service ops cs ls l' + D"
proof -
  let ?D = "min D (2 ^ 42)"
  have init: "level (set (candidates ops lanes)) ?D (\<lambda>_. 0) New"
    by (simp add: level_def New_def vr_def getItem_def)
  have "candidates ops lanes \<noteq> []" using assms(3) by (auto simp: filter_empty_conv)
  moreover have "\<forall>c \<in> set cs. \<forall>l \<in> set (candidates ops lanes). deltaOf ops c l \<le> ?D"
    using assms(2) deltaOf_le by auto
  ultimately have "length ls = length cs" "level (set (candidates ops lanes)) ?D (service ops cs ls) s"
    using picks_level [OF init _ _ _ assms(1)] by auto
  moreover from this(2) obtain off m where "vr s l + off = service ops cs ls l" "vr s l' + off = service ops cs ls l'"
      "m \<le> vr s l'" "vr s l \<le> m + ?D"
    using assms(3,4) unfolding level_def by metis
  ultimately show ?thesis by simp
qed

definition demo_ops :: "nat lane_ops" where
  "demo_ops = \<lparr>Weight = (\<lambda>l. if l = 0 then 2 else if l = 2 then 1 else 0), Cost = (\<lambda>_ c. c)\<rparr>"

lemma cfs_fair_witness:
  "\<exists>s ls. picks (Pick demo_ops) [0, 2, 3] [1000, 500, 1500] New = (s, ls)
    \<and> length ls = 3 \<and> service demo_ops [1000, 500, 1500] ls 0 \<le> service demo_ops [1000, 500, 1500] ls 2 + 1536000"
proof -
  obtain s ls where run: "picks (Pick demo_ops) [0, 2, 3] [1000, 500, 1500] New = (s, ls)" by fastforce
  have "length ls = length [1000, 500, 1500 :: u32] \<and>
      service demo_ops [1000, 500, 1500] ls 0 \<le> service demo_ops [1000, 500, 1500] ls 2 + 1536000"
    by (rule cfs_fair [OF run]) (auto simp: demo_ops_def deltaOf_def)
  then show ?thesis using run by auto
qed

end
