(* ===== verification/Dedupe.thy ===== *)
theory Dedupe
  imports Prelude
begin

text \<open>
  \<open>internal/tunnel/v2/recv/dedupe.go\<close>: the sliding window that recognises DATA identities already
  emitted. The bit set of \<open>github.com/bits-and-blooms/bitset\<close> is the operation record \<open>bitset\<close> with
  the laws of the locale \<open>bitset_laws\<close>; the naturals with their bit operations are an instance.
\<close>

section \<open>Bit sets\<close>

record 'b bitset =
  bs_new :: "nat \<Rightarrow> 'b"
  bs_test :: "'b \<Rightarrow> nat \<Rightarrow> bool"
  bs_set :: "'b \<Rightarrow> nat \<Rightarrow> 'b"
  bs_clear :: "'b \<Rightarrow> nat \<Rightarrow> 'b"
  bs_clear_all :: "'b \<Rightarrow> 'b"

definition nat_bitset :: "nat bitset" where
  "nat_bitset = \<lparr>bs_new = (\<lambda>_. 0), bs_test = bit, bs_set = (\<lambda>b i. set_bit i b),
     bs_clear = (\<lambda>b i. unset_bit i b), bs_clear_all = (\<lambda>_. 0)\<rparr>"

section \<open>The window\<close>

record 'b dataIDDedupe =
  bset :: 'b
  span :: u32
  base :: u32
  inited :: bool

abbreviation (input) defaultDataIDDedupeWindow :: u32 where "defaultDataIDDedupeWindow \<equiv> 65536"
abbreviation (input) dedupeBehindThreshold :: u32 where "dedupeBehindThreshold \<equiv> 2147483648"

definition newDataIDDedupe :: "'b bitset \<Rightarrow> u32 \<Rightarrow> 'b dataIDDedupe" where
  "newDataIDDedupe B n =
    (let n = (if n = 0 then defaultDataIDDedupeWindow else n)
     in \<lparr>bset = bs_new B (unat n), span = n, base = 0, inited = False\<rparr>)"

function clearRange :: "'b bitset \<Rightarrow> u32 \<Rightarrow> u32 \<Rightarrow> u32 \<Rightarrow> 'b \<Rightarrow> 'b" where
  "clearRange B n e newBase b =
    (if e = newBase then b else clearRange B n (e + 1) newBase (bs_clear B b (unat (e mod n))))"
  by pat_completeness auto

lemma step_closer: "e \<noteq> nb \<Longrightarrow> unat (nb - e) = Suc (unat (nb - (e + 1)))" for e nb :: u32
proof -
  assume "e \<noteq> nb"
  then have "nb - e \<noteq> 0" by simp
  then have "unat (nb - e) = Suc (unat (nb - e - 1))"
    by (metis Suc_pred' unat_gt_0 unat_minus_one)
  then show ?thesis by (simp add: diff_diff_eq)
qed

termination clearRange
  by (relation "measure (\<lambda>(B, n, e, nb, b). unat (nb - e))") (simp_all add: step_closer)

declare clearRange.simps [simp del]

definition evict :: "'b bitset \<Rightarrow> u32 \<Rightarrow> 'b dataIDDedupe \<Rightarrow> 'b dataIDDedupe" where
  "evict B newBase d =
    (if newBase - base d \<ge> span d then d\<lparr>bset := bs_clear_all B (bset d)\<rparr>
     else d\<lparr>bset := clearRange B (span d) (base d) newBase (bset d)\<rparr>)"

definition mark :: "'b bitset \<Rightarrow> 'b dataIDDedupe \<Rightarrow> u32 \<Rightarrow> 'b dataIDDedupe \<times> bool" where
  "mark B d dataID =
    (let d = (if \<not> inited d then d\<lparr>base := dataID - (span d - 1), inited := True\<rparr> else d);
         delta = dataID - base d;
         test_and_set = (\<lambda>d. let pos = unat (dataID mod span d) in
           if bs_test B (bset d) pos then (d, False) else (d\<lparr>bset := bs_set B (bset d) pos\<rparr>, True))
     in if delta < span d then test_and_set d
        else if delta \<ge> dedupeBehindThreshold then (d, False)
        else (let newBase = dataID - span d + 1; d = evict B newBase d in test_and_set (d\<lparr>base := newBase\<rparr>)))"

definition seen :: "'b bitset \<Rightarrow> 'b dataIDDedupe option \<Rightarrow> u32 \<Rightarrow> bool" where
  "seen B dp dataID =
    (case dp of None \<Rightarrow> False
     | Some d \<Rightarrow> inited d \<and> dataID - base d < span d \<and> bs_test B (bset d) (unat (dataID mod span d)))"

fun marks :: "'b bitset \<Rightarrow> 'b dataIDDedupe \<Rightarrow> u32 list \<Rightarrow> 'b dataIDDedupe \<times> bool list" where
  "marks B d [] = (d, [])"
| "marks B d (i # is) = (case mark B d i of (d, r) \<Rightarrow> case marks B d is of (d, rs) \<Rightarrow> (d, r # rs))"

section \<open>Identities without wrap-around\<close>

text \<open>
  \<open>tracks d P\<close>: the window reflects the unwrapped identities \<open>P\<close> marked so far. Its top is their
  maximum, and an identity of the window has its bit set exactly when it is in \<open>P\<close>.
\<close>

definition tracks :: "'b bitset \<Rightarrow> 'b dataIDDedupe \<Rightarrow> int set \<Rightarrow> bool" where
  "tracks B d P \<longleftrightarrow>
    (if P = {} then \<not> inited d \<and> (\<forall>i. \<not> bs_test B (bset d) i)
     else inited d \<and> finite P \<and> base d = word_of_int (Max P - uint (span d) + 1)
       \<and> (\<forall>x. Max P - uint (span d) < x \<and> x \<le> Max P \<longrightarrow>
            (bs_test B (bset d) (nat (x mod uint (span d))) \<longleftrightarrow> x \<in> P)))"

text \<open>The identities a sender may use next: within half the 32-bit range of the newest one.\<close>

definition near :: "u32 \<Rightarrow> int set \<Rightarrow> int \<Rightarrow> bool" where
  "near s P n \<longleftrightarrow> P = {} \<or> Max P - 2 ^ 31 - uint s < n \<and> n \<le> Max P + 2 ^ 31 - uint s"

lemma pos_int:
  assumes "uint (s :: u32) dvd 2 ^ 32"
  shows "unat (word_of_int x mod s) = nat (x mod uint s)"
proof -
  have "uint (word_of_int x mod s) = x mod 2 ^ 32 mod uint s"
    by (simp add: uint_mod_distrib uint_word_of_int)
  also have "\<dots> = x mod uint s" using assms by (rule mod_mod_cancel)
  finally show ?thesis by (simp flip: nat_uint_eq)
qed

locale bitset_laws =
  fixes B :: "'b bitset"
  assumes test_new [simp]: "\<not> bs_test B (bs_new B n) i"
    and test_set [simp]: "bs_test B (bs_set B b i) j \<longleftrightarrow> i = j \<or> bs_test B b j"
    and test_clear [simp]: "bs_test B (bs_clear B b i) j \<longleftrightarrow> i \<noteq> j \<and> bs_test B b j"
    and test_clear_all [simp]: "\<not> bs_test B (bs_clear_all B b) i"
begin

lemma test_clearRange:
  "bs_test B (clearRange B n e nb b) i \<longleftrightarrow>
    bs_test B b i \<and> (\<forall>k < unat (nb - e). i \<noteq> unat ((e + of_nat k) mod n))"
proof (induction "unat (nb - e)" arbitrary: e b)
  case 0
  then have "nb - e = 0" using unat_eq_zero [of "nb - e"] by simp
  then show ?case by (simp add: clearRange.simps)
next
  case (Suc m)
  then have ne: "e \<noteq> nb" by auto
  then have m: "m = unat (nb - (e + 1))" using step_closer [OF ne] Suc(2) by simp
  have "bs_test B (clearRange B n e nb b) i \<longleftrightarrow>
      bs_test B (bs_clear B b (unat (e mod n))) i \<and> (\<forall>k < m. i \<noteq> unat ((e + 1 + of_nat k) mod n))"
    using ne Suc(1) [OF m] m by (simp add: clearRange.simps [of B n e])
  also have "\<dots> \<longleftrightarrow> bs_test B b i \<and> (\<forall>k < Suc m. i \<noteq> unat ((e + of_nat k) mod n))"
    by (auto simp: less_Suc_eq_0_disj ac_simps)
  finally show ?case using Suc(2) by simp
qed

end

lemma span_le:
  assumes "uint (s :: u32) dvd 2 ^ 32"
  shows "0 < uint s" "uint s \<le> 2 ^ 31"
proof -
  obtain k where k: "2 ^ 32 = uint s * k" using assms by (elim dvdE)
  have lt: "uint s < 2 ^ 32" "0 \<le> uint s" using unsigned_less [of s, where 'a = int] by simp_all
  have "uint s \<noteq> 0" using k by (metis mult_zero_left power_not_zero zero_neq_numeral)
  then show pos: "0 < uint s" using lt(2) by linarith
  have "2 \<le> k"
  proof (rule ccontr)
    assume "\<not> 2 \<le> k"
    then have "k \<le> 1" by simp
    then have "uint s * k \<le> uint s * 1" using lt(2) by (intro mult_left_mono) auto
    then show False using k lt by simp
  qed
  then have "uint s * 2 \<le> uint s * k" using lt(2) by (intro mult_left_mono) auto
  then show "uint s \<le> 2 ^ 31" using k by simp
qed

lemma mod_window_inj:
  fixes s :: int
  assumes "0 < s" "\<bar>x - y\<bar> < s"
  shows "nat (x mod s) = nat (y mod s) \<longleftrightarrow> x = y"
proof
  assume "nat (x mod s) = nat (y mod s)"
  then have "x mod s = y mod s" using assms(1) by (simp add: nat_eq_iff)
  then have "s dvd x - y" by (simp add: mod_eq_dvd_iff)
  then show "x = y" using assms by (metis dvd_imp_le_int abs_of_pos eq_iff_diff_eq_0 not_le)
qed simp

lemma uint_word32: "uint (word_of_int k :: u32) = k mod 2 ^ 32"
  by (simp add: uint_word_of_int)

lemma delta_cases:
  fixes s :: u32
  assumes "uint s dvd 2 ^ 32" "near s P n" "P \<noteq> {}"
  defines "delta \<equiv> word_of_int n - word_of_int (Max P - uint s + 1) :: u32"
  shows "Max P - uint s < n \<Longrightarrow> uint delta = n - Max P + uint s - 1"
    and "n \<le> Max P - uint s \<Longrightarrow> 2 ^ 31 \<le> uint delta"
proof -
  have d: "uint delta = (n - Max P + uint s - 1) mod 2 ^ 32"
  proof -
    have e: "delta = word_of_int (n - Max P + uint s - 1)" by (simp add: delta_def algebra_simps)
    show ?thesis unfolding e by (rule uint_word32)
  qed
  show "Max P - uint s < n \<Longrightarrow> uint delta = n - Max P + uint s - 1"
    unfolding d using assms(2,3) by (intro mod_pos_pos_trivial) (auto simp: near_def)
  assume le: "n \<le> Max P - uint s"
  have "(n - Max P + uint s - 1) mod 2 ^ 32 = (n - Max P + uint s - 1 + 2 ^ 32) mod 2 ^ 32"
    by (rule mod_add_self2 [symmetric])
  also have "\<dots> = n - Max P + uint s - 1 + 2 ^ 32"
    using assms(2,3) le by (intro mod_pos_pos_trivial) (auto simp: near_def)
  finally show "2 ^ 31 \<le> uint delta" unfolding d using assms(2,3) by (simp add: near_def)
qed

interpretation nat_bits: bitset_laws nat_bitset
  by unfold_locales (auto simp: nat_bitset_def bit_set_bit_iff bit_unset_bit_iff)

lemma Max_window:
  "finite A \<Longrightarrow> A \<noteq> {} \<Longrightarrow> Max A - s < n \<longleftrightarrow> (\<forall>m \<in> A. m - s < n)" for n :: int
  by (simp add: diff_less_eq)

context bitset_laws
begin

lemma mark_tracks_first:
  assumes t: "tracks B d {}" and s: "uint (span d) dvd 2 ^ 32"
  shows "\<exists>d'. mark B d (word_of_int n) = (d', True) \<and> tracks B d' {n} \<and> span d' = span d"
proof -
  let ?s = "uint (span d)" and ?n = "word_of_int n :: u32"
  note sp = span_le [OF s]
  have ini: "\<not> inited d" "\<And>i. \<not> bs_test B (bset d) i" using t by (simp_all add: tracks_def)
  have delta: "?n - (?n - (span d - 1)) = span d - 1" by simp
  have lt: "span d - 1 < span d"
    using sp(1) by (simp add: word_less_def uint_sub_lem [THEN iffD1] word_le_def)
  let ?d' = "d\<lparr>bset := bs_set B (bset d) (unat (?n mod span d)), base := ?n - (span d - 1), inited := True\<rparr>"
  have "mark B d ?n = (?d', True)" using ini lt by (simp add: mark_def Let_def)
  moreover have "?n - (span d - 1) = word_of_int (n - ?s + 1)" by (simp add: algebra_simps)
  moreover have "nat (n mod ?s) = nat (x mod ?s) \<longleftrightarrow> x = n" if "n - ?s < x" "x \<le> n" for x
    using mod_window_inj [OF sp(1), of n x] that by auto
  ultimately show ?thesis
    using ini by (auto simp: tracks_def pos_int [OF s])
qed

text \<open>Clearing the positions of \<open>(M - s, n - s]\<close> makes room for \<open>(M, n]\<close>.\<close>

lemma evict_test:
  assumes s: "uint (span d) dvd 2 ^ 32" and M: "base d = word_of_int (M - uint (span d) + 1)"
    and n: "M < n" "n \<le> M + 2 ^ 31"
    and x: "n - uint (span d) < x" "x \<le> n" and nb: "nb = word_of_int (n - uint (span d) + 1)"
  shows "bs_test B (bset (evict B nb d)) (nat (x mod uint (span d)))
    \<longleftrightarrow> x \<le> M \<and> bs_test B (bset d) (nat (x mod uint (span d)))"
proof -
  let ?s = "uint (span d)"
  note sp = span_le [OF s]
  have e: "nb - base d = (word_of_int (n - M) :: u32)" by (simp add: M nb)
  have diff: "uint (nb - base d) = n - M" unfolding e uint_word32 using n by simp
  show ?thesis
  proof (cases "n - M < ?s")
    case False
    then show ?thesis using diff x by (simp add: evict_def word_le_def)
  next
    case True
    have cnt: "unat (nb - base d) = nat (n - M)" using diff by (simp flip: nat_uint_eq)
    have pos: "unat ((base d + of_nat k) mod span d) = nat ((M - ?s + 1 + int k) mod ?s)" for k
      unfolding M pos_int [OF s, symmetric] by simp
    have "(\<forall>k < nat (n - M). nat (x mod ?s) \<noteq> nat ((M - ?s + 1 + int k) mod ?s)) \<longleftrightarrow> x \<le> M"
    proof
      assume *: "\<forall>k < nat (n - M). nat (x mod ?s) \<noteq> nat ((M - ?s + 1 + int k) mod ?s)"
      show "x \<le> M"
      proof (rule ccontr)
        assume "\<not> x \<le> M"
        then have "nat (x - M - 1) < nat (n - M)" "M - ?s + 1 + int (nat (x - M - 1)) = x - ?s"
          using x by auto
        then show False using * by (metis minus_mod_self2)
      qed
    next
      assume "x \<le> M"
      then show "\<forall>k < nat (n - M). nat (x mod ?s) \<noteq> nat ((M - ?s + 1 + int k) mod ?s)"
        using x by (auto simp: mod_window_inj [OF sp(1)])
    qed
    then show ?thesis using True diff by (auto simp: evict_def word_le_def test_clearRange cnt pos)
  qed
qed

lemma mark_tracks_next:
  assumes t: "tracks B d P" and P: "P \<noteq> {}" and s: "uint (span d) dvd 2 ^ 32" and n: "near (span d) P n"
  shows "\<exists>d'. mark B d (word_of_int n) = (d', n \<notin> P \<and> Max P - uint (span d) < n)
    \<and> tracks B d' (insert n P) \<and> span d' = span d"
proof -
  let ?s = "uint (span d)" and ?n = "word_of_int n :: u32" and ?M = "Max P"
  let ?delta = "?n - base d" and ?pos = "nat (n mod uint (span d))"
  note sp = span_le [OF s]
  have ini: "inited d" "finite P" and base: "base d = word_of_int (?M - ?s + 1)"
    and bits: "\<And>x. ?M - ?s < x \<Longrightarrow> x \<le> ?M \<Longrightarrow> bs_test B (bset d) (nat (x mod ?s)) \<longleftrightarrow> x \<in> P"
    using t P by (auto simp: tracks_def)
  have max: "Max (insert n P) = max n ?M" using ini(2) P by simp
  have le: "x \<le> ?M" if "x \<in> P" for x using that ini(2) by simp
  note delta = delta_cases [OF s n P, folded base]
  have inj: "nat (n mod ?s) = nat (x mod ?s) \<longleftrightarrow> n = x" if "\<exists>m. m - ?s < x \<and> x \<le> m \<and> m - ?s < n \<and> n \<le> m" for x
    by (rule mod_window_inj [OF sp(1)]) (use that in auto)
  have thr: "uint (2147483648 :: u32) = 2 ^ 31" by simp
  consider (behind) "n \<le> ?M - ?s" | (inside) "?M - ?s < n" "n \<le> ?M" | (ahead) "?M < n" by linarith
  then show ?thesis
  proof cases
    case behind
    then have "\<not> ?delta < span d" "?delta \<ge> dedupeBehindThreshold"
      using delta(2) sp unfolding word_less_def word_le_def thr by simp_all
    then have "mark B d ?n = (d, False)" using ini by (simp add: mark_def Let_def)
    moreover have "tracks B d (insert n P)"
      using t P behind max sp by (auto simp: tracks_def)
    ultimately show ?thesis using behind by auto
  next
    case inside
    then have lt: "?delta < span d" using delta(1) by (simp add: word_less_def)
    have max': "Max (insert n P) = ?M" using max inside by simp
    let ?d' = "d\<lparr>bset := bs_set B (bset d) ?pos\<rparr>"
    have "mark B d ?n = (if n \<in> P then (d, False) else (?d', True))"
      using ini lt bits [OF inside] by (simp add: mark_def Let_def pos_int [OF s])
    moreover have "tracks B ?d' (insert n P)"
      using t P max' inside inj [OF exI [of _ ?M]] by (auto simp: tracks_def)
    ultimately show ?thesis using t inside by (auto simp: insert_absorb)
  next
    case ahead
    then have up: "uint ?delta = n - ?M + ?s - 1" using delta(1) sp by simp
    then have "\<not> ?delta < span d" "\<not> ?delta \<ge> dedupeBehindThreshold"
      using ahead n P sp unfolding word_less_def word_le_def thr by (simp_all add: near_def)
    moreover have nb: "?n - span d + 1 = word_of_int (n - ?s + 1)" by simp
    let ?e = "evict B (?n - span d + 1) d"
    have bits': "bs_test B (bset ?e) (nat (x mod ?s)) \<longleftrightarrow> x \<in> P" if "n - ?s < x" "x \<le> n" for x
    proof -
      have "bs_test B (bset ?e) (nat (x mod ?s)) \<longleftrightarrow> x \<le> ?M \<and> bs_test B (bset d) (nat (x mod ?s))"
        by (rule evict_test [OF s base ahead _ that nb]) (use n P sp in \<open>simp add: near_def\<close>)
      then show ?thesis using bits [of x] le [of x] that ahead by auto
    qed
    have new: "n \<notin> P" using le [of n] ahead by linarith
    have e: "span ?e = span d" "inited ?e = inited d" by (simp_all add: evict_def)
    let ?d' = "?e\<lparr>base := ?n - span d + 1, bset := bs_set B (bset ?e) ?pos\<rparr>"
    have "\<not> bs_test B (bset ?e) ?pos" using bits' [of n] new sp by simp
    ultimately have "mark B d ?n = (?d', True)"
      using ini e by (simp add: mark_def Let_def pos_int [OF s])
    moreover have "tracks B ?d' (insert n P)"
    proof -
      have max': "Max (insert n P) = n" using max ahead by simp
      have "bs_test B (bset ?d') (nat (x mod ?s)) \<longleftrightarrow> x \<in> insert n P" if "n - ?s < x" "x \<le> n" for x
        using bits' [OF that] inj [OF exI [of _ n], of x] that sp(1) by auto
      then show ?thesis using ini e max' by (simp add: tracks_def)
    qed
    ultimately show ?thesis using new ahead sp e by auto
  qed
qed

lemma seen_tracks:
  assumes t: "tracks B d P" and s: "uint (span d) dvd 2 ^ 32" and n: "near (span d) P n"
  shows "seen B (Some d) (word_of_int n) \<longleftrightarrow> n \<in> P \<and> Max P - uint (span d) < n"
proof (cases "P = {}")
  case False
  let ?s = "uint (span d)" and ?delta = "word_of_int n - base d"
  note sp = span_le [OF s]
  have t': "inited d" "finite P" "base d = word_of_int (Max P - ?s + 1)"
    "\<And>x. Max P - ?s < x \<Longrightarrow> x \<le> Max P \<Longrightarrow> bs_test B (bset d) (nat (x mod ?s)) \<longleftrightarrow> x \<in> P"
    using t False by (auto simp: tracks_def)
  note delta = delta_cases [OF s n False, folded t'(3)]
  have le: "n \<in> P \<Longrightarrow> n \<le> Max P" using t'(2) by simp
  have lt: "?delta < span d \<longleftrightarrow> Max P - ?s < n \<and> n \<le> Max P"
    using delta sp by (cases "Max P - ?s < n") (auto simp: word_less_def)
  show ?thesis using t'(1,4) lt le by (auto simp: seen_def pos_int [OF s])
qed (use t in \<open>simp add: tracks_def seen_def\<close>)

lemma marks_tracks:
  assumes "tracks B d P" "uint (span d) dvd 2 ^ 32"
    and "\<And>k. k < length ns \<Longrightarrow> near (span d) (P \<union> set (take k ns)) (ns ! k)"
  shows "\<exists>d' rs. marks B d (map word_of_int ns) = (d', rs) \<and> tracks B d' (P \<union> set ns) \<and> span d' = span d
    \<and> length rs = length ns
    \<and> (\<forall>k < length ns. rs ! k \<longleftrightarrow> ns ! k \<notin> P \<union> set (take k ns)
          \<and> (\<forall>m \<in> P \<union> set (take k ns). m - uint (span d) < ns ! k))"
  using assms
proof (induction ns arbitrary: d P)
  case (Cons n ns)
  have near: "near (span d) P n" using Cons.prems(3) [of 0] by simp
  have fin: "finite P" using Cons.prems(1) by (auto simp: tracks_def split: if_splits)
  obtain d1 where 1: "mark B d (word_of_int n) = (d1, n \<notin> P \<and> (\<forall>m \<in> P. m - uint (span d) < n))"
      "tracks B d1 (insert n P)" "span d1 = span d"
  proof (cases "P = {}")
    case True
    then show thesis using that mark_tracks_first [of d n] Cons.prems(1,2) by auto
  next
    case False
    have "Max P - uint (span d) < n \<longleftrightarrow> (\<forall>m \<in> P. m - uint (span d) < n)"
      by (rule Max_window [OF fin False])
    then show thesis using that mark_tracks_next [OF Cons.prems(1) False Cons.prems(2) near] by auto
  qed
  have "near (span d1) (insert n P \<union> set (take k ns)) (ns ! k)" if "k < length ns" for k
    using Cons.prems(3) [of "Suc k"] that 1(3) by simp
  from Cons.IH [OF 1(2) _ this] obtain d' rs where 2: "marks B d1 (map word_of_int ns) = (d', rs)"
      "tracks B d' (insert n P \<union> set ns)" "span d' = span d" "length rs = length ns"
      "\<forall>k < length ns. rs ! k \<longleftrightarrow> ns ! k \<notin> insert n P \<union> set (take k ns)
          \<and> (\<forall>m \<in> insert n P \<union> set (take k ns). m - uint (span d) < ns ! k)"
    using Cons.prems(2) 1(3) by auto
  show ?case
  proof (intro exI conjI allI impI)
    show "marks B d (map word_of_int (n # ns)) =
        (d', (n \<notin> P \<and> (\<forall>m \<in> P. m - uint (span d) < n)) # rs)" using 1 2 by simp
    fix k assume "k < length (n # ns)"
    then show "((n \<notin> P \<and> (\<forall>m \<in> P. m - uint (span d) < n)) # rs) ! k \<longleftrightarrow>
        (n # ns) ! k \<notin> P \<union> set (take k (n # ns)) \<and>
        (\<forall>m \<in> P \<union> set (take k (n # ns)). m - uint (span d) < (n # ns) ! k)"
      using 2(5) by (cases k) auto
  qed (use 2 in auto)
qed simp

end

lemma new_tracks: "bitset_laws B \<Longrightarrow> tracks B (newDataIDDedupe B n) {}"
  by (simp add: tracks_def newDataIDDedupe_def Let_def bitset_laws_def)

section \<open>Properties\<close>

text \<open> C9: Exactly-once marking. Identities are the unwrapped counters of the sender, of which mark sees
  the low 32 bits; each stays within half the 32-bit range of the newest. Then mark reports true exactly
  for an identity that was not marked before and is not 65536 or more behind the newest one. \<close>

theorem dedupe_exactly_once:
  assumes "bitset_laws B"
    and "\<forall>k < length ns. near 65536 (set (take k ns)) (ns ! k)"
    and "marks B (newDataIDDedupe B 0) (map word_of_int ns) = (d, rs)"
  shows "length rs = length ns \<and> (\<forall>k < length ns. rs ! k \<longleftrightarrow>
    ns ! k \<notin> set (take k ns) \<and> (\<forall>m \<in> set (take k ns). m - 65536 < ns ! k))"
proof -
  have span: "span (newDataIDDedupe B 0) = 65536" by (simp add: newDataIDDedupe_def Let_def)
  show ?thesis
    using bitset_laws.marks_tracks [OF assms(1) new_tracks [OF assms(1)], of 0 ns] assms(2,3)
    by (simp add: span dvd_def)
qed

lemma dedupe_exactly_once_witness:
  "\<exists>d rs. marks nat_bitset (newDataIDDedupe nat_bitset 0) (map word_of_int [4294967295, 4294967296, 4294967295]) = (d, rs)
    \<and> length rs = 3 \<and> rs ! 0 \<and> rs ! 1 \<and> \<not> rs ! 2"
proof -
  let ?ns = "[4294967295, 4294967296, 4294967295] :: int list"
  obtain d rs where run: "marks nat_bitset (newDataIDDedupe nat_bitset 0) (map word_of_int ?ns) = (d, rs)"
    by fastforce
  have laws: "bitset_laws nat_bitset" ..
  have "near 65536 (set (take k ?ns)) (?ns ! k)" if "k < 3" for k
    using that by (auto simp: near_def numeral_3_eq_3 less_Suc_eq)
  then have "length rs = length ?ns \<and> (\<forall>k < length ?ns. rs ! k \<longleftrightarrow>
      ?ns ! k \<notin> set (take k ?ns) \<and> (\<forall>m \<in> set (take k ?ns). m - 65536 < ?ns ! k))"
    by (intro dedupe_exactly_once [OF laws _ run]) simp
  then have "length rs = 3" "rs ! 0" "rs ! 1" "\<not> rs ! 2"
    by (auto simp: numeral_3_eq_3 numeral_2_eq_2 All_less_Suc)
  then show ?thesis using run by blast
qed

text \<open>\<open>seen\<close> agrees with \<open>mark\<close>: after such a run, seen holds for an identity exactly when it was
  marked and is still less than 65536 behind the newest one; a window never used has seen nothing. \<close>

theorem dedupe_seen:
  assumes "bitset_laws B"
    and "\<forall>k < length ns. near 65536 (set (take k ns)) (ns ! k)"
    and "marks B (newDataIDDedupe B 0) (map word_of_int ns) = (d, rs)"
    and "near 65536 (set ns) n"
  shows "seen B (Some d) (word_of_int n) \<longleftrightarrow> n \<in> set ns \<and> (\<forall>m \<in> set ns. m - 65536 < n)"
proof -
  have span: "span (newDataIDDedupe B 0) = 65536" by (simp add: newDataIDDedupe_def Let_def)
  have t: "tracks B d (set ns)" "span d = 65536"
    using bitset_laws.marks_tracks [OF assms(1) new_tracks [OF assms(1)], of 0 ns] assms(2,3)
    by (simp_all add: span dvd_def)
  have "Max (set ns) - 65536 < n \<longleftrightarrow> (\<forall>m \<in> set ns. m - 65536 < n)" if "n \<in> set ns"
    by (rule Max_window) (use that in auto)
  then show ?thesis
    using bitset_laws.seen_tracks [OF assms(1) t(1), of n] t(2) assms(4) by (auto simp: dvd_def)
qed

lemma dedupe_seen_witness:
  "\<exists>d rs. marks nat_bitset (newDataIDDedupe nat_bitset 0) (map word_of_int [5, 70000]) = (d, rs)
    \<and> \<not> seen nat_bitset (Some d) (word_of_int 5) \<and> seen nat_bitset (Some d) (word_of_int 70000)"
proof -
  let ?ns = "[5, 70000] :: int list"
  obtain d rs where run: "marks nat_bitset (newDataIDDedupe nat_bitset 0) (map word_of_int ?ns) = (d, rs)"
    by fastforce
  have laws: "bitset_laws nat_bitset" ..
  have near: "\<forall>k < length ?ns. near 65536 (set (take k ?ns)) (?ns ! k)"
    by (auto simp: near_def less_Suc_eq)
  have "\<not> seen nat_bitset (Some d) (word_of_int 5)" "seen nat_bitset (Some d) (word_of_int 70000)"
    by (subst dedupe_seen [OF laws near run]; simp add: near_def)+
  then show ?thesis using run by blast
qed

end
