(* ===== verification/Session.thy ===== *)
theory Session
  imports Prelude
begin

text \<open>
  \<open>internal/session/session.go\<close>: the session table and the HELLO exchange.

  The manager maps ids to references into a store of sessions, so that what \<open>Get\<close> and
  \<open>GetOrCreate\<close> return aliases what the table holds. A nil map behaves as the empty map. A hello
  is an object of its session; its retry loop runs in a goroutine of its own, so a session is a
  step relation whose steps are the calls \<open>Open\<close> and \<open>Ack\<close>, one iteration of a loop, and the
  three ways a loop leaves its \<open>select\<close>. The clock is an input of the steps that read it.
\<close>

section \<open>The session table\<close>

record hello_config =
  MaxRetries :: int
  TimeoutMS :: u64
  hasOnAck :: bool

datatype phase = Sending | Waiting | Returned

record hello =
  h_nonce :: u64
  openedMS :: u64
  cfg :: hello_config
  retries :: int
  phase :: phase
  acked :: bool
  cancelled :: bool

record session =
  sid :: u64
  nextNonce :: u64
  hellos :: "u64 \<rightharpoonup> nat"
  objs :: "hello list"

definition newSession :: "u64 \<Rightarrow> session" where
  "newSession i = \<lparr>sid = i, nextNonce = 0, hellos = Map.empty, objs = []\<rparr>"

datatype session_error = ErrRandom | ErrZeroSessionID

text \<open>\<open>New\<close> reads eight random bytes; a failed read is \<open>None\<close>.\<close>

definition New :: "bytes option \<Rightarrow> session_error + session" where
  "New rand =
    (case rand of None \<Rightarrow> Inl ErrRandom
     | Some buf \<Rightarrow> (let i = get_be64 buf in if i = 0 then Inl ErrZeroSessionID else Inr (newSession i)))"

record store =
  heap :: "session list"
  sessions :: "u64 \<rightharpoonup> nat"

text \<open>Every operation takes whether the receiver \<open>m\<close> is non-nil; the result is \<open>(ref, ok)\<close>.\<close>

definition Get :: "bool \<Rightarrow> store \<Rightarrow> u64 \<Rightarrow> nat option \<times> bool" where
  "Get m st i = (if \<not> m then (None, False) else (sessions st i, sessions st i \<noteq> None))"

definition Add :: "bool \<Rightarrow> store \<Rightarrow> nat option \<Rightarrow> store \<times> bool" where
  "Add m st r =
    (case r of None \<Rightarrow> (st, False)
     | Some p \<Rightarrow>
         if \<not> m \<or> sid (heap st ! p) = 0 then (st, False)
         else if sessions st (sid (heap st ! p)) \<noteq> None then (st, False)
         else (st\<lparr>sessions := (sessions st)(sid (heap st ! p) \<mapsto> p)\<rparr>, True))"

definition alloc :: "store \<Rightarrow> u64 \<Rightarrow> store \<times> nat" where
  "alloc st i =
    (st\<lparr>heap := heap st @ [newSession i], sessions := (sessions st)(i \<mapsto> length (heap st))\<rparr>, length (heap st))"

definition Create :: "bool \<Rightarrow> store \<Rightarrow> u64 \<Rightarrow> store \<times> nat option \<times> bool" where
  "Create m st i =
    (if \<not> m then (st, None, False)
     else if sessions st i \<noteq> None then (st, None, False)
     else case alloc st i of (st, p) \<Rightarrow> (st, Some p, True))"

definition GetOrCreate :: "bool \<Rightarrow> store \<Rightarrow> u64 \<Rightarrow> store \<times> nat option \<times> bool" where
  "GetOrCreate m st i =
    (if \<not> m then (st, None, False)
     else case sessions st i of Some p \<Rightarrow> (st, Some p, True)
     | None \<Rightarrow> (case alloc st i of (st, p) \<Rightarrow> (st, Some p, True)))"

definition GetOrDelete :: "bool \<Rightarrow> store \<Rightarrow> u64 \<Rightarrow> store \<times> nat option \<times> bool" where
  "GetOrDelete m st i =
    (if \<not> m then (st, None, False)
     else case sessions st i of None \<Rightarrow> (st, None, False)
     | Some p \<Rightarrow> (st\<lparr>sessions := (sessions st)(i := None)\<rparr>, Some p, True))"

definition Delete :: "bool \<Rightarrow> store \<Rightarrow> u64 \<Rightarrow> store" where
  "Delete m st i = (if \<not> m then st else st\<lparr>sessions := (sessions st)(i := None)\<rparr>)"

text \<open>Every entry of the table refers to a session of the store that carries the entry's id.\<close>

definition table_ok :: "store \<Rightarrow> bool" where
  "table_ok st \<longleftrightarrow> (\<forall>i p. sessions st i = Some p \<longrightarrow> p < length (heap st) \<and> sid (heap st ! p) = i)"

datatype table_op = OpGet u64 | OpAdd "nat option" | OpCreate u64 | OpGetOrCreate u64 | OpGetOrDelete u64 | OpDelete u64

fun table_step :: "bool \<Rightarrow> table_op \<Rightarrow> store \<Rightarrow> store" where
  "table_step m (OpGet i) st = st"
| "table_step m (OpAdd r) st = (if r = None \<or> the r < length (heap st) then fst (Add m st r) else st)"
| "table_step m (OpCreate i) st = fst (Create m st i)"
| "table_step m (OpGetOrCreate i) st = fst (GetOrCreate m st i)"
| "table_step m (OpGetOrDelete i) st = fst (GetOrDelete m st i)"
| "table_step m (OpDelete i) st = Delete m st i"

lemma table_alloc: "table_ok st \<Longrightarrow> table_ok (fst (alloc st i))"
  by (fastforce simp: table_ok_def alloc_def newSession_def nth_append)

lemma table_remove: "table_ok st \<Longrightarrow> table_ok (st\<lparr>sessions := (sessions st)(i := None)\<rparr>)"
  by (simp add: table_ok_def)

lemma table_step_ok: "table_ok st \<Longrightarrow> table_ok (table_step m op st)"
proof (cases op)
  case (OpAdd r)
  assume "table_ok st"
  then show ?thesis using OpAdd by (cases r) (auto simp: table_ok_def Add_def)
qed (auto simp: Create_def GetOrCreate_def GetOrDelete_def Delete_def table_alloc table_remove
       case_prod_beta split: option.splits)

section \<open>The HELLO exchange\<close>

definition Open :: "session \<Rightarrow> hello_config \<Rightarrow> u64 \<Rightarrow> session" where
  "Open s c nowMS =
    (let n = nextNonce s;
         h = \<lparr>h_nonce = n, openedMS = nowMS, cfg = c, retries = 0, phase = Sending, acked = False, cancelled = False\<rparr>
     in s\<lparr>nextNonce := n + 1, objs := objs s @ [h], hellos := (hellos s)(n \<mapsto> length (objs s))\<rparr>)"

text \<open>\<open>Hello.Ack\<close> runs once: it closes the channel and cancels the context.\<close>

definition helloAck :: "hello \<Rightarrow> hello" where
  "helloAck h = (if acked h then h else h\<lparr>acked := True, cancelled := True\<rparr>)"

text \<open>\<open>Session.Ack\<close>: the new state, the index of the hello whose \<open>OnAck\<close> ran, and the result.\<close>

definition Ack :: "session \<Rightarrow> u64 \<Rightarrow> bool \<Rightarrow> session \<times> nat option \<times> bool" where
  "Ack s n accepted =
    (case hellos s n of None \<Rightarrow> (s, None, False)
     | Some i \<Rightarrow>
         let h = objs s ! i;
             s = s\<lparr>hellos := (hellos s)(n := None), objs := (objs s)[i := helloAck h]\<rparr>
         in (s, if accepted \<and> hasOnAck (cfg h) then Some i else None, accepted))"

text \<open>One iteration of \<open>loop\<close> up to its \<open>select\<close>: a frame is sent, then the limits are checked.
  The flag tells whether the hello expired.\<close>

definition loopSend :: "u64 \<Rightarrow> hello \<Rightarrow> hello \<times> bool" where
  "loopSend nowMS h =
    (let h = h\<lparr>retries := retries h + 1\<rparr> in
     if MaxRetries (cfg h) > 0 \<and> retries h \<ge> MaxRetries (cfg h) then (h\<lparr>cancelled := True, phase := Returned\<rparr>, True)
     else if TimeoutMS (cfg h) > 0 \<and> nowMS - openedMS h \<ge> TimeoutMS (cfg h)
       then (h\<lparr>cancelled := True, phase := Returned\<rparr>, True)
     else (h\<lparr>phase := Waiting\<rparr>, False))"

datatype event = Sent nat | Expired nat | Acked nat | OnAck nat

text \<open>The steps of a session. A ready ticker may win the \<open>select\<close> against a closed channel.\<close>

inductive sstep :: "session \<Rightarrow> event list \<Rightarrow> session \<Rightarrow> bool" where
  open_hello: "sstep s [] (Open s c now)"
| ack: "Ack s n accepted = (s', oi, r) \<Longrightarrow>
    sstep s ((case hellos s n of None \<Rightarrow> [] | Some i \<Rightarrow> [Acked i]) @ (case oi of None \<Rightarrow> [] | Some i \<Rightarrow> [OnAck i])) s'"
| send: "i < length (objs s) \<Longrightarrow> phase (objs s ! i) = Sending \<Longrightarrow> loopSend now (objs s ! i) = (h, ex) \<Longrightarrow>
    sstep s (Sent i # (if ex then [Expired i] else [])) (s\<lparr>objs := (objs s)[i := h]\<rparr>)"
| stop: "i < length (objs s) \<Longrightarrow> phase (objs s ! i) = Waiting \<Longrightarrow> acked (objs s ! i) \<or> cancelled (objs s ! i) \<Longrightarrow>
    sstep s [] (s\<lparr>objs := (objs s)[i := (objs s ! i)\<lparr>phase := Returned\<rparr>]\<rparr>)"
| tick: "i < length (objs s) \<Longrightarrow> phase (objs s ! i) = Waiting \<Longrightarrow>
    sstep s [] (s\<lparr>objs := (objs s)[i := (objs s ! i)\<lparr>phase := Sending\<rparr>]\<rparr>)"
| cancel: "i < length (objs s) \<Longrightarrow>
    sstep s [] (s\<lparr>objs := (objs s)[i := (objs s ! i)\<lparr>cancelled := True\<rparr>]\<rparr>)"

inductive trace :: "u64 \<Rightarrow> session \<Rightarrow> event list \<Rightarrow> bool" for i where
  start: "trace i (newSession i) []"
| step: "trace i s es \<Longrightarrow> sstep s fs s' \<Longrightarrow> trace i s' (es @ fs)"

text \<open>What ties the events of a trace to the state it ends in.\<close>

definition hello_inv :: "event list \<Rightarrow> nat \<Rightarrow> hello \<Rightarrow> bool" where
  "hello_inv es i h \<longleftrightarrow>
    int (count_list es (Sent i)) = retries h
    \<and> (MaxRetries (cfg h) > 0 \<longrightarrow>
         retries h \<le> MaxRetries (cfg h) \<and> (phase h \<noteq> Returned \<longrightarrow> retries h < MaxRetries (cfg h)))
    \<and> count_list es (Expired i) \<le> (if phase h = Returned then 1 else 0)
    \<and> count_list es (Acked i) = (if acked h then 1 else 0) \<and> count_list es (OnAck i) \<le> count_list es (Acked i)"

definition event_of :: "event \<Rightarrow> nat" where
  "event_of e = (case e of Sent i \<Rightarrow> i | Expired i \<Rightarrow> i | Acked i \<Rightarrow> i | OnAck i \<Rightarrow> i)"

definition trace_inv :: "session \<Rightarrow> event list \<Rightarrow> bool" where
  "trace_inv s es \<longleftrightarrow>
    (\<forall>n i. hellos s n = Some i \<longrightarrow> i < length (objs s) \<and> h_nonce (objs s ! i) = n \<and> \<not> acked (objs s ! i)) \<and>
    (\<forall>i < length (objs s). hello_inv es i (objs s ! i)) \<and> (\<forall>e \<in> set es. event_of e < length (objs s))"

lemma count_other: "\<forall>e \<in> set fs. event_of e \<noteq> i \<Longrightarrow> event_of x = i \<Longrightarrow> count_list fs x = 0"
  by (auto simp: count_list_0_iff)

lemma hello_inv_other:
  assumes "hello_inv es i h" "\<forall>e \<in> set fs. event_of e \<noteq> i"
  shows "hello_inv (es @ fs) i h"
  using assms(1) count_other [OF assms(2), of "Sent i"] count_other [OF assms(2), of "Expired i"]
    count_other [OF assms(2), of "Acked i"] count_other [OF assms(2), of "OnAck i"]
  by (simp add: hello_inv_def event_of_def)

text \<open>A step that changes one hello and emits events of that hello only keeps the invariant.\<close>

lemma trace_inv_update:
  assumes inv: "trace_inv s es" and i: "i < length (objs s)"
    and h: "hello_inv es i (objs s ! i) \<Longrightarrow> hello_inv (es @ fs) i h" "h_nonce h = h_nonce (objs s ! i)"
    and fs: "\<forall>e \<in> set fs. event_of e = i"
    and hs: "\<And>n j. hs n = Some j \<Longrightarrow> hellos s n = Some j \<and> (j = i \<longrightarrow> \<not> acked h)"
  shows "trace_inv (s\<lparr>objs := (objs s)[i := h], hellos := hs\<rparr>) (es @ fs)"
  unfolding trace_inv_def
proof (intro conjI allI ballI)
  fix n j
  show "hellos (s\<lparr>objs := (objs s)[i := h], hellos := hs\<rparr>) n = Some j \<longrightarrow>
      j < length (objs (s\<lparr>objs := (objs s)[i := h], hellos := hs\<rparr>))
      \<and> h_nonce (objs (s\<lparr>objs := (objs s)[i := h], hellos := hs\<rparr>) ! j) = n
      \<and> \<not> acked (objs (s\<lparr>objs := (objs s)[i := h], hellos := hs\<rparr>) ! j)"
    using inv h(2) hs [of n j] by (cases "j = i") (auto simp: trace_inv_def)
next
  fix j
  have "hello_inv (es @ fs) j ((objs s)[i := h] ! j)" if j: "j < length (objs s)"
  proof (cases "j = i")
    case True
    then show ?thesis using inv i h(1) by (simp add: trace_inv_def)
  next
    case False
    then show ?thesis using inv j fs by (auto simp: trace_inv_def intro!: hello_inv_other)
  qed
  then show "j < length (objs (s\<lparr>objs := (objs s)[i := h], hellos := hs\<rparr>)) \<longrightarrow>
      hello_inv (es @ fs) j (objs (s\<lparr>objs := (objs s)[i := h], hellos := hs\<rparr>) ! j)" by simp
next
  fix e assume "e \<in> set (es @ fs)"
  then show "event_of e < length (objs (s\<lparr>objs := (objs s)[i := h], hellos := hs\<rparr>))"
    using inv i fs by (auto simp: trace_inv_def)
qed

lemma sstep_inv: "sstep s fs s' \<Longrightarrow> trace_inv s es \<Longrightarrow> trace_inv s' (es @ fs)"
proof (induction rule: sstep.induct)
  case (open_hello s c now)
  let ?i = "length (objs s)"
  have none: "count_list es e = 0" if "event_of e = ?i" for e
    using open_hello that by (auto simp: trace_inv_def count_list_0_iff)
  have "hello_inv es ?i \<lparr>h_nonce = nextNonce s, openedMS = now, cfg = c, retries = 0, phase = Sending,
      acked = False, cancelled = False\<rparr>"
    using none by (simp add: hello_inv_def event_of_def)
  then show ?case
    using open_hello by (auto simp: trace_inv_def Open_def Let_def nth_append less_Suc_eq split: if_splits)
next
  case (ack s n accepted s' oi r)
  show ?case
  proof (cases "hellos s n")
    case None
    then show ?thesis using ack by (auto simp: Ack_def)
  next
    case (Some i)
    let ?h = "objs s ! i"
    have i: "i < length (objs s)" "h_nonce ?h = n" "\<not> acked ?h" using ack(2) Some by (auto simp: trace_inv_def)
    have s': "s' = s\<lparr>objs := (objs s)[i := helloAck ?h], hellos := (hellos s)(n := None)\<rparr>"
      and oi: "oi = None \<or> oi = Some i"
      using ack(1) Some by (auto simp: Ack_def Let_def)
    have "trace_inv s' (es @ ([Acked i] @ (case oi of None \<Rightarrow> [] | Some j \<Rightarrow> [OnAck j])))"
      unfolding s'
    proof (rule trace_inv_update [OF ack(2) i(1)])
      show "hello_inv es i ?h \<Longrightarrow> hello_inv (es @ ([Acked i] @ (case oi of None \<Rightarrow> [] | Some j \<Rightarrow> [OnAck j]))) i (helloAck ?h)"
        using oi i(3) by (auto simp: hello_inv_def helloAck_def)
      show "((hellos s)(n := None)) m = Some j \<Longrightarrow> hellos s m = Some j \<and> (j = i \<longrightarrow> \<not> acked (helloAck ?h))" for m j
        using ack(2) i(2) by (auto simp: trace_inv_def split: if_splits)
    qed (use oi in \<open>auto simp: helloAck_def event_of_def\<close>)
    then show ?thesis using Some by simp
  qed
next
  case (send i s now h ex)
  have "trace_inv (s\<lparr>objs := (objs s)[i := h], hellos := hellos s\<rparr>) (es @ (Sent i # (if ex then [Expired i] else [])))"
  proof (rule trace_inv_update [OF send(4,1)])
    show "hello_inv es i (objs s ! i) \<Longrightarrow> hello_inv (es @ (Sent i # (if ex then [Expired i] else []))) i h"
      using send(2,3) by (auto simp: hello_inv_def loopSend_def Let_def split: if_splits)
    have "acked h = acked (objs s ! i)" "h_nonce h = h_nonce (objs s ! i)"
      using send(3) by (auto simp: loopSend_def Let_def split: if_splits)
    then show "h_nonce h = h_nonce (objs s ! i)" "hellos s n = Some j \<Longrightarrow> hellos s n = Some j \<and> (j = i \<longrightarrow> \<not> acked h)" for n j
      using send(4) by (auto simp: trace_inv_def)
  qed (auto simp: event_of_def)
  then show ?case by simp
next
  case (stop i s)
  then have "trace_inv (s\<lparr>objs := (objs s)[i := (objs s ! i)\<lparr>phase := Returned\<rparr>], hellos := hellos s\<rparr>) (es @ [])"
    by (intro trace_inv_update) (auto simp: trace_inv_def hello_inv_def)
  then show ?case by simp
next
  case (tick i s)
  then have "trace_inv (s\<lparr>objs := (objs s)[i := (objs s ! i)\<lparr>phase := Sending\<rparr>], hellos := hellos s\<rparr>) (es @ [])"
    by (intro trace_inv_update) (auto simp: trace_inv_def hello_inv_def)
  then show ?case by simp
next
  case (cancel i s)
  then have "trace_inv (s\<lparr>objs := (objs s)[i := (objs s ! i)\<lparr>cancelled := True\<rparr>], hellos := hellos s\<rparr>) (es @ [])"
    by (intro trace_inv_update) (auto simp: trace_inv_def hello_inv_def)
  then show ?case by simp
qed

lemma trace_inv: "trace i s es \<Longrightarrow> trace_inv s es"
proof (induction rule: trace.induct)
  case start
  show ?case by (simp add: trace_inv_def newSession_def)
qed (rule sstep_inv)

section \<open>Properties\<close>

text \<open> C10: The retry loop of a hello. In every execution of a session, a hello with a retry limit sends
  at most that many frames, and every hello expires at most once, is acknowledged at most once and runs
  its OnAck callback at most once. \<close>

theorem hello_bounds:
  assumes "trace k s es" "i < length (objs s)"
  shows "(MaxRetries (cfg (objs s ! i)) > 0 \<longrightarrow> int (count_list es (Sent i)) \<le> MaxRetries (cfg (objs s ! i)))
    \<and> count_list es (Expired i) \<le> 1 \<and> count_list es (Acked i) \<le> 1 \<and> count_list es (OnAck i) \<le> 1"
  using trace_inv [OF assms(1)] assms(2) by (fastforce simp: trace_inv_def hello_inv_def split: if_splits)

definition demo_cfg :: hello_config where
  "demo_cfg = \<lparr>MaxRetries = 1, TimeoutMS = 0, hasOnAck = True\<rparr>"

text \<open>A run in which the only try of a hello expires and the late acknowledgement still arrives.\<close>

lemma late_ack_after_expiry:
  "\<exists>s. trace 7 s [Sent 0, Expired 0, Acked 0, OnAck 0] \<and> length (objs s) = 1 \<and> cfg (objs s ! 0) = demo_cfg"
proof -
  let ?s1 = "Open (newSession 7) demo_cfg 5"
  let ?h = "fst (loopSend 5 (objs ?s1 ! 0))"
  let ?s2 = "?s1\<lparr>objs := (objs ?s1)[0 := ?h]\<rparr>"
  let ?s3 = "fst (Ack ?s2 0 True)"
  note d = Open_def newSession_def loopSend_def demo_cfg_def Ack_def helloAck_def Let_def
  have 1: "trace 7 ?s1 []" using trace.step [OF trace.start sstep.open_hello] by simp
  have "sstep ?s1 (Sent 0 # (if True then [Expired 0] else [])) ?s2"
    by (rule sstep.send) (simp_all add: d)
  from trace.step [OF 1 this] have 2: "trace 7 ?s2 [Sent 0, Expired 0]" by simp
  have "sstep ?s2 ((case hellos ?s2 0 of None \<Rightarrow> [] | Some i \<Rightarrow> [Acked i]) @ (case Some 0 of None \<Rightarrow> [] | Some i \<Rightarrow> [OnAck i])) ?s3"
    by (rule sstep.ack [where accepted = True and r = True]) (simp add: d)
  from trace.step [OF 2 this] have "trace 7 ?s3 [Sent 0, Expired 0, Acked 0, OnAck 0]" by (simp add: d)
  moreover have "length (objs ?s3) = 1" "cfg (objs ?s3 ! 0) = demo_cfg" by (simp_all add: d)
  ultimately show ?thesis by blast
qed

lemma hello_bounds_witness:
  "\<exists>s. trace 7 s [Sent 0, Expired 0, Acked 0, OnAck 0]
    \<and> int (count_list [Sent 0, Expired 0, Acked 0, OnAck 0] (Sent 0)) \<le> MaxRetries (cfg (objs s ! 0))"
proof -
  obtain s where s: "trace 7 s [Sent 0, Expired 0, Acked 0, OnAck 0]" "length (objs s) = 1" "cfg (objs s ! 0) = demo_cfg"
    using late_ack_after_expiry by blast
  then show ?thesis using hello_bounds [OF s(1), of 0] by (auto simp: demo_cfg_def)
qed

text \<open> C11: Acknowledgement. In every reachable session, Ack of a nonce succeeds exactly when a hello is
  registered under it and the peer accepted; it stops that hello, the one with this nonce, leaves all
  others alone, and a second Ack of the nonce finds nothing. \<close>

theorem ack_once:
  assumes "trace k s es" "Ack s n accepted = (s', oi, r)"
  shows "(r \<longleftrightarrow> accepted \<and> n \<in> dom (hellos s)) \<and> (oi \<noteq> None \<longrightarrow> r)
    \<and> Ack s' n accepted = (s', None, False)
    \<and> (\<forall>i < length (objs s). objs s' ! i =
         (if hellos s n = Some i then (objs s ! i)\<lparr>acked := True, cancelled := True\<rparr> else objs s ! i))
    \<and> (\<forall>i. hellos s n = Some i \<longrightarrow> i < length (objs s) \<and> h_nonce (objs s ! i) = n)"
proof -
  have *: "\<forall>n i. hellos s n = Some i \<longrightarrow> i < length (objs s) \<and> h_nonce (objs s ! i) = n \<and> \<not> acked (objs s ! i)"
    using trace_inv [OF assms(1)] by (simp add: trace_inv_def)
  show ?thesis
    using assms(2)
  proof (cases "hellos s n")
    case (Some i)
    then have "i < length (objs s) \<and> h_nonce (objs s ! i) = n \<and> \<not> acked (objs s ! i)" using * by blast
    then show ?thesis using assms(2) Some by (auto simp: Ack_def Let_def helloAck_def)
  qed (auto simp: Ack_def)
qed

lemma ack_once_witness:
  "\<exists>s oi. Ack (Open (newSession 7) demo_cfg 5) 0 True = (s, oi, True) \<and> Ack s 0 True = (s, None, False)"
proof -
  have 1: "trace 7 (Open (newSession 7) demo_cfg 5) []" using trace.step [OF trace.start sstep.open_hello] by simp
  obtain s oi r where a: "Ack (Open (newSession 7) demo_cfg 5) 0 True = (s, oi, r)" by (metis prod_cases3)
  have "0 \<in> dom (hellos (Open (newSession 7) demo_cfg 5))" by (simp add: Open_def newSession_def Let_def)
  then show ?thesis using ack_once [OF 1 a] a by auto
qed

text \<open> C12: The table. Starting from a table whose entries carry their ids, every operation keeps that,
  and GetOrCreate returns a session with the requested id that Get then finds, creates nothing on a
  second call, and leaves the other ids alone; Delete and GetOrDelete remove exactly their id. \<close>

theorem session_table:
  assumes "table_ok st" "GetOrCreate True st i = (st', r, ok)"
  shows "ok \<and> table_ok st' \<and> Get True st' i = (r, True) \<and> (\<exists>p. r = Some p \<and> sid (heap st' ! p) = i)
      \<and> GetOrCreate True st' i = (st', r, True) \<and> Create True st' i = (st', None, False)
      \<and> (\<forall>j. j \<noteq> i \<longrightarrow> Get True st' j = Get True st j)
      \<and> (\<forall>j. Get True (Delete True st' i) j = (if j = i then (None, False) else Get True st j))
      \<and> (\<forall>op. table_ok (table_step True op st'))"
proof (cases "sessions st i")
  case None
  then have st': "st' = fst (alloc st i)" "r = Some (length (heap st))" "ok"
    using assms(2) by (auto simp: GetOrCreate_def alloc_def)
  have "table_ok st'" unfolding st' using assms(1) by (rule table_alloc)
  then show ?thesis
    using st' None table_step_ok by (auto simp: Get_def alloc_def newSession_def GetOrCreate_def Create_def Delete_def)
next
  case (Some p)
  then have st': "st' = st" "r = Some p" "ok" using assms(2) by (auto simp: GetOrCreate_def)
  then show ?thesis
    using Some assms(1) table_step_ok by (auto simp: Get_def GetOrCreate_def Create_def Delete_def table_ok_def)
qed

lemma session_table_witness:
  "\<exists>st r. GetOrCreate True \<lparr>heap = [], sessions = Map.empty\<rparr> 9 = (st, r, True) \<and> Get True st 9 = (r, True)"
proof -
  obtain st r ok where g: "GetOrCreate True \<lparr>heap = [], sessions = Map.empty\<rparr> 9 = (st, r, ok)"
    by (metis prod_cases3)
  have "table_ok \<lparr>heap = [], sessions = Map.empty\<rparr>" by (simp add: table_ok_def)
  from session_table [OF this g] g show ?thesis by auto
qed

end
