(* ===== verification/RxWindow.thy ===== *)
theory RxWindow
  imports Fec "HOL-Library.RBT"
begin

text \<open>
  \<open>internal/tunnel/v2/recv/rx_group_window.go\<close>: the receive window that collects the DATA and
  REPAIR shards of each FEC group, reports groups as recoverable or done, and forgets the oldest.

  The red-black trees of \<open>github.com/emirpasic/gods\<close> are operation records with the laws of the
  locale \<open>tree_laws\<close>; \<open>HOL-Library.RBT\<close> is an instance. Groups are pointers in the tree, so changing
  a group is putting its new value back under its key. Packet buffers are byte lists; \<open>Release\<close>
  returns a buffer to its pool and does not show. An index out of range is a panic, \<open>None\<close>.
\<close>

section \<open>Ordered trees\<close>

record ('t, 'k, 'v) tree =
  t_empty :: 't
  t_get :: "'t \<Rightarrow> 'k \<Rightarrow> 'v option"
  t_put :: "'t \<Rightarrow> 'k \<Rightarrow> 'v \<Rightarrow> 't"
  t_remove :: "'t \<Rightarrow> 'k \<Rightarrow> 't"
  t_left :: "'t \<Rightarrow> ('k \<times> 'v) option"
  t_size :: "'t \<Rightarrow> nat"

locale tree_laws =
  fixes T :: "('t, 'k :: linorder, 'v) tree"
  assumes get_empty [simp]: "t_get T (t_empty T) = Map.empty"
    and get_put [simp]: "t_get T (t_put T t k v) = (t_get T t)(k \<mapsto> v)"
    and get_remove [simp]: "t_get T (t_remove T t k) = (t_get T t)(k := None)"
    and finite_dom [simp]: "finite (dom (t_get T t))"
    and size_card: "t_size T t = card (dom (t_get T t))"
    and left_min: "t_left T t = (if dom (t_get T t) = {} then None
      else Some (Min (dom (t_get T t)), the (t_get T t (Min (dom (t_get T t))))))"
begin

lemma size_remove: "k \<in> dom (t_get T t) \<Longrightarrow> Suc (t_size T (t_remove T t k)) = t_size T t"
  using card.remove [OF finite_dom, of k t] by (simp only: size_card get_remove dom_fun_upd simp_thms if_True refl)

lemma left_in: "t_left T t = Some (k, v) \<Longrightarrow> t_get T t k = Some v"
  using Min_in [OF finite_dom, of t] by (auto simp: left_min dom_def split: if_splits)

lemma left_None: "t_left T t = None \<longleftrightarrow> t_size T t = 0"
  by (simp add: left_min size_card)

end

definition rbt_tree :: "(('k :: linorder, 'v) rbt, 'k, 'v) tree" where
  "rbt_tree = \<lparr>t_empty = RBT.empty, t_get = RBT.lookup, t_put = (\<lambda>t k v. RBT.insert k v t),
     t_remove = (\<lambda>t k. RBT.delete k t),
     t_left = (\<lambda>t. case RBT.entries t of [] \<Rightarrow> None | e # _ \<Rightarrow> Some e),
     t_size = (\<lambda>t. length (RBT.entries t))\<rparr>"

lemma rbt_dom: "dom (RBT.lookup t) = set (map fst (RBT.entries t))"
  by (metis RBT.map_of_entries dom_map_of_conv_image_fst list.set_map)

interpretation rbt: tree_laws rbt_tree
proof
  fix t :: "('a :: linorder, 'b) rbt"
  have d: "distinct (map fst (RBT.entries t))" by (rule RBT.distinct_entries)
  show "t_size rbt_tree t = card (dom (t_get rbt_tree t))"
    using distinct_card [OF d] by (simp add: rbt_tree_def rbt_dom)
  have s: "sorted (map fst (RBT.entries t))" by (rule RBT.sorted_entries)
  show "t_left rbt_tree t = (if dom (t_get rbt_tree t) = {} then None
      else Some (Min (dom (t_get rbt_tree t)), the (t_get rbt_tree t (Min (dom (t_get rbt_tree t))))))"
  proof (cases "RBT.entries t")
    case Nil
    then show ?thesis by (simp add: rbt_tree_def rbt_dom)
  next
    case (Cons e es)
    then have "Min (dom (RBT.lookup t)) = fst e"
      using s by (intro Min_eqI) (auto simp: rbt_dom)
    moreover have "RBT.lookup t (fst e) = Some (snd e)"
      using Cons by (metis RBT.map_of_entries map_of_Cons_code(2) prod.collapse)
    ultimately show ?thesis using Cons by (simp add: rbt_tree_def rbt_dom)
  qed
qed (simp_all add: rbt_tree_def RBT.lookup_delete restrict_complement_singleton_eq)

text \<open>The comparison the trees are built with is that of the order on words.\<close>

definition compareGroupID :: "u32 \<Rightarrow> u32 \<Rightarrow> int" where
  "compareGroupID a b = (if a < b then - 1 else if a > b then 1 else 0)"

section \<open>The window\<close>

abbreviation (input) maxFECSourceSpan :: nat where "maxFECSourceSpan \<equiv> 4"
abbreviation (input) defaultRxGroupWindowGroupLimit :: int where "defaultRxGroupWindowGroupLimit \<equiv> 8192"
abbreviation (input) defaultRxGroupWindowClosedLimit :: int where "defaultRxGroupWindowClosedLimit \<equiv> 32768"

record rxGroupKey =
  groupID :: u32
  sourceSpan :: int

record rxGroup =
  key :: rxGroupKey
  data :: "bytes option list"
  repairs :: "(u16 \<times> bytes) list"
  recovered :: bool

record rxGroupRecoverable =
  rec_group :: rxGroupKey
  missingMask :: u8

record rxGroupDone =
  done_group :: rxGroupKey
  dataArrived :: u8
  dataExpected :: u8
  expectedBytes :: u64
  maxSourceBytes :: u64
  done_recovered :: bool
  done_expired :: bool

record rxGroupWindowResult =
  recoverable :: "rxGroupRecoverable list"
  finished :: "rxGroupDone list"

record ('g, 'c) rxGroupWindow =
  groups :: 'g
  closed :: 'c
  maxGroups :: int
  maxClosed :: int

record ('g, 'c) trees =
  gt :: "('g, u32, rxGroup) tree"
  ct :: "('c, u32, unit) tree"

definition newRxGroupWindow :: "('g, 'c) trees \<Rightarrow> ('g, 'c) rxGroupWindow" where
  "newRxGroupWindow F = \<lparr>groups = t_empty (gt F), closed = t_empty (ct F),
     maxGroups = defaultRxGroupWindowGroupLimit, maxClosed = defaultRxGroupWindowClosedLimit\<rparr>"

definition no_result :: rxGroupWindowResult where
  "no_result = \<lparr>recoverable = [], finished = []\<rparr>"

definition add_result :: "rxGroupWindowResult \<Rightarrow> rxGroupWindowResult \<Rightarrow> rxGroupWindowResult" where
  "add_result r s = \<lparr>recoverable = recoverable r @ recoverable s, finished = finished r @ finished s\<rparr>"

definition hasRepair :: "rxGroup \<Rightarrow> u16 \<Rightarrow> bool" where
  "hasRepair g k = (\<exists>r \<in> set (repairs g). fst r = k)"

definition acceptsSourceSpan :: "rxGroup \<Rightarrow> int \<Rightarrow> bool" where
  "acceptsSourceSpan g n =
    (if n \<le> 0 \<or> n > int (length (data g)) then False
     else if sourceSpan (key g) > 0 then sourceSpan (key g) = n
     else \<forall>i \<in> set [nat n..<length (data g)]. data g ! i = None)"

definition missingMaskOf :: "rxGroup \<Rightarrow> u8" where
  "missingMaskOf g = fold (\<lambda>i m. if data g ! i = None then m OR push_bit i 1 else m) [0..<nat (sourceSpan (key g))] 0"

definition countMissing :: "u8 \<Rightarrow> int \<Rightarrow> nat" where
  "countMissing mm n = length (filter (\<lambda>i. mm AND push_bit i 1 \<noteq> 0) [0..<nat n])"

definition firstMissingIndex :: "u8 \<Rightarrow> int \<Rightarrow> int" where
  "firstMissingIndex mm n =
    (case find (\<lambda>i. mm AND push_bit i 1 \<noteq> 0) [0..<nat n] of None \<Rightarrow> - 1 | Some i \<Rightarrow> int i)"

definition doneForGroup :: "rxGroup \<Rightarrow> bool \<Rightarrow> bool \<Rightarrow> u64 \<Rightarrow> u64 \<Rightarrow> rxGroupDone" where
  "doneForGroup g recov expd recoveredBytes recoveredMaxBytes =
    (let d0 = \<lparr>done_group = key g, dataArrived = 0, dataExpected = word_of_int (sourceSpan (key g)),
           expectedBytes = recoveredBytes, maxSourceBytes = recoveredMaxBytes,
           done_recovered = recov, done_expired = expd\<rparr>
     in fold (\<lambda>i d. case data g ! i of None \<Rightarrow> d
          | Some p \<Rightarrow>
              let n = of_nat (length p) in
              d\<lparr>dataArrived := dataArrived d + 1, expectedBytes := expectedBytes d + n,
                maxSourceBytes := (if n > maxSourceBytes d then n else maxSourceBytes d)\<rparr>)
          [0..<nat (sourceSpan (key g))] d0)"

definition closeGroup :: "('g, 'c) trees \<Rightarrow> u32 \<Rightarrow> ('g, 'c) rxGroupWindow \<Rightarrow> ('g, 'c) rxGroupWindow" where
  "closeGroup F i w = (if t_get (ct F) (closed w) i \<noteq> None then w else w\<lparr>closed := t_put (ct F) (closed w) i ()\<rparr>)"

definition dropGroup :: "('g, 'c) trees \<Rightarrow> u32 \<Rightarrow> ('g, 'c) rxGroupWindow \<Rightarrow> ('g, 'c) rxGroupWindow" where
  "dropGroup F i w = (if t_get (gt F) (groups w) i = None then w else w\<lparr>groups := t_remove (gt F) (groups w) i\<rparr>)"

definition checkGroup ::
  "('g, 'c) trees \<Rightarrow> rxGroup \<Rightarrow> ('g, 'c) rxGroupWindow \<Rightarrow> ('g, 'c) rxGroupWindow \<times> rxGroupWindowResult" where
  "checkGroup F g w =
    (if recovered g \<or> sourceSpan (key g) \<le> 0 then (w, no_result)
     else
       let mm = missingMaskOf g in
       if mm = 0 then
         let out = no_result\<lparr>finished := [doneForGroup g False False 0 0]\<rparr>
         in (dropGroup F (groupID (key g)) (closeGroup F (groupID (key g)) w), out)
       else if countMissing mm (sourceSpan (key g)) \<le> length (repairs g)
       then (w, no_result\<lparr>recoverable := [\<lparr>rec_group = key g, missingMask = mm\<rparr>]\<rparr>)
       else (w, no_result))"

text \<open>The two loops of \<open>prune\<close>. Each iteration takes one entry out, so the size is fuel enough.\<close>

fun pruneGroups :: "('g, 'c) trees \<Rightarrow> nat \<Rightarrow> ('g, 'c) rxGroupWindow \<Rightarrow> rxGroupDone list \<Rightarrow> ('g, 'c) rxGroupWindow \<times> rxGroupDone list" where
  "pruneGroups F 0 w out = (w, out)"
| "pruneGroups F (Suc n) w out =
    (if maxGroups w > 0 \<and> int (t_size (gt F) (groups w)) > maxGroups w then
       (case t_left (gt F) (groups w) of None \<Rightarrow> (w, out)
        | Some (_, g) \<Rightarrow>
            let out = (if sourceSpan (key g) > 0 then out @ [doneForGroup g (recovered g) (\<not> recovered g) 0 0] else out)
            in pruneGroups F n (dropGroup F (groupID (key g)) (closeGroup F (groupID (key g)) w)) out)
     else (w, out))"

fun pruneClosed :: "('g, 'c) trees \<Rightarrow> nat \<Rightarrow> ('g, 'c) rxGroupWindow \<Rightarrow> ('g, 'c) rxGroupWindow" where
  "pruneClosed F 0 w = w"
| "pruneClosed F (Suc n) w =
    (if maxClosed w > 0 \<and> int (t_size (ct F) (closed w)) > maxClosed w then
       (case t_left (ct F) (closed w) of None \<Rightarrow> w
        | Some (i, _) \<Rightarrow> pruneClosed F n (w\<lparr>closed := t_remove (ct F) (closed w) i\<rparr>))
     else w)"

definition prune :: "('g, 'c) trees \<Rightarrow> ('g, 'c) rxGroupWindow \<Rightarrow> ('g, 'c) rxGroupWindow \<times> rxGroupWindowResult" where
  "prune F w =
    (case pruneGroups F (t_size (gt F) (groups w)) w [] of
       (w, out) \<Rightarrow> (pruneClosed F (t_size (ct F) (closed w)) w, no_result\<lparr>finished := out\<rparr>))"

definition andPrune ::
  "('g, 'c) trees \<Rightarrow> ('g, 'c) rxGroupWindow \<times> rxGroupWindowResult \<Rightarrow> ('g, 'c) rxGroupWindow \<times> rxGroupWindowResult" where
  "andPrune F p = (case p of (w, out) \<Rightarrow> (case prune F w of (w, out') \<Rightarrow> (w, add_result out out')))"

definition newGroup :: "u32 \<Rightarrow> int \<Rightarrow> rxGroup" where
  "newGroup gid n = \<lparr>key = \<lparr>groupID = gid, sourceSpan = n\<rparr>, data = replicate maxFECSourceSpan None,
     repairs = [], recovered = False\<rparr>"

definition putGroup :: "('g, 'c) trees \<Rightarrow> u32 \<Rightarrow> rxGroup \<Rightarrow> ('g, 'c) rxGroupWindow \<Rightarrow> ('g, 'c) rxGroupWindow" where
  "putGroup F i g w = w\<lparr>groups := t_put (gt F) (groups w) i g\<rparr>"

text \<open>\<open>addData\<close> and \<open>addRepair\<close> after the group has been found or made.\<close>

definition addDataTo ::
  "('g, 'c) trees \<Rightarrow> ('g, 'c) rxGroupWindow \<Rightarrow> u32 \<Rightarrow> rxGroup \<Rightarrow> u8 \<Rightarrow> bytes
    \<Rightarrow> (('g, 'c) rxGroupWindow \<times> rxGroupWindowResult \<times> bool) option" where
  "addDataTo F w gid g idx packet =
    (if sourceSpan (key g) > 0 \<and> int (unat idx) \<ge> sourceSpan (key g) then
       (case prune F w of (w, out) \<Rightarrow> Some (w, out, False))
     else if unat idx \<ge> length (data g) then None
     else
       let g = g\<lparr>data := (data g)[unat idx := Some packet]\<rparr>;
           w = putGroup F gid g w
       in (case andPrune F (if sourceSpan (key g) > 0 then checkGroup F g w else (w, no_result)) of
             (w, out) \<Rightarrow> Some (w, out, True)))"

definition addData ::
  "('g, 'c) trees \<Rightarrow> ('g, 'c) rxGroupWindow \<Rightarrow> u32 \<Rightarrow> u8 \<Rightarrow> bytes
    \<Rightarrow> (('g, 'c) rxGroupWindow \<times> rxGroupWindowResult \<times> bool) option" where
  "addData F w gid idx packet =
    (case t_get (gt F) (groups w) gid of
       None \<Rightarrow>
         if t_get (ct F) (closed w) gid \<noteq> None then Some (w, no_result, False)
         else addDataTo F (putGroup F gid (newGroup gid 0) w) gid (newGroup gid 0) idx packet
     | Some g \<Rightarrow> addDataTo F w gid g idx packet)"

definition addRepairTo ::
  "('g, 'c) trees \<Rightarrow> ('g, 'c) rxGroupWindow \<Rightarrow> u32 \<Rightarrow> rxGroup \<Rightarrow> u16 \<Rightarrow> bytes
    \<Rightarrow> ('g, 'c) rxGroupWindow \<times> rxGroupWindowResult \<times> bool" where
  "addRepairTo F w gid g k symbol =
    (if hasRepair g k then (case prune F w of (w, out) \<Rightarrow> (w, out, True))
     else
       let g = g\<lparr>repairs := repairs g @ [(k, symbol)]\<rparr>;
           w = putGroup F gid g w
       in (case andPrune F (checkGroup F g w) of (w, out) \<Rightarrow> (w, out, True)))"

definition addRepair ::
  "('g, 'c) trees \<Rightarrow> ('g, 'c) rxGroupWindow \<Rightarrow> u32 \<Rightarrow> u16 \<Rightarrow> int \<Rightarrow> bytes
    \<Rightarrow> ('g, 'c) rxGroupWindow \<times> rxGroupWindowResult \<times> bool" where
  "addRepair F w gid k n symbol =
    (if n \<le> 0 \<or> n > int maxFECSourceSpan then (w, no_result, False)
     else
       case t_get (gt F) (groups w) gid of
         None \<Rightarrow>
           if t_get (ct F) (closed w) gid \<noteq> None then (w, no_result, False)
           else addRepairTo F (putGroup F gid (newGroup gid n) w) gid (newGroup gid n) k symbol
       | Some g \<Rightarrow>
           if \<not> acceptsSourceSpan g n then (case prune F w of (w, out) \<Rightarrow> (w, out, False))
           else
             let g' = (if sourceSpan (key g) = 0 then g\<lparr>key := (key g)\<lparr>sourceSpan := n\<rparr>\<rparr> else g)
             in addRepairTo F (putGroup F gid g' w) gid g' k symbol)"

text \<open>The shards and keys handed to \<open>fec.Reconstruct\<close>; \<open>None\<close> for the \<open>false\<close> results.\<close>

definition buildShardsLocked ::
  "('g, 'c) trees \<Rightarrow> ('g, 'c) rxGroupWindow \<Rightarrow> rxGroupRecoverable \<Rightarrow> (shard list \<times> u16 list) option" where
  "buildShardsLocked F w r =
    (if missingMask r = 0 then None
     else case t_get (gt F) (groups w) (groupID (rec_group r)) of None \<Rightarrow> None
     | Some g \<Rightarrow>
         let span = sourceSpan (rec_group r); missing = countMissing (missingMask r) span in
         if sourceSpan (key g) \<noteq> span then None
         else if length (repairs g) < missing then None
         else if \<exists>i \<in> set [0..<nat span]. missingMask r AND push_bit i 1 = 0 \<and> data g ! i = None then None
         else Some (map (\<lambda>i. if missingMask r AND push_bit i 1 \<noteq> 0 then None else data g ! i) [0..<nat span]
                      @ map (\<lambda>x. Some (snd x)) (take missing (repairs g)),
                    map fst (take missing (repairs g))))"

definition finishRecovery ::
  "('g, 'c) trees \<Rightarrow> ('g, 'c) rxGroupWindow \<Rightarrow> rxGroupRecoverable \<Rightarrow> u64 \<Rightarrow> u64
    \<Rightarrow> ('g, 'c) rxGroupWindow \<times> rxGroupWindowResult" where
  "finishRecovery F w r recoveredBytes recoveredMaxBytes =
    (case t_get (gt F) (groups w) (groupID (rec_group r)) of None \<Rightarrow> prune F w
     | Some g \<Rightarrow>
         let g = g\<lparr>recovered := True\<rparr>; w = putGroup F (groupID (rec_group r)) g w;
             out = no_result\<lparr>finished := [doneForGroup g True False recoveredBytes recoveredMaxBytes]\<rparr>
         in andPrune F (dropGroup F (groupID (key g)) (closeGroup F (groupID (key g)) w), out))"

definition expireGroup ::
  "('g, 'c) trees \<Rightarrow> ('g, 'c) rxGroupWindow \<Rightarrow> u32 \<Rightarrow> ('g, 'c) rxGroupWindow \<times> rxGroupWindowResult" where
  "expireGroup F w gid =
    (case t_get (gt F) (groups w) gid of None \<Rightarrow> prune F w
     | Some g \<Rightarrow>
         if sourceSpan (key g) = 0 then prune F (dropGroup F gid (closeGroup F gid w))
         else (case checkGroup F g w of (w, out) \<Rightarrow>
           if finished out \<noteq> [] \<or> recoverable out \<noteq> [] then andPrune F (w, out)
           else andPrune F (dropGroup F gid (closeGroup F gid w),
                  no_result\<lparr>finished := [doneForGroup g (recovered g) (\<not> recovered g) 0 0]\<rparr>)))"

fun dropAll :: "('g, 'c) trees \<Rightarrow> nat \<Rightarrow> ('g, 'c) rxGroupWindow \<Rightarrow> ('g, 'c) rxGroupWindow" where
  "dropAll F 0 w = w"
| "dropAll F (Suc n) w =
    (case t_left (gt F) (groups w) of None \<Rightarrow> w | Some (i, _) \<Rightarrow> dropAll F n (dropGroup F i w))"

definition releaseAll :: "('g, 'c) trees \<Rightarrow> ('g, 'c) rxGroupWindow \<Rightarrow> ('g, 'c) rxGroupWindow" where
  "releaseAll F w = (dropAll F (t_size (gt F) (groups w)) w)\<lparr>closed := t_empty (ct F)\<rparr>"

section \<open>The invariant\<close>

text \<open>A well-formed group, one that still waits for a shard, and a window of such groups.\<close>

definition group_ok :: "u32 \<Rightarrow> rxGroup \<Rightarrow> bool" where
  "group_ok i g \<longleftrightarrow> groupID (key g) = i \<and> 0 \<le> sourceSpan (key g) \<and> sourceSpan (key g) \<le> 4
    \<and> length (data g) = 4 \<and> \<not> recovered g \<and> distinct (map fst (repairs g))
    \<and> (sourceSpan (key g) = 0 \<longrightarrow> repairs g = [])
    \<and> (sourceSpan (key g) > 0 \<longrightarrow> (\<forall>i < 4. nat (sourceSpan (key g)) \<le> i \<longrightarrow> data g ! i = None))"

definition pending :: "rxGroup \<Rightarrow> bool" where
  "pending g \<longleftrightarrow> (sourceSpan (key g) > 0 \<longrightarrow> (\<exists>i < nat (sourceSpan (key g)). data g ! i = None))"

definition window_inv :: "('g, 'c) trees \<Rightarrow> ('g, 'c) rxGroupWindow \<Rightarrow> bool" where
  "window_inv F w \<longleftrightarrow>
    (\<forall>i g. t_get (gt F) (groups w) i = Some g \<longrightarrow> group_ok i g \<and> pending g)
    \<and> dom (t_get (gt F) (groups w)) \<inter> dom (t_get (ct F) (closed w)) = {}"

text \<open>Both trees are within their limits.\<close>

definition bounded :: "('g, 'c) trees \<Rightarrow> ('g, 'c) rxGroupWindow \<Rightarrow> bool" where
  "bounded F w \<longleftrightarrow>
    (maxGroups w > 0 \<longrightarrow> int (t_size (gt F) (groups w)) \<le> maxGroups w)
    \<and> (maxClosed w > 0 \<longrightarrow> int (t_size (ct F) (closed w)) \<le> maxClosed w)"

lemma bit_and_exp: "i < 8 \<Longrightarrow> (m AND push_bit i 1 \<noteq> 0) = bit (m :: u8) i"
  by (simp add: bit_iff_and_push_bit_not_eq_0)

lemma mask_fold:
  "n \<le> 8 \<Longrightarrow> bit (fold (\<lambda>i m. if P i then m OR push_bit i 1 else m) [0..<n] (0 :: u8)) j \<longleftrightarrow> j < n \<and> P j"
proof (induction n)
  case (Suc n)
  have "bit (push_bit n (1 :: u8)) j \<longleftrightarrow> j = n" using Suc.prems by (auto simp: bit_exp_iff possible_bit_def)
  then show ?case using Suc by (auto simp: bit_or_iff less_Suc_eq)
qed simp

lemma bit_missingMask:
  "group_ok k g \<Longrightarrow> bit (missingMaskOf g) i \<longleftrightarrow> i < nat (sourceSpan (key g)) \<and> data g ! i = None"
  unfolding missingMaskOf_def by (rule mask_fold) (auto simp: group_ok_def nat_le_iff)

lemma missingMask_0:
  assumes ok: "group_ok k g" and span: "0 < sourceSpan (key g)"
  shows "missingMaskOf g = 0 \<longleftrightarrow> \<not> pending g"
proof
  assume "missingMaskOf g = 0"
  then have "\<not> bit (missingMaskOf g) i" for i by simp
  then show "\<not> pending g" using bit_missingMask [OF ok] span by (auto simp: pending_def)
next
  assume "\<not> pending g"
  then show "missingMaskOf g = 0"
    using bit_missingMask [OF ok] span by (intro bit_word_eqI) (auto simp: pending_def)
qed

lemma countMissing_missingMask:
  assumes "group_ok k g"
  shows "countMissing (missingMaskOf g) (sourceSpan (key g))
    = length (filter (\<lambda>i. data g ! i = None) [0..<nat (sourceSpan (key g))])"
proof -
  have "missingMaskOf g AND push_bit i 1 \<noteq> 0 \<longleftrightarrow> data g ! i = None"
    if "i \<in> set [0..<nat (sourceSpan (key g))]" for i
    using bit_missingMask [OF assms, of i] that by (simp add: and_exp_eq_0_iff_not_bit)
  then show ?thesis unfolding countMissing_def by (intro arg_cong [where f = length] filter_cong refl)
qed

locale window = g: tree_laws "gt F" + c: tree_laws "ct F" for F :: "('g, 'c) trees"
begin

abbreviation get_group :: "('g, 'c) rxGroupWindow \<Rightarrow> u32 \<Rightarrow> rxGroup option" where
  "get_group w \<equiv> t_get (gt F) (groups w)"

abbreviation is_closed :: "('g, 'c) rxGroupWindow \<Rightarrow> u32 set" where
  "is_closed w \<equiv> dom (t_get (ct F) (closed w))"

definition inv_but :: "u32 set \<Rightarrow> ('g, 'c) rxGroupWindow \<Rightarrow> bool" where
  "inv_but X w \<longleftrightarrow> (\<forall>i g. get_group w i = Some g \<longrightarrow> group_ok i g \<and> (i \<notin> X \<longrightarrow> pending g))
    \<and> dom (get_group w) \<inter> is_closed w = {}"

lemma window_inv_but: "window_inv F w = inv_but {} w"
  by (simp add: window_inv_def inv_but_def)

text \<open>Closing and dropping a group.\<close>

lemma retire [simp]:
  "get_group (dropGroup F i (closeGroup F i w)) = (get_group w)(i := None)"
  "is_closed (dropGroup F i (closeGroup F i w)) = insert i (is_closed w)"
  "maxGroups (dropGroup F i (closeGroup F i w)) = maxGroups w"
  "maxClosed (dropGroup F i (closeGroup F i w)) = maxClosed w"
  by (auto simp: dropGroup_def closeGroup_def fun_eq_iff)

lemma inv_but_retire: "inv_but (insert i X) w \<Longrightarrow> inv_but X (dropGroup F i (closeGroup F i w))"
  by (auto simp: inv_but_def split: if_splits)

lemma size_retire: "get_group w i \<noteq> None \<Longrightarrow>
    Suc (t_size (gt F) (groups (dropGroup F i (closeGroup F i w)))) = t_size (gt F) (groups w)"
  using g.size_remove [of i "groups w"] by (auto simp: dropGroup_def closeGroup_def)

lemma pruneGroups_props:
  assumes "inv_but X w" "pruneGroups F n w out = (w', out')" "t_size (gt F) (groups w) \<le> n"
  shows "inv_but X w' \<and> maxGroups w' = maxGroups w \<and> maxClosed w' = maxClosed w
    \<and> (maxGroups w > 0 \<longrightarrow> int (t_size (gt F) (groups w')) \<le> maxGroups w)
    \<and> (\<forall>i. get_group w' i = get_group w i \<or> get_group w' i = None \<and> i \<in> is_closed w')
    \<and> is_closed w \<subseteq> is_closed w'"
  using assms
proof (induction n arbitrary: w out)
  case (Suc n)
  show ?case
  proof (cases "maxGroups w > 0 \<and> int (t_size (gt F) (groups w)) > maxGroups w")
    case True
    then obtain i g where left: "t_left (gt F) (groups w) = Some (i, g)"
      using g.left_None [of "groups w"] by fastforce
    then have i: "get_group w i = Some g" by (rule g.left_in)
    then have ok: "group_ok i g" using Suc.prems(1) by (simp add: inv_but_def)
    let ?w = "dropGroup F i (closeGroup F i w)"
    obtain out1 where rec: "pruneGroups F n ?w out1 = (w', out')"
      using Suc.prems(2) True left ok by (auto simp: Let_def group_ok_def)
    have "inv_but X ?w" by (rule inv_but_retire) (use Suc.prems(1) in \<open>auto simp: inv_but_def\<close>)
    moreover have "t_size (gt F) (groups ?w) \<le> n" using size_retire [of w i] i Suc.prems(3) by simp
    ultimately show ?thesis using Suc.IH [OF _ rec] by (auto split: if_splits)
  qed (use Suc.prems in auto)
qed simp

lemma pruneClosed_props:
  assumes "inv_but X w" "t_size (ct F) (closed w) \<le> n"
  shows "inv_but X (pruneClosed F n w) \<and> groups (pruneClosed F n w) = groups w
    \<and> maxGroups (pruneClosed F n w) = maxGroups w \<and> maxClosed (pruneClosed F n w) = maxClosed w
    \<and> (maxClosed w > 0 \<longrightarrow> int (t_size (ct F) (closed (pruneClosed F n w))) \<le> maxClosed w)"
  using assms
proof (induction n arbitrary: w)
  case (Suc n)
  show ?case
  proof (cases "maxClosed w > 0 \<and> int (t_size (ct F) (closed w)) > maxClosed w")
    case True
    then obtain i u where left: "t_left (ct F) (closed w) = Some (i, u)"
      using c.left_None [of "closed w"] by fastforce
    let ?w = "w\<lparr>closed := t_remove (ct F) (closed w) i\<rparr>"
    have "inv_but X ?w" using Suc.prems(1) by (auto simp: inv_but_def)
    moreover have "t_size (ct F) (closed ?w) \<le> n"
      using c.size_remove [OF domI, OF c.left_in [OF left]] Suc.prems(2) by simp
    ultimately show ?thesis using Suc.IH [of ?w] True left by simp
  qed (use Suc.prems in auto)
qed simp

lemma prune_props:
  assumes "inv_but X w" "prune F w = (w', out)"
  shows "inv_but X w'" "bounded F w'" "maxGroups w' = maxGroups w" "maxClosed w' = maxClosed w"
    and "get_group w' i = get_group w i \<or> get_group w' i = None" "recoverable out = []"
proof -
  obtain w1 ds where 1: "pruneGroups F (t_size (gt F) (groups w)) w [] = (w1, ds)" by fastforce
  have w': "w' = pruneClosed F (t_size (ct F) (closed w1)) w1" "recoverable out = []"
    using assms(2) 1 by (auto simp: prune_def no_result_def)
  note p1 = pruneGroups_props [OF assms(1) 1 order_refl]
  note p2 = pruneClosed_props [OF conjunct1 [OF p1] order_refl]
  show "inv_but X w'" "bounded F w'" "maxGroups w' = maxGroups w" "maxClosed w' = maxClosed w"
    "get_group w' i = get_group w i \<or> get_group w' i = None" "recoverable out = []"
    using p1 p2 w' by (auto simp: bounded_def)
qed

lemma andPrune_props:
  assumes "inv_but X w" "andPrune F (w, out) = (w', out')"
  shows "inv_but X w'" "bounded F w'" "maxGroups w' = maxGroups w" "maxClosed w' = maxClosed w"
    and "get_group w' i = get_group w i \<or> get_group w' i = None" "recoverable out' = recoverable out"
proof -
  obtain out1 where 1: "prune F w = (w', out1)" "out' = add_result out out1"
    using assms(2) by (auto simp: andPrune_def split: prod.splits)
  show "inv_but X w'" "bounded F w'" "maxGroups w' = maxGroups w" "maxClosed w' = maxClosed w"
    "get_group w' i = get_group w i \<or> get_group w' i = None" "recoverable out' = recoverable out"
    using prune_props [OF assms(1) 1(1)] 1(2) by (simp_all add: add_result_def)
qed

lemma checkGroup_props:
  assumes inv: "inv_but {i} w" and g: "get_group w i = Some g" and out: "checkGroup F g w = (w', out)"
  shows "inv_but {} w'" "maxGroups w' = maxGroups w" "maxClosed w' = maxClosed w"
    and "get_group w' i = None \<or> get_group w' = get_group w"
    and "recoverable out = (if get_group w' i = Some g \<and> 0 < sourceSpan (key g)
        \<and> countMissing (missingMaskOf g) (sourceSpan (key g)) \<le> length (repairs g)
      then [\<lparr>rec_group = key g, missingMask = missingMaskOf g\<rparr>] else [])"
proof -
  have ok: "group_ok i g" using inv g by (simp add: inv_but_def)
  then have id: "groupID (key g) = i" "\<not> recovered g" by (simp_all add: group_ok_def)
  have full: "inv_but {} w" if "pending g"
    using inv g that unfolding inv_but_def by (metis empty_iff insert_iff option.inject)
  have stay: "pending g" if "sourceSpan (key g) \<le> 0" using that by (simp add: pending_def)
  have ret: "inv_but {} (dropGroup F i (closeGroup F i w))" by (rule inv_but_retire [OF inv])
  have out': "(w', out) =
     (if sourceSpan (key g) \<le> 0 then (w, no_result)
      else if missingMaskOf g = 0 then (dropGroup F i (closeGroup F i w), no_result\<lparr>finished := [doneForGroup g False False 0 0]\<rparr>)
      else if countMissing (missingMaskOf g) (sourceSpan (key g)) \<le> length (repairs g)
        then (w, no_result\<lparr>recoverable := [\<lparr>rec_group = key g, missingMask = missingMaskOf g\<rparr>]\<rparr>)
      else (w, no_result))"
    unfolding out [symmetric] checkGroup_def Let_def id by (simp add: id(2))
  show "inv_but {} w'" "maxGroups w' = maxGroups w" "maxClosed w' = maxClosed w"
    "get_group w' i = None \<or> get_group w' = get_group w"
    "recoverable out = (if get_group w' i = Some g \<and> 0 < sourceSpan (key g)
        \<and> countMissing (missingMaskOf g) (sourceSpan (key g)) \<le> length (repairs g)
      then [\<lparr>rec_group = key g, missingMask = missingMaskOf g\<rparr>] else [])"
    using out' full stay ret g missingMask_0 [OF ok]
    by (auto simp: no_result_def split: if_splits)
qed

lemma inv_but_put:
  assumes "inv_but X w" "group_ok i g" "i \<notin> is_closed w"
  shows "inv_but (insert i X) (putGroup F i g w)"
    and "get_group (putGroup F i g w) = (get_group w)(i \<mapsto> g)"
    and "is_closed (putGroup F i g w) = is_closed w"
    and "maxGroups (putGroup F i g w) = maxGroups w" "maxClosed (putGroup F i g w) = maxClosed w"
  using assms by (auto simp: inv_but_def putGroup_def)

lemma open_not_closed: "inv_but X w \<Longrightarrow> get_group w i = Some g \<Longrightarrow> i \<notin> is_closed w"
  by (auto simp: inv_but_def)

lemma inv_but_mono: "inv_but X w \<Longrightarrow> X \<subseteq> Y \<Longrightarrow> inv_but Y w"
  by (auto simp: inv_but_def)

text \<open>What \<open>addData\<close> and \<open>addRepair\<close> promise once the group is in the tree.\<close>

definition good :: "('g, 'c) rxGroupWindow \<Rightarrow> u32 \<Rightarrow> ('g, 'c) rxGroupWindow \<Rightarrow> rxGroupWindowResult \<Rightarrow> bool" where
  "good w i w' out \<longleftrightarrow> inv_but {} w' \<and> bounded F w' \<and> maxGroups w' = maxGroups w \<and> maxClosed w' = maxClosed w
    \<and> (\<forall>j. j \<noteq> i \<longrightarrow> get_group w' j = get_group w j \<or> get_group w' j = None)
    \<and> (\<forall>r \<in> set (recoverable out). groupID (rec_group r) = i \<and>
        (\<forall>g. get_group w' i = Some g \<longrightarrow> 0 < sourceSpan (key g) \<and> rec_group r = key g \<and> missingMask r = missingMaskOf g
          \<and> countMissing (missingMaskOf g) (sourceSpan (key g)) \<le> length (repairs g)))"

lemma check_prune_good:
  assumes inv: "inv_but X w" and X: "X \<subseteq> {i}" and ok: "group_ok i g" and i: "i \<notin> is_closed w"
    and out: "andPrune F (checkGroup F g (putGroup F i g w)) = (w', out)"
  shows "good w i w' out"
proof -
  note put = inv_but_put [OF inv ok i]
  have inv1: "inv_but {i} (putGroup F i g w)" by (rule inv_but_mono [OF put(1)]) (use X in auto)
  obtain w1 out1 where c: "checkGroup F g (putGroup F i g w) = (w1, out1)" by fastforce
  have at: "get_group (putGroup F i g w) i = Some g" by (simp add: put)
  note chk = checkGroup_props [OF inv1 at c]
  have out': "andPrune F (w1, out1) = (w', out)" using out c by simp
  note p = andPrune_props [OF chk(1) out']
  have "get_group w1 j = get_group w j \<or> get_group w1 j = None" if "j \<noteq> i" for j
  proof -
    have "get_group w1 = get_group (putGroup F i g w) \<or> get_group w1 = (get_group (putGroup F i g w))(i := None)"
    proof -
      have "w1 = putGroup F i g w \<or> w1 = dropGroup F (groupID (key g)) (closeGroup F (groupID (key g)) (putGroup F i g w))"
        using c by (auto simp: checkGroup_def Let_def split: if_splits)
      then show ?thesis using ok by (auto simp: group_ok_def)
    qed
    then show ?thesis using that by (auto simp: put)
  qed
  moreover have "get_group w1 i = Some g \<or> get_group w1 i = None" using chk(4) at by auto
  moreover have "groupID (key g) = i" using ok by (simp add: group_ok_def)
  ultimately show ?thesis
    using p chk put unfolding good_def by (auto split: if_splits) (metis option.distinct(1) option.inject)+
qed

lemma prune_good: "inv_but {} w \<Longrightarrow> prune F w = (w', out) \<Longrightarrow> good w i w' out"
  unfolding good_def using prune_props by (metis empty_iff list.set(1))

lemma andPrune_good: "inv_but {} w \<Longrightarrow> andPrune F (w, no_result) = (w', out) \<Longrightarrow> good w i w' out"
  unfolding good_def using andPrune_props by (metis empty_iff list.set(1) no_result_def rxGroupWindowResult.select_convs(1))

lemma inv_put_pending:
  "inv_but {} w \<Longrightarrow> group_ok i g \<Longrightarrow> pending g \<Longrightarrow> i \<notin> is_closed w \<Longrightarrow> inv_but {} (putGroup F i g w)"
  by (auto simp: inv_but_def putGroup_def)

lemma newGroup_ok: "0 \<le> n \<Longrightarrow> n \<le> 4 \<Longrightarrow> group_ok i (newGroup i n) \<and> pending (newGroup i n)"
  by (auto simp: group_ok_def pending_def newGroup_def intro!: exI [of _ 0])

lemma newGroup_span: "sourceSpan (key (newGroup i n)) = n"
  by (simp add: newGroup_def)

lemma good_put: "good (putGroup F i g w) i w' out \<Longrightarrow> good w i w' out"
  by (auto simp: good_def putGroup_def)

lemma addDataTo_good:
  assumes inv: "inv_but {} w" and g: "get_group w i = Some g" and out: "addDataTo F w i g idx p = Some (w', out, acc)"
  shows "good w i w' out" "acc \<longleftrightarrow> (0 < sourceSpan (key g) \<longrightarrow> int (unat idx) < sourceSpan (key g))"
proof -
  have ok: "group_ok i g" using inv g by (simp add: inv_but_def)
  have i: "i \<notin> is_closed w" by (rule open_not_closed [OF inv g])
  let ?g = "g\<lparr>data := (data g)[unat idx := Some p]\<rparr>"
  show "acc \<longleftrightarrow> (0 < sourceSpan (key g) \<longrightarrow> int (unat idx) < sourceSpan (key g))"
    using out by (auto simp: addDataTo_def Let_def split: if_splits prod.splits)
  show "good w i w' out"
  proof (cases "0 < sourceSpan (key g) \<and> sourceSpan (key g) \<le> int (unat idx)")
    case True
    then show ?thesis using out prune_good [OF inv] by (auto simp: addDataTo_def split: prod.splits)
  next
    case False
    then have "unat idx \<noteq> j" if "0 < sourceSpan (key g)" "nat (sourceSpan (key g)) \<le> j" for j
      using that False by (auto simp: nat_le_iff)
    then have ok': "group_ok i ?g" using ok by (auto simp: group_ok_def nth_list_update)
    show ?thesis
    proof (cases "0 < sourceSpan (key g)")
      case True
      then have "andPrune F (checkGroup F ?g (putGroup F i ?g w)) = (w', out)"
        using out False by (auto simp: addDataTo_def Let_def split: if_splits prod.splits)
      then show ?thesis using check_prune_good [OF inv _ ok' i] by blast
    next
      case no: False
      then have "andPrune F (putGroup F i ?g w, no_result) = (w', out)"
        using out by (auto simp: addDataTo_def Let_def split: if_splits prod.splits)
      moreover have "inv_but {} (putGroup F i ?g w)"
        by (rule inv_put_pending [OF inv ok' _ i]) (use no in \<open>simp add: pending_def\<close>)
      ultimately show ?thesis using andPrune_good good_put by blast
    qed
  qed
qed

lemma addData_good:
  assumes inv: "inv_but {} w" and out: "addData F w i idx p = Some (w', out, acc)"
  shows "(i \<in> is_closed w \<and> w' = w \<and> out = no_result \<and> \<not> acc) \<or> (i \<notin> is_closed w \<and> good w i w' out)"
proof (cases "get_group w i")
  case None
  show ?thesis
  proof (cases "t_get (ct F) (closed w) i")
    case new: None
    let ?w = "putGroup F i (newGroup i 0) w"
    have i: "i \<notin> is_closed w" using new by auto
    have "inv_but {} ?w" by (rule inv_put_pending [OF inv _ _ i]) (simp_all add: newGroup_ok)
    moreover have "get_group ?w i = Some (newGroup i 0)" by (simp add: putGroup_def)
    moreover have "addDataTo F ?w i (newGroup i 0) idx p = Some (w', out, acc)"
      using out None new by (simp add: addData_def)
    ultimately show ?thesis using addDataTo_good(1) good_put i by blast
  qed (use out None in \<open>auto simp: addData_def\<close>)
next
  case (Some g)
  then show ?thesis
    using out addDataTo_good(1) [OF inv Some] open_not_closed [OF inv Some] by (auto simp: addData_def)
qed

lemma addRepairTo_good:
  assumes inv: "inv_but {i} w" "hasRepair g k \<longrightarrow> inv_but {} w" and g: "get_group w i = Some g" and span: "0 < sourceSpan (key g)"
    and out: "addRepairTo F w i g k smb = (w', out, acc)"
  shows "good w i w' out"
proof (cases "hasRepair g k")
  case True
  then show ?thesis using out prune_good inv(2) by (auto simp: addRepairTo_def split: prod.splits)
next
  case False
  let ?g = "g\<lparr>repairs := repairs g @ [(k, smb)]\<rparr>"
  have "group_ok i g" using inv(1) g by (simp add: inv_but_def)
  then have ok: "group_ok i ?g" using False span by (auto simp: group_ok_def hasRepair_def)
  have "andPrune F (checkGroup F ?g (putGroup F i ?g w)) = (w', out)"
    using out False by (auto simp: addRepairTo_def Let_def split: prod.splits)
  then show ?thesis using check_prune_good [OF inv(1) _ ok open_not_closed [OF inv(1) g]] by blast
qed

lemma addRepair_good:
  assumes inv: "inv_but {} w" and out: "addRepair F w i k n smb = (w', out, acc)"
  shows "((n \<le> 0 \<or> 4 < n \<or> i \<in> is_closed w) \<and> w' = w \<and> out = no_result \<and> \<not> acc)
    \<or> (i \<notin> is_closed w \<and> good w i w' out)"
proof (cases "n \<le> 0 \<or> 4 < n")
  case True
  then show ?thesis using out by (auto simp: addRepair_def)
next
  case n: False
  show ?thesis
  proof (cases "get_group w i")
    case None
    show ?thesis
    proof (cases "t_get (ct F) (closed w) i")
      case new: None
      let ?w = "putGroup F i (newGroup i n) w"
      have i: "i \<notin> is_closed w" using new by auto
      have "inv_but {} ?w" by (rule inv_put_pending [OF inv _ _ i]) (use n newGroup_ok in auto)
      moreover have "get_group ?w i = Some (newGroup i n)" by (simp add: putGroup_def)
      moreover have "addRepairTo F ?w i (newGroup i n) k smb = (w', out, acc)"
        using out None new n by (simp add: addRepair_def)
      ultimately show ?thesis
        using addRepairTo_good [of i ?w "newGroup i n" k smb w' out acc] n i good_put inv_but_mono [of "{}" ?w "{i}"]
        by (simp add: newGroup_span)
    qed (use out None n in \<open>auto simp: addRepair_def\<close>)
  next
    case (Some g)
    have i: "i \<notin> is_closed w" by (rule open_not_closed [OF inv Some])
    have okg: "group_ok i g" "pending g" using inv Some by (simp_all add: inv_but_def)
    show ?thesis
    proof (cases "acceptsSourceSpan g n")
      case False
      then show ?thesis
        using out n Some i prune_good [OF inv] by (auto simp: addRepair_def split: prod.splits)
    next
      case True
      let ?g = "if sourceSpan (key g) = 0 then g\<lparr>key := (key g)\<lparr>sourceSpan := n\<rparr>\<rparr> else g"
      let ?w = "putGroup F i ?g w"
      have rep: "addRepairTo F ?w i ?g k smb = (w', out, acc)"
        using out n Some True by (simp add: addRepair_def Let_def)
      have ok: "group_ok i ?g" and span: "0 < sourceSpan (key ?g)"
        using okg n True by (auto simp: group_ok_def acceptsSourceSpan_def split: if_splits)
      have at: "get_group ?w i = Some ?g" by (simp add: putGroup_def)
      have inv1: "inv_but {i} ?w" using inv_but_put(1) [OF inv ok i] by simp
      have "inv_but {} ?w" if "hasRepair ?g k"
      proof -
        have "sourceSpan (key g) \<noteq> 0" using that okg(1) by (auto simp: hasRepair_def group_ok_def split: if_splits)
        then show ?thesis using inv_put_pending [OF inv okg i] by simp
      qed
      then show ?thesis using addRepairTo_good [OF inv1 _ at span rep] good_put i by blast
    qed
  qed
qed

lemma retire_andPrune_good:
  assumes inv: "inv_but {i} w" and out: "andPrune F (dropGroup F i (closeGroup F i w), res) = (w', out)"
    and res: "recoverable res = []"
  shows "good w i w' out \<and> get_group w' i = None"
proof -
  have inv': "inv_but {} (dropGroup F i (closeGroup F i w))" by (rule inv_but_retire) (use inv in simp)
  note p = andPrune_props [OF inv' out]
  show ?thesis
    using p res unfolding good_def
    by (metis empty_iff fun_upd_apply list.set(1) option.distinct(1) retire(1) retire(3) retire(4))
qed

lemma finishRecovery_good:
  assumes inv: "inv_but {} w" and out: "finishRecovery F w r b m = (w', out)"
  shows "good w (groupID (rec_group r)) w' out" "get_group w' (groupID (rec_group r)) = None"
proof -
  let ?i = "groupID (rec_group r)"
  have "good w ?i w' out \<and> get_group w' ?i = None"
  proof (cases "get_group w ?i")
    case None
    then show ?thesis using out prune_good [OF inv] prune_props(5) [OF inv, of w' out ?i]
      by (auto simp: finishRecovery_def)
  next
    case (Some g)
    let ?g = "g\<lparr>recovered := True\<rparr>" and ?res = "no_result\<lparr>finished := [doneForGroup (g\<lparr>recovered := True\<rparr>) True False b m]\<rparr>"
    have id: "groupID (key g) = ?i" using inv Some by (auto simp: inv_but_def group_ok_def)
    have at: "andPrune F (dropGroup F ?i (closeGroup F ?i (putGroup F ?i ?g w)), ?res) = (w', out)"
      using out Some id by (simp add: finishRecovery_def Let_def)
    have same: "get_group (dropGroup F ?i (closeGroup F ?i (putGroup F ?i ?g w))) = (get_group w)(?i := None)"
      by (simp add: putGroup_def)
    have inv': "inv_but {} (dropGroup F ?i (closeGroup F ?i (putGroup F ?i ?g w)))"
      using inv by (auto simp: inv_but_def same retire(2) putGroup_def split: if_splits)
    note p = andPrune_props [OF inv' at]
    have "get_group w' ?i = None" using p(5) [of ?i] unfolding same by simp
    moreover have "get_group w' j = get_group w j \<or> get_group w' j = None" if "j \<noteq> ?i" for j
      using p(5) [of j] that unfolding same by simp
    ultimately show ?thesis
      using p(1-4,6) unfolding good_def by (simp add: putGroup_def no_result_def)
  qed
  then show "good w ?i w' out" "get_group w' ?i = None" by simp_all
qed

lemma expireGroup_good:
  assumes inv: "inv_but {} w" and out: "expireGroup F w i = (w', out)"
  shows "good w i w' out" "recoverable out = [] \<longrightarrow> get_group w' i = None"
proof -
  have "good w i w' out \<and> (recoverable out = [] \<longrightarrow> get_group w' i = None)"
  proof (cases "get_group w i")
    case None
    then show ?thesis using out prune_good [OF inv] prune_props(5) [OF inv, of w' out i]
      by (auto simp: expireGroup_def)
  next
    case (Some g)
    have ok: "group_ok i g" and pend: "pending g" using inv Some by (simp_all add: inv_but_def)
    have i: "i \<notin> is_closed w" by (rule open_not_closed [OF inv Some])
    have inv1: "inv_but {i} w" by (rule inv_but_mono [OF inv]) simp
    have rewrite: "prune F x = andPrune F (x, no_result)" for x
      by (simp add: andPrune_def add_result_def no_result_def split: prod.splits)
    obtain w1 out1 where c: "checkGroup F g w = (w1, out1)" by fastforce
    note chk = checkGroup_props [OF inv1 Some c]
    show ?thesis
    proof (cases "sourceSpan (key g) = 0")
      case True
      then show ?thesis
        using out Some retire_andPrune_good [OF inv1, of no_result]
        by (simp add: expireGroup_def rewrite no_result_def)
    next
      case False
      then have span: "0 < sourceSpan (key g)" using ok by (simp add: group_ok_def)
      then have mask: "missingMaskOf g \<noteq> 0" using missingMask_0 [OF ok span] pend by simp
      have w1: "w1 = w" "finished out1 = []"
        using c mask by (auto simp: checkGroup_def Let_def no_result_def split: if_splits)
      show ?thesis
      proof (cases "recoverable out1 = []")
        case True
        then show ?thesis
          using out Some False c w1 retire_andPrune_good [OF inv1]
          by (auto simp: expireGroup_def no_result_def)
      next
        case rec: False
        then have at: "andPrune F (w, out1) = (w', out)"
          using out Some False c w1 by (simp add: expireGroup_def)
        note p = andPrune_props [OF inv at]
        have "recoverable out1 = [\<lparr>rec_group = key g, missingMask = missingMaskOf g\<rparr>]"
          "countMissing (missingMaskOf g) (sourceSpan (key g)) \<le> length (repairs g)"
          using chk(5) rec by (auto split: if_splits)
        moreover have "g' = g" if "get_group w' i = Some g'" for g' using p(5) [of i] Some that by auto
        ultimately show ?thesis using p ok span rec unfolding good_def by (auto simp: group_ok_def)
      qed
    qed
  qed
  then show "good w i w' out" "recoverable out = [] \<longrightarrow> get_group w' i = None" by simp_all
qed

lemma dropAll_empty: "t_size (gt F) (groups w) \<le> n \<Longrightarrow> get_group (dropAll F n w) = Map.empty
    \<and> maxGroups (dropAll F n w) = maxGroups w \<and> maxClosed (dropAll F n w) = maxClosed w"
proof (induction n arbitrary: w)
  case 0
  then show ?case by (simp add: g.size_card)
next
  case (Suc n)
  show ?case
  proof (cases "t_left (gt F) (groups w)")
    case None
    then have "card (dom (get_group w)) = 0" using g.left_None [of "groups w"] by (simp add: g.size_card)
    then show ?thesis using None by simp
  next
    case (Some kv)
    then obtain i g where left: "t_left (gt F) (groups w) = Some (i, g)" by (cases kv) auto
    have i: "get_group w i = Some g" by (rule g.left_in [OF left])
    have "t_size (gt F) (groups (dropGroup F i w)) \<le> n"
      using g.size_remove [OF domI, OF i] Suc.prems i by (simp add: dropGroup_def)
    then show ?thesis using Suc.IH [of "dropGroup F i w"] left by (simp add: dropGroup_def)
  qed
qed

lemma releaseAll_inv: "inv_but {} (releaseAll F w) \<and> bounded F (releaseAll F w)
    \<and> maxGroups (releaseAll F w) = maxGroups w \<and> maxClosed (releaseAll F w) = maxClosed w"
  using dropAll_empty [of w "t_size (gt F) (groups w)"]
  by (simp add: releaseAll_def inv_but_def bounded_def g.size_card c.size_card)

text \<open>A recoverable result hands \<open>fec.Reconstruct\<close> well-formed arguments.\<close>

lemma buildShards_good:
  assumes good: "good w i w' out" and r: "r \<in> set (recoverable out)" and g: "get_group w' i = Some g"
  defines "n \<equiv> nat (sourceSpan (key g))" and "m \<equiv> countMissing (missingMask r) (sourceSpan (key g))"
  shows "buildShardsLocked F w' r = Some (take n (data g) @ map (\<lambda>x. Some (snd x)) (take m (repairs g)),
      map fst (take m (repairs g)))"
    and "0 < n" "n \<le> 4" "0 < m" "m \<le> n" "m \<le> length (repairs g)" "distinct (map fst (take m (repairs g)))"
    and "m = length (filter (\<lambda>s. s = None) (take n (data g)))"
proof -
  have ok: "group_ok i g" and pend: "pending g" using good g by (auto simp: good_def inv_but_def)
  have rg: "groupID (rec_group r) = i" "0 < sourceSpan (key g)" "rec_group r = key g" "missingMask r = missingMaskOf g"
    "m \<le> length (repairs g)"
    using good r g by (auto simp: good_def m_def)
  have n: "0 < n" "n \<le> 4" using rg(2) ok by (auto simp: n_def group_ok_def)
  have data: "length (data g) = 4" using ok by (simp add: group_ok_def)
  have bit: "missingMask r AND push_bit j 1 \<noteq> 0 \<longleftrightarrow> data g ! j = None" if "j < n" for j
    using bit_missingMask [OF ok, of j] that by (simp add: rg(4) n_def and_exp_eq_0_iff_not_bit)
  have m: "m = length (filter (\<lambda>i. data g ! i = None) [0..<n])"
    unfolding m_def rg(4) n_def by (rule countMissing_missingMask [OF ok])
  have take: "take n (data g) = map (\<lambda>j. data g ! j) [0..<n]"
    using data n by (intro nth_equalityI) auto
  show m': "m = length (filter (\<lambda>s. s = None) (take n (data g)))"
    unfolding m take by (simp add: filter_map comp_def)
  have "\<exists>j < n. data g ! j = None" using pend rg(2) by (simp add: pending_def n_def)
  then show "0 < m" unfolding m by (auto simp: filter_empty_conv)
  show "m \<le> n" unfolding m using length_filter_le [of _ "[0..<n]"] by simp
  show "distinct (map fst (take m (repairs g)))"
    using ok by (simp add: group_ok_def take_map [symmetric])
  have mask: "missingMask r \<noteq> 0" using missingMask_0 [OF ok rg(2)] pend rg(4) by simp
  have shards: "map (\<lambda>i. if missingMask r AND push_bit i 1 \<noteq> 0 then None else data g ! i) [0..<n] = take n (data g)"
    unfolding take by (rule map_cong [OF refl]) (use bit in auto)
  have present: "\<not> (\<exists>i \<in> set [0..<n]. missingMask r AND push_bit i 1 = 0 \<and> data g ! i = None)"
    using bit by auto
  show "buildShardsLocked F w' r = Some (take n (data g) @ map (\<lambda>x. Some (snd x)) (take m (repairs g)),
      map fst (take m (repairs g)))"
    unfolding buildShardsLocked_def rg(3) rg(1) [unfolded rg(3)] g option.case Let_def m_def [symmetric] n_def [symmetric]
      shards if_not_P [OF present]
    using mask rg(5) by simp
  show "0 < n" "n \<le> 4" "m \<le> length (repairs g)" using n rg(5) by simp_all
qed

end

section \<open>The window over red-black trees\<close>

definition rbt_trees :: "((u32, rxGroup) rbt, (u32, unit) rbt) trees" where
  "rbt_trees = \<lparr>gt = rbt_tree, ct = rbt_tree\<rparr>"

interpretation rxw: window rbt_trees
  unfolding window_def rbt_trees_def by (simp add: rbt.tree_laws_axioms)

section \<open>Properties\<close>

datatype window_op =
    AddData u32 u8 bytes
  | AddRepair u32 u16 int bytes
  | FinishRecovery rxGroupRecoverable u64 u64
  | ExpireGroup u32
  | ReleaseAll

fun window_step :: "('g, 'c) trees \<Rightarrow> window_op \<Rightarrow> ('g, 'c) rxGroupWindow \<Rightarrow> ('g, 'c) rxGroupWindow option" where
  "window_step F (AddData i idx p) w = map_option fst (addData F w i idx p)"
| "window_step F (AddRepair i k n s) w = Some (fst (addRepair F w i k n s))"
| "window_step F (FinishRecovery r b m) w = Some (fst (finishRecovery F w r b m))"
| "window_step F (ExpireGroup i) w = Some (fst (expireGroup F w i))"
| "window_step F ReleaseAll w = Some (releaseAll F w)"

fun window_run :: "('g, 'c) trees \<Rightarrow> window_op list \<Rightarrow> ('g, 'c) rxGroupWindow \<Rightarrow> ('g, 'c) rxGroupWindow option" where
  "window_run F [] w = Some w"
| "window_run F (x # xs) w = (case window_step F x w of None \<Rightarrow> None | Some w' \<Rightarrow> window_run F xs w')"

definition index_ok :: "window_op \<Rightarrow> bool" where
  "index_ok x = (case x of AddData i idx p \<Rightarrow> idx < 4 | _ \<Rightarrow> True)"

definition sound :: "('g, 'c) trees \<Rightarrow> ('g, 'c) rxGroupWindow \<Rightarrow> bool" where
  "sound F w \<longleftrightarrow> window_inv F w \<and> maxGroups w = 8192 \<and> maxClosed w = 32768 \<and> bounded F w"

context window
begin

lemma addData_total: "inv_but {} w \<Longrightarrow> idx < 4 \<Longrightarrow> addData F w i idx p \<noteq> None"
proof -
  assume inv: "inv_but {} w" and idx: "idx < 4"
  have "unat idx < 4" using idx by (simp add: word_less_nat_alt)
  then have to: "addDataTo F w' i g idx p \<noteq> None" if "length (data g) = 4" for w' g
    using that by (auto simp: addDataTo_def Let_def split: prod.splits)
  show ?thesis
    using inv to by (auto simp: addData_def newGroup_def inv_but_def group_ok_def split: option.splits)
qed

lemma window_step_sound:
  assumes "sound F w" "index_ok x"
  shows "\<exists>w'. window_step F x w = Some w' \<and> sound F w'"
proof -
  have inv: "inv_but {} w" and lim: "maxGroups w = 8192" "maxClosed w = 32768" "bounded F w"
    using assms(1) by (simp_all add: sound_def window_inv_but)
  have of_good: "sound F w'" if "good w i w' out" for w' i out
    using that lim by (auto simp: good_def sound_def window_inv_but)
  show ?thesis
  proof (cases x)
    case (AddData i idx p)
    then obtain w' out acc where o: "addData F w i idx p = Some (w', out, acc)"
      using addData_total [OF inv] assms(2) by (fastforce simp: index_ok_def)
    then show ?thesis using AddData addData_good [OF inv o] of_good assms(1) by auto
  next
    case (AddRepair i k n smb)
    obtain w' out acc where o: "addRepair F w i k n smb = (w', out, acc)" by (metis prod_cases3)
    then show ?thesis using AddRepair addRepair_good [OF inv o] of_good assms(1) by auto
  next
    case (FinishRecovery r b m)
    obtain w' out where o: "finishRecovery F w r b m = (w', out)" by fastforce
    then show ?thesis using FinishRecovery finishRecovery_good(1) [OF inv o] of_good by auto
  next
    case (ExpireGroup i)
    obtain w' out where o: "expireGroup F w i = (w', out)" by fastforce
    then show ?thesis using ExpireGroup expireGroup_good(1) [OF inv o] of_good by auto
  next
    case ReleaseAll
    then show ?thesis using releaseAll_inv [of w] lim by (simp add: sound_def window_inv_but)
  qed
qed

lemma window_run_sound:
  "sound F w \<Longrightarrow> \<forall>x \<in> set xs. index_ok x \<Longrightarrow> \<exists>w'. window_run F xs w = Some w' \<and> sound F w'"
proof (induction xs arbitrary: w)
  case (Cons x xs)
  then show ?case using window_step_sound [of w x] by auto
qed simp

lemma new_sound: "sound F (newRxGroupWindow F)"
  by (simp add: sound_def newRxGroupWindow_def window_inv_def bounded_def g.size_card c.size_card)

end

text \<open> C13: The receive window never panics, and after any sequence of its operations every group is
  well formed and still waits for a DATA shard, no group is open and closed at once, and the window
  holds at most 8192 open and 32768 closed groups. The source index is below 4, as Decode ensures. \<close>

theorem rx_window_invariant:
  assumes "window F" "\<forall>x \<in> set xs. index_ok x"
  shows "\<exists>w. window_run F xs (newRxGroupWindow F) = Some w \<and> window_inv F w
    \<and> t_size (gt F) (groups w) \<le> 8192 \<and> t_size (ct F) (closed w) \<le> 32768"
proof -
  obtain w where "window_run F xs (newRxGroupWindow F) = Some w" "sound F w"
    using window.window_run_sound [OF assms(1) window.new_sound [OF assms(1)] assms(2)] by blast
  then show ?thesis by (auto simp: sound_def bounded_def)
qed

lemma rx_window_invariant_witness:
  "\<exists>w. window_run rbt_trees [AddData 5 1 [7], AddRepair 5 9 2 [8], ExpireGroup 5] (newRxGroupWindow rbt_trees) = Some w
    \<and> window_inv rbt_trees w"
  using rx_window_invariant [OF rxw.window_axioms, of "[AddData 5 1 [7], AddRepair 5 9 2 [8], ExpireGroup 5]"]
  by (auto simp: index_ok_def)



text \<open> C15: Every group reported recoverable and still in the window yields exactly the input the codec
  needs: the DATA shards stored for it with nil in the m missing places, the symbols and the distinct keys
  of m repairs, and NewCodec accepts its shape. \<close>

theorem rx_window_shards:
  assumes "window F" "window_inv F w"
    and "addData F w i idx p = Some (w', out, acc) \<or> addRepair F w i k n s = (w', out, acc) \<or> expireGroup F w i = (w', out)"
    and "r \<in> set (recoverable out)" "t_get (gt F) (groups w') i = Some g"
  shows "\<exists>shards keys c m. buildShardsLocked F w' r = Some (shards, keys)
    \<and> m = length (filter (\<lambda>d. d = None) (take (nat (sourceSpan (key g))) (data g)))
    \<and> shards = take (nat (sourceSpan (key g))) (data g) @ map (\<lambda>x. Some (snd x)) (take m (repairs g))
    \<and> keys = map fst (take m (repairs g)) \<and> distinct keys \<and> m \<le> length (repairs g)
    \<and> NewCodec (sourceSpan (key g)) (int m) = Inr c \<and> validate (Some c) shards keys"
proof -
  have inv: "window.inv_but F {} w" using assms(2) window.window_inv_but [OF assms(1)] by simp
  have good: "window.good F w i w' out"
    using assms(3,4) window.addData_good [OF assms(1) inv, of i idx p w' out acc]
      window.addRepair_good [OF assms(1) inv, of i k n s w' out acc] window.expireGroup_good(1) [OF assms(1) inv, of i w' out]
    by (auto simp: no_result_def)
  have ok: "length (data g) = 4"
    using good assms(5) by (auto simp: window.good_def [OF assms(1)] window.inv_but_def [OF assms(1)] group_ok_def)
  note b = window.buildShards_good [OF assms(1) good assms(4,5)]
  show ?thesis
    using b ok by (intro exI conjI) (auto simp: NewCodec_def validate_Some)
qed

lemma demo_repair:
  "\<exists>w out. addRepair rbt_trees (newRxGroupWindow rbt_trees) 5 9 1 [8] = (w, out, True)
    \<and> recoverable out = [\<lparr>rec_group = \<lparr>groupID = 5, sourceSpan = 1\<rparr>, missingMask = 1\<rparr>]
    \<and> t_get (gt rbt_trees) (groups w) 5 = Some ((newGroup 5 1)\<lparr>repairs := [(9, [8])]\<rparr>)"
proof -
  let ?g = "(newGroup 5 1)\<lparr>repairs := [(9, [8])]\<rparr>"
  let ?w0 = "newRxGroupWindow rbt_trees"
  let ?w = "putGroup rbt_trees 5 ?g (putGroup rbt_trees 5 (newGroup 5 1) ?w0)"
  have get: "t_get (gt rbt_trees) (groups ?w) = [5 \<mapsto> ?g]" "t_get (ct rbt_trees) (closed ?w) = Map.empty"
    by (simp_all add: putGroup_def newRxGroupWindow_def)
  have "t_size (gt rbt_trees) (groups ?w) = 1" "t_size (ct rbt_trees) (closed ?w) = 0"
    unfolding rxw.g.size_card rxw.c.size_card get by simp_all
  then have "prune rbt_trees ?w = (?w, no_result)"
    by (simp add: prune_def putGroup_def newRxGroupWindow_def no_result_def)
  moreover have "checkGroup rbt_trees ?g ?w = (?w, no_result\<lparr>recoverable := [\<lparr>rec_group = \<lparr>groupID = 5, sourceSpan = 1\<rparr>, missingMask = 1\<rparr>]\<rparr>)"
    by (simp add: checkGroup_def newGroup_def missingMaskOf_def countMissing_def Let_def)
  ultimately show ?thesis
    using get by (simp add: addRepair_def addRepairTo_def newRxGroupWindow_def hasRepair_def
        newGroup_def andPrune_def add_result_def no_result_def Let_def)
qed

lemma rx_window_shards_witness:
  "\<exists>w r shards c. r = \<lparr>rec_group = \<lparr>groupID = 5, sourceSpan = 1\<rparr>, missingMask = 1\<rparr>
    \<and> buildShardsLocked rbt_trees w r = Some (shards, [9]) \<and> shards = [None, Some [8]]
    \<and> NewCodec 1 1 = Inr c \<and> validate (Some c) shards [9]"
proof -
  obtain w out where d: "addRepair rbt_trees (newRxGroupWindow rbt_trees) 5 9 1 [8] = (w, out, True)"
      "recoverable out = [\<lparr>rec_group = \<lparr>groupID = 5, sourceSpan = 1\<rparr>, missingMask = 1\<rparr>]"
      "t_get (gt rbt_trees) (groups w) 5 = Some ((newGroup 5 1)\<lparr>repairs := [(9, [8])]\<rparr>)"
    using demo_repair by blast
  have inv: "window_inv rbt_trees (newRxGroupWindow rbt_trees)" using rxw.new_sound by (simp add: sound_def)
  show ?thesis
    using rx_window_shards [OF rxw.window_axioms inv disjI2 [OF disjI1 [OF d(1)]] _ d(3), of "hd (recoverable out)"]
    by (simp add: d(2) newGroup_def) (rule exI [of _ w], simp)
qed

text \<open>
  The order of the closed tree does not wrap with the 30-bit group counter of the sender: once it is
  full of larger ids, a group that has just been recovered is forgotten at once, and a late repair
  would open it again.
\<close>

context window
begin

lemma pruneGroups_id: "\<not> (maxGroups w > 0 \<and> int (t_size (gt F) (groups w)) > maxGroups w) \<Longrightarrow> pruneGroups F n w out = (w, out)"
  by (cases n) auto

lemma closed_forgotten:
  assumes inv: "inv_but {} w" and bd: "bounded F w" and max: "maxClosed w = 32768"
    and full: "t_size (ct F) (closed w) = 32768" "\<forall>j \<in> is_closed w. i < j"
    and grp: "get_group w i = Some g" and out: "finishRecovery F w r b m = (w', out)" and i: "groupID (rec_group r) = i"
  shows "t_get (ct F) (closed w') i = None"
proof -
  have id: "groupID (key g) = i" and nc: "t_get (ct F) (closed w) i = None"
    using inv grp by (auto simp: inv_but_def group_ok_def)
  let ?g = "g\<lparr>recovered := True\<rparr>"
  let ?w = "dropGroup F i (closeGroup F i (putGroup F i ?g w))"
  have cl: "closed ?w = t_put (ct F) (closed w) i ()" "maxClosed ?w = maxClosed w"
    using nc by (simp_all add: dropGroup_def closeGroup_def putGroup_def)
  have "dom (get_group ?w) \<subseteq> dom (get_group w)" by (auto simp: putGroup_def)
  then have "t_size (gt F) (groups ?w) \<le> t_size (gt F) (groups w)"
    unfolding g.size_card by (rule card_mono [OF g.finite_dom])
  then have "pruneGroups F n ?w [] = (?w, [])" for n
    using bd by (intro pruneGroups_id) (auto simp: bounded_def putGroup_def)
  moreover have "andPrune F (?w, no_result\<lparr>finished := [doneForGroup ?g True False b m]\<rparr>) = (w', out)"
    using out grp id i by (simp add: finishRecovery_def Let_def)
  ultimately have w': "w' = pruneClosed F (t_size (ct F) (closed ?w)) ?w"
    by (auto simp: andPrune_def prune_def split: prod.splits)
  have dom: "dom (t_get (ct F) (closed ?w)) = insert i (is_closed w)" by (auto simp: cl)
  have card: "card (is_closed w) = 32768" using full(1) by (simp add: c.size_card)
  have size: "t_size (ct F) (closed ?w) = Suc 32768"
    unfolding c.size_card dom using nc card by (simp add: domIff)
  have "i \<le> y" if "y \<in> insert i (is_closed w)" for y
    using that full(2) by (metis insertE less_imp_le order_refl)
  then have "Min (insert i (is_closed w)) = i" by (intro Min_eqI) simp_all
  then have left: "t_left (ct F) (closed ?w) = Some (i, ())" unfolding c.left_min dom by simp
  have stop: "pruneClosed F n x = x" if "int (t_size (ct F) (closed x)) \<le> maxClosed x" for n x
    using that by (cases n) auto
  have step: "pruneClosed F (Suc n) x = x\<lparr>closed := t_remove (ct F) (closed x) k\<rparr>"
    if "t_size (ct F) (closed x) = Suc 32768" "maxClosed x = 32768" "t_left (ct F) (closed x) = Some (k, ())"
      "t_size (ct F) (t_remove (ct F) (closed x) k) = 32768" for n x k
    unfolding pruneClosed.simps(2) using that by (simp add: stop del: retire)
  have "t_size (ct F) (t_remove (ct F) (closed ?w) i) = 32768"
    using c.size_remove [of i "closed ?w"] size dom by simp
  with size left have "w' = ?w\<lparr>closed := t_remove (ct F) (closed ?w) i\<rparr>"
    using step [of ?w i 32768] cl(2) max w' by (simp only: simp_thms)
  then show ?thesis by simp
qed

end

lemma closed_forgotten_after_wrap:
  assumes "window F" "window_inv F w" "bounded F w" "maxClosed w = 32768"
    and "t_size (ct F) (closed w) = 32768" "\<forall>j \<in> dom (t_get (ct F) (closed w)). groupID (rec_group r) < j"
    and "t_get (gt F) (groups w) (groupID (rec_group r)) = Some g" "finishRecovery F w r b m = (w', out)"
  shows "t_get (ct F) (closed w') (groupID (rec_group r)) = None"
  using window.closed_forgotten [OF assms(1) _ assms(3-8) refl] assms(2) window.window_inv_but [OF assms(1)] by simp

end
