(* ===== verification/Leg.thy ===== *)
theory Leg
  imports Prelude Complex_Main
begin

text \<open>
  The two transports of a lane and the choice between them: \<open>internal/transport/transport.go\<close> (the
  addresses), \<open>transport/rtt\<close>, \<open>transport/observer\<close>, \<open>transport/selector\<close> and
  \<open>internal/tunnel/v2/send/leg.go\<close>. A mutex-protected method is one step. The contract of a
  selector is the locale \<open>selector_laws\<close>; both selectors of the source are instances.
\<close>

section \<open>Addresses\<close>

type_synonym kind = u8

abbreviation (input) KindUDP :: kind where "KindUDP \<equiv> 1"
abbreviation (input) KindTCP :: kind where "KindTCP \<equiv> 2"

text \<open>A remote address is a non-nil \<open>net.Addr\<close>, known by its \<open>String\<close>.\<close>

record LegRef =
  Kind :: kind
  EndpointID :: string
  RemoteAddr :: "string option"
  ConnID :: string

definition noRef :: LegRef where
  "noRef = \<lparr>Kind = 0, EndpointID = [], RemoteAddr = None, ConnID = []\<rparr>"

section \<open>Round-trip times\<close>

record estimator =
  srttMS :: u32
  rttvarMS :: u32
  rttSamples :: u32

definition absDiff :: "u32 \<Rightarrow> u32 \<Rightarrow> u32" where
  "absDiff a b = (if a \<ge> b then a - b else b - a)"

definition rttAdd :: "u32 \<Rightarrow> estimator \<Rightarrow> estimator" where
  "rttAdd x e =
    (if rttSamples e = 0 then \<lparr>srttMS = x, rttvarMS = x div 2, rttSamples = 1\<rparr>
     else e\<lparr>rttvarMS := (3 * rttvarMS e + absDiff (srttMS e) x) div 4,
            srttMS := (7 * srttMS e + x) div 8,
            rttSamples := rttSamples e + 1\<rparr>)"

definition SRTT :: "estimator \<Rightarrow> u32 \<times> bool" where
  "SRTT e = (if rttSamples e = 0 then (0, False) else (srttMS e, True))"

definition RTTVAR :: "estimator \<Rightarrow> u32 \<times> bool" where
  "RTTVAR e = (if rttSamples e = 0 then (0, False) else (rttvarMS e, True))"

text \<open>A \<open>time.Duration\<close> in nanoseconds; 2^32 milliseconds fit in its 63 bits.\<close>

definition durationOrZero :: "u32 \<times> bool \<Rightarrow> int" where
  "durationOrZero p = (case p of (ms, ok) \<Rightarrow> if \<not> ok then 0 else uint ms * 1000000)"

section \<open>Observed quality\<close>

record deliveryTracker =
  dt_window :: u64
  dt_samples :: u32

definition recordDelivery :: "bool \<Rightarrow> deliveryTracker \<Rightarrow> deliveryTracker" where
  "recordDelivery onTime t =
    (let w = push_bit 1 (dt_window t) in
     \<lparr>dt_window = (if onTime then w OR 1 else w),
      dt_samples = (if dt_samples t < 32 then dt_samples t + 1 else dt_samples t)\<rparr>)"

definition onesCount64 :: "u64 \<Rightarrow> nat" where
  "onesCount64 w = length (filter (bit w) [0..<64])"

text \<open>The rate is the exact quotient here, a rounded \<open>float64\<close> in the source.\<close>

definition rate :: "deliveryTracker \<Rightarrow> rat" where
  "rate t =
    (if dt_samples t < 8 then 1
     else let m = drop_bit (64 - unat (dt_samples t)) (NOT 0)
          in of_nat (onesCount64 (dt_window t AND m)) / of_nat (unat (dt_samples t)))"

record qosStatus =
  q_active :: bool
  q_deliveredBps :: u32

record observer =
  udpDelivery :: deliveryTracker
  tcpDelivery :: deliveryTracker
  udpRTT :: estimator
  tcpRTT :: estimator
  preferTCP :: bool
  qosSeen :: bool
  udpQoS :: qosStatus
  tcpQoS :: qosStatus

definition newObserver :: observer where
  "newObserver =
    (let d = \<lparr>dt_window = 0, dt_samples = 0\<rparr>; e = \<lparr>srttMS = 0, rttvarMS = 0, rttSamples = 0\<rparr>;
         q = \<lparr>q_active = False, q_deliveredBps = 0\<rparr>
     in \<lparr>udpDelivery = d, tcpDelivery = d, udpRTT = e, tcpRTT = e, preferTCP = False,
         qosSeen = False, udpQoS = q, tcpQoS = q\<rparr>)"

record observed =
  DeliveryRate :: rat
  SmoothedRTT :: int
  RTTVariance :: int
  o_PreferTCP :: bool
  QoSSeen :: bool
  o_QoSActive :: bool
  o_QoSDeliveredBps :: u32

definition applyQoS :: "qosStatus \<Rightarrow> observed \<Rightarrow> observed" where
  "applyQoS s q = (if \<not> q_active s then q else q\<lparr>o_QoSActive := True, o_QoSDeliveredBps := q_deliveredBps s\<rparr>)"

definition UDPAt :: "observer \<Rightarrow> observed" where
  "UDPAt ob = applyQoS (udpQoS ob)
    \<lparr>DeliveryRate = rate (udpDelivery ob), SmoothedRTT = durationOrZero (SRTT (udpRTT ob)),
     RTTVariance = durationOrZero (RTTVAR (udpRTT ob)), o_PreferTCP = preferTCP ob,
     QoSSeen = qosSeen ob, o_QoSActive = False, o_QoSDeliveredBps = 0\<rparr>"

definition TCPAt :: "observer \<Rightarrow> observed" where
  "TCPAt ob = applyQoS (tcpQoS ob)
    \<lparr>DeliveryRate = rate (tcpDelivery ob), SmoothedRTT = durationOrZero (SRTT (tcpRTT ob)),
     RTTVariance = durationOrZero (RTTVAR (tcpRTT ob)), o_PreferTCP = False,
     QoSSeen = qosSeen ob, o_QoSActive = False, o_QoSDeliveredBps = 0\<rparr>"

definition SetPreferTCP :: "bool \<Rightarrow> observer \<Rightarrow> observer" where
  "SetPreferTCP p ob = ob\<lparr>preferTCP := p\<rparr>"

definition OnDelivery :: "kind \<Rightarrow> bool \<Rightarrow> observer \<Rightarrow> observer" where
  "OnDelivery k onTime ob =
    (if k = KindUDP then ob\<lparr>udpDelivery := recordDelivery onTime (udpDelivery ob)\<rparr>
     else if k = KindTCP then ob\<lparr>tcpDelivery := recordDelivery onTime (tcpDelivery ob)\<rparr>
     else ob)"

definition OnQoSStatus :: "bool \<Rightarrow> u32 \<Rightarrow> bool \<Rightarrow> u32 \<Rightarrow> observer \<Rightarrow> observer" where
  "OnQoSStatus udpLimited udpBps tcpLimited tcpBps ob =
    ob\<lparr>qosSeen := True, udpQoS := \<lparr>q_active = udpLimited, q_deliveredBps = udpBps\<rparr>,
      tcpQoS := \<lparr>q_active = tcpLimited, q_deliveredBps = tcpBps\<rparr>\<rparr>"

definition OnRTTSample :: "kind \<Rightarrow> u32 \<Rightarrow> observer \<Rightarrow> observer" where
  "OnRTTSample k ms ob =
    (if k = KindUDP then ob\<lparr>udpRTT := rttAdd ms (udpRTT ob)\<rparr>
     else if k = KindTCP then ob\<lparr>tcpRTT := rttAdd ms (tcpRTT ob)\<rparr>
     else ob)"

section \<open>Selectors\<close>

record quality =
  Active :: bool
  PreferTCP :: bool
  QoSActive :: bool
  QoSDeliveredBps :: u32

text \<open>\<open>Pick\<close> returns \<open>(useUDP, ok)\<close>.\<close>

type_synonym selector = "quality \<Rightarrow> quality \<Rightarrow> bool \<times> bool"

definition qosPreferredStateless :: selector where
  "qosPreferredStateless udp tcp =
    (if QoSActive udp \<and> \<not> QoSActive tcp then (False, True)
     else if \<not> QoSActive udp \<and> QoSActive tcp then (True, True)
     else if QoSActive udp \<and> QoSActive tcp then
       (if QoSDeliveredBps tcp > QoSDeliveredBps udp then (False, True) else (True, True))
     else (False, False))"

definition qualityPick :: selector where
  "qualityPick udp tcp =
    (if \<not> Active udp \<and> \<not> Active tcp then (False, False)
     else if Active udp \<and> \<not> Active tcp then (True, True)
     else if \<not> Active udp \<and> Active tcp then (False, True)
     else case qosPreferredStateless udp tcp of (useUDP, ok) \<Rightarrow>
       if ok then (useUDP, True)
       else if PreferTCP udp then (False, True)
       else (True, True))"

definition udpPreferPick :: selector where
  "udpPreferPick udp tcp =
    (if Active udp then (True, True) else if Active tcp then (False, True) else (False, False))"

locale selector_laws =
  fixes pick :: selector
  assumes finds: "snd (pick u t) \<longleftrightarrow> Active u \<or> Active t"
    and udp_active: "pick u t = (True, True) \<Longrightarrow> Active u"
    and tcp_active: "pick u t = (False, True) \<Longrightarrow> Active t"
begin

lemma only_udp: "Active u \<Longrightarrow> \<not> Active t \<Longrightarrow> pick u t = (True, True)"
  using finds [of u t] tcp_active [of u t] by (cases "pick u t") auto

lemma only_tcp: "\<not> Active u \<Longrightarrow> Active t \<Longrightarrow> pick u t = (False, True)"
  using finds [of u t] udp_active [of u t] by (cases "pick u t") auto

end

interpretation quality_selector: selector_laws qualityPick
  by unfold_locales (auto simp: qualityPick_def qosPreferredStateless_def split: if_splits prod.splits)

interpretation udp_prefer_selector: selector_laws udpPreferPick
  by unfold_locales (auto simp: udpPreferPick_def split: if_splits)

section \<open>The leg\<close>

datatype role = rolePrimary | roleShadow

text \<open>The dial bookkeeping of \<open>legTransport\<close> is written only by \<open>bindTCP\<close>: the dialer keeps its own.\<close>

record legTransport =
  ref :: LegRef
  active :: bool
  dialing :: bool

record leg =
  udp :: legTransport
  tcp :: legTransport
  primaryKind :: kind
  leg_selector :: selector
  leg_observer :: observer

definition newLeg :: "kind \<Rightarrow> selector option \<Rightarrow> leg" where
  "newLeg k sel =
    (let t = \<lparr>ref = noRef, active = False, dialing = False\<rparr>
     in \<lparr>udp = t, tcp = t, primaryKind = k,
         leg_selector = (case sel of None \<Rightarrow> qualityPick | Some s \<Rightarrow> s), leg_observer = newObserver\<rparr>)"

definition bindUDP :: "LegRef \<Rightarrow> leg \<Rightarrow> leg" where
  "bindUDP r g = g\<lparr>udp := (udp g)\<lparr>ref := r\<rparr>\<rparr>"

definition bindTCP :: "LegRef \<Rightarrow> leg \<Rightarrow> leg" where
  "bindTCP r g = g\<lparr>tcp := (tcp g)\<lparr>ref := r, dialing := False\<rparr>\<rparr>"

definition setActive :: "bool \<Rightarrow> kind \<Rightarrow> leg \<Rightarrow> leg" where
  "setActive a k g =
    (if k = KindUDP then g\<lparr>udp := (udp g)\<lparr>active := a\<rparr>\<rparr>
     else if k = KindTCP then g\<lparr>tcp := (tcp g)\<lparr>active := a\<rparr>\<rparr>
     else g)"

definition markActive :: "kind \<Rightarrow> leg \<Rightarrow> leg" where "markActive = setActive True"
definition markDown :: "kind \<Rightarrow> leg \<Rightarrow> leg" where "markDown = setActive False"

definition observeRTT :: "kind \<Rightarrow> u32 \<Rightarrow> leg \<Rightarrow> leg" where
  "observeRTT k ms g = g\<lparr>leg_observer := OnRTTSample k ms (leg_observer g)\<rparr>"

definition observeDelivery :: "kind \<Rightarrow> bool \<Rightarrow> leg \<Rightarrow> leg" where
  "observeDelivery k onTime g = g\<lparr>leg_observer := OnDelivery k onTime (leg_observer g)\<rparr>"

definition setPreferTCP :: "bool \<Rightarrow> leg \<Rightarrow> leg" where
  "setPreferTCP p g = g\<lparr>leg_observer := SetPreferTCP p (leg_observer g)\<rparr>"

definition observeQoSStatus :: "bool \<Rightarrow> u32 \<Rightarrow> bool \<Rightarrow> u32 \<Rightarrow> leg \<Rightarrow> leg" where
  "observeQoSStatus ul ub tlim tb g = g\<lparr>leg_observer := OnQoSStatus ul ub tlim tb (leg_observer g)\<rparr>"

definition srtt :: "kind \<Rightarrow> leg \<Rightarrow> int" where
  "srtt k g =
    (if k = KindUDP then SmoothedRTT (UDPAt (leg_observer g))
     else if k = KindTCP then SmoothedRTT (TCPAt (leg_observer g)) else 0)"

definition isActive :: "kind \<Rightarrow> leg \<Rightarrow> bool" where
  "isActive k g = (if k = KindUDP then active (udp g) else if k = KindTCP then active (tcp g) else False)"

definition anyActive :: "leg \<Rightarrow> bool" where
  "anyActive g \<longleftrightarrow> active (udp g) \<or> active (tcp g)"

definition refForKind :: "kind \<Rightarrow> leg \<Rightarrow> LegRef" where
  "refForKind k g = (if k = KindUDP then ref (udp g) else if k = KindTCP then ref (tcp g) else noRef)"

definition qualityLocked :: "kind \<Rightarrow> bool \<Rightarrow> leg \<Rightarrow> quality" where
  "qualityLocked k qosEnabled g =
    (let oq = (if k = KindUDP then UDPAt (leg_observer g)
               else if k = KindTCP then TCPAt (leg_observer g)
               else \<lparr>DeliveryRate = 0, SmoothedRTT = 0, RTTVariance = 0, o_PreferTCP = False,
                     QoSSeen = False, o_QoSActive = False, o_QoSDeliveredBps = 0\<rparr>);
         p = (if qosEnabled \<and> QoSSeen oq then False else o_PreferTCP oq);
         q = \<lparr>Active = isActive k g, PreferTCP = p, QoSActive = False, QoSDeliveredBps = 0\<rparr>
     in if \<not> qosEnabled then q
        else q\<lparr>QoSActive := o_QoSActive oq, QoSDeliveredBps := o_QoSDeliveredBps oq\<rparr>)"

definition qualitySnapshot :: "leg \<Rightarrow> quality \<times> quality" where
  "qualitySnapshot g = (qualityLocked KindUDP True g, qualityLocked KindTCP True g)"

definition otherKind :: "kind \<Rightarrow> kind" where
  "otherKind k = (if k = KindUDP then KindTCP else KindUDP)"

definition selectRefWithQoS :: "role \<Rightarrow> bool \<Rightarrow> leg \<Rightarrow> LegRef" where
  "selectRefWithQoS r qosEnabled g =
    (if \<not> active (udp g) \<and> \<not> active (tcp g) then noRef
     else if active (udp g) \<and> \<not> active (tcp g) then ref (udp g)
     else if \<not> active (udp g) \<and> active (tcp g) then ref (tcp g)
     else case leg_selector g (qualityLocked KindUDP qosEnabled g) (qualityLocked KindTCP qosEnabled g) of
       (useUDP, ok) \<Rightarrow>
         if \<not> ok then noRef
         else let dataKind = (if useUDP then KindUDP else KindTCP); shadowKind = otherKind dataKind
              in case r of roleShadow \<Rightarrow> refForKind shadowKind g | rolePrimary \<Rightarrow> refForKind dataKind g)"

definition setPrimary :: "kind \<Rightarrow> leg \<Rightarrow> leg" where
  "setPrimary k g = (if k \<noteq> KindUDP \<and> k \<noteq> KindTCP then g else g\<lparr>primaryKind := k\<rparr>)"

definition noteQoSSelectedPrimary :: "kind \<Rightarrow> bool \<Rightarrow> leg \<Rightarrow> leg \<times> kind \<times> bool" where
  "noteQoSSelectedPrimary k qosActive g =
    (if k \<noteq> KindUDP \<and> k \<noteq> KindTCP then (g, 0, False)
     else let previous = primaryKind g in
       if \<not> qosActive \<and> \<not> (previous = KindTCP \<and> k = KindUDP) then (g, previous, False)
       else if previous = k then (g, previous, False)
       else (g\<lparr>primaryKind := k\<rparr>, previous, True))"

section \<open>Bounds of the estimates\<close>

lemma unat_scale_add:
  fixes k a b :: u32
  assumes "unat k * unat a + unat b < 2 ^ 32"
  shows "unat (k * a + b) = unat k * unat a + unat b"
  using assms by (simp add: unat_word_ariths)

definition est_within :: "nat \<Rightarrow> nat \<Rightarrow> estimator \<Rightarrow> bool" where
  "est_within lo hi e \<longleftrightarrow> lo \<le> unat (srttMS e) \<and> unat (srttMS e) \<le> hi \<and> unat (rttvarMS e) \<le> hi"

lemma unat_absDiff: "unat (absDiff a b) = (if unat b \<le> unat a then unat a - unat b else unat b - unat a)"
  by (simp add: absDiff_def word_le_nat_alt unat_sub)

lemma within_first: "lo \<le> unat x \<Longrightarrow> unat x \<le> hi \<Longrightarrow> est_within lo hi \<lparr>srttMS = x, rttvarMS = x div 2, rttSamples = n\<rparr>"
  by (auto simp: est_within_def unat_div)

lemma within_rttAdd:
  assumes e: "est_within lo hi e" and x: "lo \<le> unat x" "unat x \<le> hi" and hi: "hi < 2 ^ 29"
  shows "est_within lo hi (rttAdd x e)"
proof (cases "rttSamples e = 0")
  case False
  have s: "unat (7 * srttMS e + x) = 7 * unat (srttMS e) + unat x"
    using unat_scale_add [of 7 "srttMS e" x] e x hi by (simp add: est_within_def)
  have d: "unat (absDiff (srttMS e) x) \<le> hi" using e x by (auto simp: est_within_def unat_absDiff)
  have v: "unat (3 * rttvarMS e + absDiff (srttMS e) x) = 3 * unat (rttvarMS e) + unat (absDiff (srttMS e) x)"
    using unat_scale_add [of 3 "rttvarMS e" "absDiff (srttMS e) x"] e hi d by (simp add: est_within_def)
  from d show ?thesis using False e x by (auto simp: rttAdd_def est_within_def unat_div s v)
qed (simp add: rttAdd_def within_first x)

lemma rtt_run:
  assumes "\<forall>x \<in> set xs. lo \<le> unat x \<and> unat x \<le> hi" "hi < 2 ^ 29" "est_within lo hi e \<or> xs \<noteq> [] \<and> rttSamples e = 0"
  shows "est_within lo hi (fold rttAdd xs e) \<and> rttSamples (fold rttAdd xs e) = rttSamples e + of_nat (length xs)"
  using assms
proof (induction xs arbitrary: e)
  case (Cons x xs)
  have "est_within lo hi (rttAdd x e)"
    using Cons.prems within_rttAdd [of lo hi e x] within_first [of lo x hi] by (auto simp: rttAdd_def)
  with Cons.IH [of "rttAdd x e"] Cons.prems show ?case by (simp add: rttAdd_def)
qed simp

text \<open> C16: Bounds of the RTT estimate. Over samples between lo and hi, hi below 2^29 ms, the 32-bit update
  rule never wraps: a reported SRTT lies between lo and hi, and a reported RTTVAR is at most hi. \<close>

theorem rtt_bounds:
  assumes "\<forall>x \<in> set xs. lo \<le> unat x \<and> unat x \<le> hi" "hi < 2 ^ 29"
  shows "(snd (SRTT (fold rttAdd xs (udpRTT newObserver))) \<longleftrightarrow> (of_nat (length xs) :: u32) \<noteq> 0)
    \<and> (\<forall>s. SRTT (fold rttAdd xs (udpRTT newObserver)) = (s, True) \<longrightarrow> lo \<le> unat s \<and> unat s \<le> hi)
    \<and> (\<forall>v. RTTVAR (fold rttAdd xs (udpRTT newObserver)) = (v, True) \<longrightarrow> unat v \<le> hi)"
proof (cases "xs = []")
  case True
  then show ?thesis by (simp add: SRTT_def RTTVAR_def newObserver_def Let_def)
next
  case False
  have "rttSamples (udpRTT newObserver) = 0" by (simp add: newObserver_def Let_def)
  with rtt_run [OF assms, of "udpRTT newObserver"] False show ?thesis
    by (simp add: SRTT_def RTTVAR_def est_within_def)
qed

lemma rtt_bounds_witness:
  "40 \<le> unat (fst (SRTT (fold rttAdd [40, 80, 50] (udpRTT newObserver))))
    \<and> unat (fst (SRTT (fold rttAdd [40, 80, 50] (udpRTT newObserver)))) \<le> 80"
  using rtt_bounds [of "[40, 80, 50]" 40 80] by (cases "SRTT (fold rttAdd [40, 80, 50] (udpRTT newObserver))") auto

section \<open>The delivery window\<close>

lemma bit_double: "bit (w * 2 :: u64) j \<longleftrightarrow> 0 < j \<and> j < 64 \<and> bit w (j - 1)"
  using bit_push_bit_iff [of 1 w j] bit_imp_le_length [of "w * 2" j] by (cases j) auto

lemma bit_recorded:
  "bit (dt_window (fold recordDelivery xs t)) i \<longleftrightarrow>
    (if i < length xs then i < 64 \<and> rev xs ! i else i < 64 \<and> bit (dt_window t) (i - length xs))"
proof (induction xs arbitrary: t)
  case Nil
  then show ?case using bit_imp_le_length [of "dt_window t" i] by auto
next
  case (Cons x xs)
  have "bit (dt_window (recordDelivery x t)) j \<longleftrightarrow> (if j = 0 then x else j < 64 \<and> bit (dt_window t) (j - 1))" for j
    by (auto simp: recordDelivery_def Let_def bit_or_iff bit_1_iff bit_double)
  then show ?case unfolding fold_simps Cons.IH by (auto simp: nth_append)
qed

lemma recorded_samples:
  "unat (dt_samples t) \<le> 32 \<Longrightarrow> unat (dt_samples (fold recordDelivery xs t)) = min 32 (unat (dt_samples t) + length xs)"
proof (induction xs arbitrary: t)
  case (Cons x xs)
  have "unat (dt_samples (recordDelivery x t)) = min 32 (unat (dt_samples t) + 1)"
    using Cons.prems by (auto simp: recordDelivery_def Let_def word_less_nat_alt unat_word_ariths)
  with Cons.IH [of "recordDelivery x t"] show ?case by simp
qed simp

lemma ones_of_window:
  assumes "n \<le> 32" "n \<le> length ys" "\<And>i. i < n \<Longrightarrow> bit w i = ys ! i"
  shows "onesCount64 (w AND drop_bit (64 - n) (NOT 0)) = count_list (take n ys) True"
proof -
  have "bit (drop_bit (64 - n) (NOT 0) :: u64) i \<longleftrightarrow> i < n" for i
    using assms(1) by (auto simp: bit_drop_bit_eq bit_not_iff bit_mask_iff)
  moreover have split: "[0..<64] = [0..<n] @ [n..<64]"
    using assms(1) upt_add_eq_append [of 0 n "64 - n"] by simp
  ultimately have "filter (bit (w AND drop_bit (64 - n) (NOT 0))) [0..<64] = filter (\<lambda>i. i < n \<and> ys ! i) [0..<64]"
    using assms(3) by (intro filter_cong) (auto simp: bit_and_iff)
  also have "\<dots> = filter ((!) ys) [0..<n]"
    unfolding split by (auto simp: filter_empty_conv intro: filter_cong)
  finally have "onesCount64 (w AND drop_bit (64 - n) (NOT 0)) = length (filter ((!) ys) [0..<n])"
    unfolding onesCount64_def by (rule arg_cong)
  also have "\<dots> = count_list (map ((!) ys) [0..<n]) True"
    by (simp add: count_list_eq_length_filter filter_map o_def)
  also have "map ((!) ys) [0..<n] = take n ys"
    using assms(2) by (intro nth_equalityI) auto
  finally show ?thesis .
qed

text \<open> C17: The delivery rate. The bit mask refines the list of all outcomes: the rate is 1 before the
  eighth sample and afterwards the share of successes among the last 32 outcomes. \<close>

theorem delivery_rate:
  "rate (fold recordDelivery xs (udpDelivery newObserver)) =
    (if length xs < 8 then 1
     else of_nat (count_list (take 32 (rev xs)) True) / of_nat (min 32 (length xs)))"
proof -
  let ?t = "fold recordDelivery xs (udpDelivery newObserver)"
  have n: "unat (dt_samples ?t) = min 32 (length xs)"
    using recorded_samples [of "udpDelivery newObserver" xs] by (simp add: newObserver_def Let_def)
  have "onesCount64 (dt_window ?t AND drop_bit (64 - min 32 (length xs)) (NOT 0)) = count_list (take (min 32 (length xs)) (rev xs)) True"
    by (rule ones_of_window) (auto simp: bit_recorded)
  then show ?thesis by (auto simp: rate_def Let_def word_less_nat_alt n min_def)
qed

section \<open>Roles\<close>

lemma quality_active [simp]:
  "Active (qualityLocked 1 q g) = active (udp g)" "Active (qualityLocked 2 q g) = active (tcp g)"
  by (simp_all add: qualityLocked_def isActive_def Let_def)

lemma observer_quality [simp]:
  "QoSSeen (UDPAt ob) = qosSeen ob" "QoSSeen (TCPAt ob) = qosSeen ob"
  "o_PreferTCP (UDPAt ob) = preferTCP ob" "o_PreferTCP (TCPAt ob) = False"
  "o_QoSActive (UDPAt ob) = q_active (udpQoS ob)" "o_QoSActive (TCPAt ob) = q_active (tcpQoS ob)"
  "o_QoSDeliveredBps (UDPAt ob) = (if q_active (udpQoS ob) then q_deliveredBps (udpQoS ob) else 0)"
  "o_QoSDeliveredBps (TCPAt ob) = (if q_active (tcpQoS ob) then q_deliveredBps (tcpQoS ob) else 0)"
  by (simp_all add: UDPAt_def TCPAt_def applyQoS_def)

lemma select_roles:
  assumes "selector_laws (leg_selector g)" "Kind (ref (udp g)) = KindUDP" "Kind (ref (tcp g)) = KindTCP"
  shows "(Kind (selectRefWithQoS r q g) = 0 \<longleftrightarrow> \<not> anyActive g)
    \<and> (anyActive g \<longrightarrow> isActive (Kind (selectRefWithQoS r q g)) g
                     \<and> selectRefWithQoS r q g = refForKind (Kind (selectRefWithQoS r q g)) g)
    \<and> (Kind (selectRefWithQoS roleShadow q g) \<noteq> Kind (selectRefWithQoS rolePrimary q g)
         \<longleftrightarrow> active (udp g) \<and> active (tcp g))
    \<and> (active (udp g) \<and> active (tcp g) \<longrightarrow>
         (selectRefWithQoS rolePrimary q g = ref (udp g) \<longleftrightarrow>
            fst (leg_selector g (qualityLocked KindUDP q g) (qualityLocked KindTCP q g))))"
proof -
  obtain u ok where p: "leg_selector g (qualityLocked 1 q g) (qualityLocked 2 q g) = (u, ok)"
    by (meson surj_pair)
  have "ok \<longleftrightarrow> active (udp g) \<or> active (tcp g)"
    using selector_laws.finds [OF assms(1), of "qualityLocked 1 q g" "qualityLocked 2 q g"] p by simp
  then show ?thesis
    using p assms(2,3)
    by (cases r; cases "active (udp g)"; cases "active (tcp g)"; cases u)
       (auto simp: selectRefWithQoS_def anyActive_def isActive_def refForKind_def otherKind_def noRef_def Let_def)
qed

text \<open>What the primary role carries when both transports are up and the source's selector is used.\<close>

lemma quality_primary:
  assumes "leg_selector g = qualityPick" "active (udp g)" "active (tcp g)"
  shows "selectRefWithQoS rolePrimary q g =
    (if (let u = udpQoS (leg_observer g); t = tcpQoS (leg_observer g) in
         if q \<and> (q_active u \<or> q_active t)
         then q_active u \<and> (q_active t \<longrightarrow> q_deliveredBps t > q_deliveredBps u)
         else preferTCP (leg_observer g) \<and> \<not> (q \<and> qosSeen (leg_observer g)))
     then ref (tcp g) else ref (udp g))"
  using assms
  by (auto simp: selectRefWithQoS_def qualityPick_def qosPreferredStateless_def qualityLocked_def
      isActive_def refForKind_def Let_def)

text \<open> C18: The two roles of a leg. Whatever the transports' states, DATA and REPAIR go to a transport that
  is up, and to none exactly when both are down. One transport that is up carries both. When both are
  up, DATA takes the selector's choice and REPAIR the other one. \<close>

theorem leg_roles:
  assumes "selector_laws (leg_selector g)" "Kind (ref (udp g)) = KindUDP" "Kind (ref (tcp g)) = KindTCP"
  shows "(Kind (selectRefWithQoS r q g) = 0 \<longleftrightarrow> \<not> anyActive g)
    \<and> (anyActive g \<longrightarrow> isActive (Kind (selectRefWithQoS r q g)) g
                     \<and> selectRefWithQoS r q g = refForKind (Kind (selectRefWithQoS r q g)) g)
    \<and> (Kind (selectRefWithQoS roleShadow q g) \<noteq> Kind (selectRefWithQoS rolePrimary q g)
         \<longleftrightarrow> active (udp g) \<and> active (tcp g))
    \<and> (active (udp g) \<and> active (tcp g) \<longrightarrow>
         (selectRefWithQoS rolePrimary q g = ref (udp g) \<longleftrightarrow>
            fst (leg_selector g (qualityLocked KindUDP q g) (qualityLocked KindTCP q g))))"
  using select_roles [OF assms] .

definition demo_leg :: leg where
  "demo_leg = markActive KindTCP (markActive KindUDP
     (bindTCP \<lparr>Kind = KindTCP, EndpointID = [], RemoteAddr = None, ConnID = ''c''\<rparr>
       (bindUDP \<lparr>Kind = KindUDP, EndpointID = ''e'', RemoteAddr = Some ''r'', ConnID = []\<rparr> (newLeg KindUDP None))))"

lemma demo_leg_simps [simp]:
  "leg_selector demo_leg = qualityPick" "active (udp demo_leg)" "active (tcp demo_leg)"
  "ref (udp demo_leg) = \<lparr>Kind = 1, EndpointID = ''e'', RemoteAddr = Some ''r'', ConnID = []\<rparr>"
  "ref (tcp demo_leg) = \<lparr>Kind = 2, EndpointID = [], RemoteAddr = None, ConnID = ''c''\<rparr>"
  by (simp_all add: demo_leg_def markActive_def setActive_def bindTCP_def bindUDP_def newLeg_def Let_def)

lemma leg_roles_witness:
  "Kind (selectRefWithQoS roleShadow True demo_leg) \<noteq> Kind (selectRefWithQoS rolePrimary True demo_leg)"
  using leg_roles [of demo_leg rolePrimary True] quality_selector.selector_laws_axioms by simp

text \<open> C19: Steering by received link quality. While both transports are up, a link status moves DATA off
  a limited transport, and to the faster one when both are limited; from the first status on it overrides
  the probe's TCP preference, which decides only while quality selection is off or no status came. \<close>

theorem qos_steering:
  assumes "leg_selector g = qualityPick" "active (udp g)" "active (tcp g)"
  shows "selectRefWithQoS rolePrimary True (observeQoSStatus ul ub tlim tb g) =
      (if ul \<and> (tlim \<longrightarrow> tb > ub) then ref (tcp g) else ref (udp g))
    \<and> selectRefWithQoS rolePrimary False (setPreferTCP p (observeQoSStatus ul ub tlim tb g)) =
      (if p then ref (tcp g) else ref (udp g))
    \<and> (leg_observer g = newObserver \<longrightarrow> selectRefWithQoS rolePrimary True (setPreferTCP p g) =
      (if p then ref (tcp g) else ref (udp g)))"
  using assms
  by (auto simp: quality_primary observeQoSStatus_def OnQoSStatus_def setPreferTCP_def SetPreferTCP_def
      newObserver_def Let_def)

lemma qos_steering_witness:
  "selectRefWithQoS rolePrimary True (observeQoSStatus True 5 True 9 demo_leg) = ref (tcp demo_leg)"
  using qos_steering [of demo_leg True 5 True 9] by simp

end
