(* ===== verification/Lane.thy ===== *)
theory Lane
  imports Leg Schedule
begin

text \<open>
  \<open>internal/tunnel/v2/send/lane.go\<close>: the runtime state of a lane, which is its leg, its scheduling
  weight and its FEC transmit window. The window numbers the DATA packets of the lane by group and
  index and retains those that a REPAIR must protect. A method is one step, as the source holds the
  lane's mutex over it; a method that the source allows on a nil lane takes an option.
\<close>

section \<open>The transmit window\<close>

abbreviation (input) maxFECSourceSpan :: int where "maxFECSourceSpan \<equiv> 4"
abbreviation (input) maxTxGroupID :: u32 where "maxTxGroupID \<equiv> 0x3FFFFFFF"

record txSLCWindow =
  sourceCount :: int
  nextGroupID :: u32
  activeGroupID :: u32
  nextIndex :: u8
  pending :: "bytes list"

record txRepairGroup =
  tx_groupID :: u32
  tx_sourceSpan :: u8
  tx_packets :: "bytes list"

definition newTxSLCWindow :: "int \<Rightarrow> txSLCWindow" where
  "newTxSLCWindow n = \<lparr>sourceCount = n, nextGroupID = 0, activeGroupID = 0, nextIndex = 0, pending = []\<rparr>"

text \<open>The result of \<open>add\<close> is \<open>None\<close> where the source panics, on a pending list shorter than the group
  it completes. A group is \<open>Some\<close> exactly where the source reports it ready.\<close>

definition txAdd :: "bytes \<Rightarrow> bool \<Rightarrow> txSLCWindow \<Rightarrow> (txSLCWindow \<times> u32 \<times> u8 \<times> txRepairGroup option) option" where
  "txAdd packet retain w =
    (if sourceCount w \<le> 0 then Some (w, 0, 0, None)
     else
       let w = (if retain \<and> length (pending w) = 0 \<and> nextIndex w \<noteq> 0 then w\<lparr>nextIndex := 0\<rparr> else w);
           w = (if nextIndex w = 0
                then w\<lparr>activeGroupID := nextGroupID w, nextGroupID := (nextGroupID w + 1) AND maxTxGroupID\<rparr>
                else w);
           groupID = activeGroupID w; sourceIndex = nextIndex w;
           w = w\<lparr>nextIndex := nextIndex w + 1\<rparr>;
           w = (if retain then w\<lparr>pending := pending w @ [packet]\<rparr> else w)
       in if int (unat (nextIndex w)) < sourceCount w then Some (w, groupID, sourceIndex, None)
          else let w = w\<lparr>nextIndex := 0\<rparr> in
            if \<not> retain then Some (w, groupID, sourceIndex, None)
            else if nat (sourceCount w) > length (pending w) then None
            else Some (w\<lparr>pending := []\<rparr>, groupID, sourceIndex,
              Some \<lparr>tx_groupID = groupID, tx_sourceSpan = word_of_int (sourceCount w),
                    tx_packets = take (nat (sourceCount w)) (pending w)\<rparr>))"

definition txFlush :: "txSLCWindow \<Rightarrow> txSLCWindow \<times> txRepairGroup option" where
  "txFlush w =
    (if sourceCount w \<le> 0 \<or> length (pending w) = 0 then (w, None)
     else if int (unat (nextIndex w)) \<ge> sourceCount w then (w, None)
     else (w\<lparr>pending := [], nextIndex := 0\<rparr>,
       Some \<lparr>tx_groupID = activeGroupID w, tx_sourceSpan = of_nat (length (pending w)), tx_packets = pending w\<rparr>))"

definition txReleaseAll :: "txSLCWindow \<Rightarrow> txSLCWindow" where
  "txReleaseAll w = w\<lparr>pending := [], nextIndex := 0\<rparr>"

section \<open>The lane\<close>

text \<open>\<open>fecFlushTimer\<close> is \<open>None\<close> for a nil timer and otherwise tells whether the timer runs.\<close>

record laneRuntime =
  lane_id :: u8
  weight :: u32
  lane_leg :: leg
  hasDialer :: bool
  tcpReconnectPending :: bool
  txWindow :: "txSLCWindow option"
  fecRepairCount :: u8
  fecFlushTimer :: "bool option"
  fecFlushArmed :: bool

definition newLaneRuntime :: "u8 \<Rightarrow> u32 \<Rightarrow> laneRuntime" where
  "newLaneRuntime i w =
    \<lparr>lane_id = i, weight = w, lane_leg = newLeg KindUDP (Some qualityPick), hasDialer = False,
     tcpReconnectPending = False, txWindow = Some (newTxSLCWindow maxFECSourceSpan),
     fecRepairCount = 1, fecFlushTimer = None, fecFlushArmed = False\<rparr>"

definition laneWeight :: "laneRuntime option \<Rightarrow> u32" where
  "laneWeight l = (case l of None \<Rightarrow> 0 | Some l \<Rightarrow> weight l)"

definition currentFECRepairCount :: "laneRuntime option \<Rightarrow> u8" where
  "currentFECRepairCount l =
    (case l of None \<Rightarrow> 1 | Some l \<Rightarrow> if fecRepairCount l = 0 then 1 else fecRepairCount l)"

definition laneCost :: "laneRuntime option \<Rightarrow> u32 \<Rightarrow> u32" where
  "laneCost l c = c * ucast (currentFECRepairCount l)"

definition ready :: "laneRuntime option \<Rightarrow> bool" where
  "ready l = (case l of None \<Rightarrow> False | Some l \<Rightarrow> anyActive (lane_leg l))"

definition primaryTransport :: "bool \<Rightarrow> laneRuntime \<Rightarrow> LegRef" where
  "primaryTransport q l = selectRefWithQoS rolePrimary q (lane_leg l)"

definition shadowTransport :: "bool \<Rightarrow> laneRuntime \<Rightarrow> LegRef" where
  "shadowTransport q l = selectRefWithQoS roleShadow q (lane_leg l)"

definition chooseControlTransport :: "bool \<Rightarrow> laneRuntime \<Rightarrow> LegRef" where
  "chooseControlTransport q l = selectRefWithQoS rolePrimary q (lane_leg l)"

text \<open>The forwarders to the leg, and the two atomic operations on the reconnect flag.\<close>

definition onLeg :: "(leg \<Rightarrow> leg) \<Rightarrow> laneRuntime \<Rightarrow> laneRuntime" where
  "onLeg f l = l\<lparr>lane_leg := f (lane_leg l)\<rparr>"

definition markTCPReconnectPending :: "laneRuntime \<Rightarrow> laneRuntime" where
  "markTCPReconnectPending l = l\<lparr>tcpReconnectPending := True\<rparr>"

definition consumeTCPReconnectPending :: "laneRuntime \<Rightarrow> laneRuntime \<times> bool" where
  "consumeTCPReconnectPending l = (l\<lparr>tcpReconnectPending := False\<rparr>, tcpReconnectPending l)"

definition setFEC :: "u8 \<Rightarrow> laneRuntime \<Rightarrow> laneRuntime" where
  "setFEC n l = (if n = 0 \<or> n > 4 then l else l\<lparr>fecRepairCount := n\<rparr>)"

text \<open>\<open>laneQoSInput.OnQoSStatus\<close> on a non-nil lane.\<close>

definition laneOnQoSStatus :: "bool \<Rightarrow> u32 \<Rightarrow> bool \<Rightarrow> u32 \<Rightarrow> u8 \<Rightarrow> laneRuntime \<Rightarrow> laneRuntime" where
  "laneOnQoSStatus ul ub tlim tb n l = setFEC n (onLeg (observeQoSStatus ul ub tlim tb) l)"

definition cancelFECFlushTimerLocked :: "laneRuntime \<Rightarrow> laneRuntime" where
  "cancelFECFlushTimerLocked l =
    (case fecFlushTimer l of None \<Rightarrow> l | Some _ \<Rightarrow> l\<lparr>fecFlushTimer := Some False\<rparr>)\<lparr>fecFlushArmed := False\<rparr>"

text \<open>The result is \<open>(groupID, sourceIndex, group, shouldArmFlush)\<close>.\<close>

definition commitPacket ::
  "bytes \<Rightarrow> bool \<Rightarrow> laneRuntime \<Rightarrow> (laneRuntime \<times> u32 \<times> u8 \<times> txRepairGroup option \<times> bool) option" where
  "commitPacket payload retain l =
    (case txWindow l of None \<Rightarrow> Some (l, 0, 0, None, False)
     | Some w \<Rightarrow>
       let wasEmpty = (length (pending w) = 0) in
       case txAdd payload retain w of None \<Rightarrow> None
       | Some (w', gid, idx, grp) \<Rightarrow>
         let l = l\<lparr>txWindow := Some w'\<rparr> in
         case grp of Some g \<Rightarrow> Some (cancelFECFlushTimerLocked l, gid, idx, Some g, False)
         | None \<Rightarrow> Some (l, gid, idx, None, retain \<and> wasEmpty \<and> length (pending w') > 0))"

definition releaseFEC :: "laneRuntime \<Rightarrow> laneRuntime" where
  "releaseFEC l =
    (let l = cancelFECFlushTimerLocked l in
     case txWindow l of None \<Rightarrow> l | Some w \<Rightarrow> l\<lparr>txWindow := Some (txReleaseAll w)\<rparr>)"

section \<open>Runs of the window\<close>

datatype tx_op = TxAdd bytes bool | TxFlush | TxRelease

text \<open>A run logs every DATA identity it assigned, with its packet, and every group it completed.\<close>

type_synonym tx_log = "(u32 \<times> u8 \<times> bytes) list \<times> txRepairGroup list"

fun txStep :: "tx_op \<Rightarrow> txSLCWindow \<times> tx_log \<Rightarrow> (txSLCWindow \<times> tx_log) option" where
  "txStep (TxAdd p retain) (w, ds, gs) =
    (case txAdd p retain w of None \<Rightarrow> None
     | Some (w', gid, idx, grp) \<Rightarrow> Some (w', ds @ [(gid, idx, p)], case grp of None \<Rightarrow> gs | Some g \<Rightarrow> gs @ [g]))"
| "txStep TxFlush (w, ds, gs) =
    (case txFlush w of (w', grp) \<Rightarrow> Some (w', ds, case grp of None \<Rightarrow> gs | Some g \<Rightarrow> gs @ [g]))"
| "txStep TxRelease (w, ds, gs) = Some (txReleaseAll w, ds, gs)"

fun txRun :: "tx_op list \<Rightarrow> txSLCWindow \<times> tx_log \<Rightarrow> (txSLCWindow \<times> tx_log) option" where
  "txRun [] s = Some s"
| "txRun (x # xs) s = (case txStep x s of None \<Rightarrow> None | Some s' \<Rightarrow> txRun xs s')"

text \<open>The flags of the adds, and the packets they retain.\<close>

fun retains :: "tx_op list \<Rightarrow> bool list" where
  "retains [] = []"
| "retains (TxAdd p r # xs) = r # retains xs"
| "retains (_ # xs) = retains xs"

fun retained :: "tx_op list \<Rightarrow> bytes list" where
  "retained [] = []"
| "retained (TxAdd p r # xs) = (if r then p # retained xs else retained xs)"
| "retained (_ # xs) = retained xs"

section \<open>The invariant of the window\<close>

lemma index_cases:
  fixes i :: u8
  assumes "unat i < 4" obtains "i = 0" | "i = 1" | "i = 2" | "i = 3"
proof -
  consider "unat i = 0" | "unat i = 1" | "unat i = 2" | "unat i = 3" using assms by linarith
  then show thesis using that by cases (simp_all add: word_unat_eq_iff)
qed

text \<open>\<open>add\<close> on a window of span four: whether it starts a group, and the identity it assigns.\<close>

definition starts :: "bool \<Rightarrow> txSLCWindow \<Rightarrow> bool" where
  "starts r w \<longleftrightarrow> nextIndex w = 0 \<or> r \<and> pending w = []"

definition cur_group :: "bool \<Rightarrow> txSLCWindow \<Rightarrow> u32" where
  "cur_group r w = (if starts r w then nextGroupID w else activeGroupID w)"

definition cur_index :: "bool \<Rightarrow> txSLCWindow \<Rightarrow> u8" where
  "cur_index r w = (if starts r w then 0 else nextIndex w)"

definition advanced :: "bool \<Rightarrow> txSLCWindow \<Rightarrow> txSLCWindow" where
  "advanced r w = w\<lparr>activeGroupID := cur_group r w,
     nextGroupID := (if starts r w then (nextGroupID w + 1) AND maxTxGroupID else nextGroupID w)\<rparr>"

lemma txAdd_eq:
  assumes "sourceCount w = 4" "unat (nextIndex w) < 4"
  shows "txAdd p r w =
    (let pd = (if r then pending w @ [p] else pending w)
     in if cur_index r w = 3 then
          (if \<not> r then Some ((advanced r w)\<lparr>nextIndex := 0\<rparr>, cur_group r w, cur_index r w, None)
           else if length pd < 4 then None
           else Some ((advanced r w)\<lparr>nextIndex := 0, pending := []\<rparr>, cur_group r w, cur_index r w,
                  Some \<lparr>tx_groupID = cur_group r w, tx_sourceSpan = 4, tx_packets = take 4 pd\<rparr>))
        else Some ((advanced r w)\<lparr>nextIndex := cur_index r w + 1, pending := pd\<rparr>, cur_group r w, cur_index r w, None))"
proof -
  let ?w1 = "if r \<and> length (pending w) = 0 \<and> nextIndex w \<noteq> 0 then w\<lparr>nextIndex := 0\<rparr> else w"
  let ?w2 = "if nextIndex ?w1 = 0 then ?w1\<lparr>activeGroupID := nextGroupID ?w1,
    nextGroupID := (nextGroupID ?w1 + 1) AND maxTxGroupID\<rparr> else ?w1"
  have 2: "?w2 = (advanced r w)\<lparr>nextIndex := cur_index r w\<rparr>"
    by (cases w) (simp add: advanced_def starts_def cur_group_def cur_index_def)
  define v where "v = advanced r w"
  define k where "k = cur_index r w"
  have lt: "uint (k + 1) < 4 \<longleftrightarrow> k \<noteq> 3"
    using assms(2) by (rule index_cases) (auto simp: k_def cur_index_def)
  have f: "sourceCount v = 4" "pending v = pending w" "activeGroupID v = cur_group r w"
    using assms by (simp_all add: v_def advanced_def)
  then have pd: "v\<lparr>nextIndex := x, pending := pending w\<rparr> = v\<lparr>nextIndex := x\<rparr>" for x by (cases v) simp
  show ?thesis
    unfolding txAdd_def Let_def 2 k_def [symmetric] v_def [symmetric] using assms(1)
    by (cases r; cases "k = 3"; cases "length (pending w) < 3") (simp_all add: lt f pd)
qed

definition good_group :: "(u32 \<times> u8 \<times> bytes) list \<Rightarrow> txRepairGroup \<Rightarrow> bool" where
  "good_group ds g \<longleftrightarrow> 1 \<le> unat (tx_sourceSpan g) \<and> unat (tx_sourceSpan g) \<le> 4
    \<and> length (tx_packets g) = unat (tx_sourceSpan g)
    \<and> (\<forall>i < length (tx_packets g). (tx_groupID g, of_nat i, tx_packets g ! i) \<in> set ds)"

definition tx_inv :: "bool \<Rightarrow> txSLCWindow \<times> tx_log \<Rightarrow> bool" where
  "tx_inv on s \<longleftrightarrow> (case s of (w, ds, gs) \<Rightarrow>
     sourceCount w = 4 \<and> unat (nextIndex w) < 4
     \<and> (pending w = [] \<or> on \<and> length (pending w) = unat (nextIndex w))
     \<and> (\<forall>i < length (pending w). (activeGroupID w, of_nat i, pending w ! i) \<in> set ds)
     \<and> (\<forall>g \<in> set gs. good_group ds g)
     \<and> activeGroupID w \<le> maxTxGroupID \<and> nextGroupID w \<le> maxTxGroupID
     \<and> (\<forall>(g, i, p) \<in> set ds. g \<le> maxTxGroupID \<and> unat i < 4))"

lemma good_group_mono: "good_group ds g \<Longrightarrow> good_group (ds @ xs) g"
  by (auto simp: good_group_def)

lemma masked_group: "x AND maxTxGroupID \<le> (maxTxGroupID :: u32)"
  by (rule word_and_le1)

lemma tx_inv_add:
  assumes inv: "tx_inv on (w, ds, gs)" and on: "on \<longrightarrow> r"
  shows "\<exists>w' ds' gs'. txStep (TxAdd p r) (w, ds, gs) = Some (w', ds', gs') \<and> tx_inv (on \<or> r) (w', ds', gs')
    \<and> concat (map tx_packets gs') @ pending w' =
        concat (map tx_packets gs) @ pending w @ (if r then [p] else [])"
proof -
  have w: "sourceCount w = 4" "unat (nextIndex w) < 4" using inv by (auto simp: tx_inv_def)
  show ?thesis
  proof (cases "starts r w")
    case True
    then have "pending w = []" using inv by (auto simp: tx_inv_def starts_def)
    then show ?thesis
      using True inv good_group_mono
      by (auto simp: txAdd_eq [OF w] advanced_def cur_group_def cur_index_def Let_def tx_inv_def masked_group nth_append)
  next
    case False
    then have i: "nextIndex w \<noteq> 0" and "r \<longrightarrow> length (pending w) = unat (nextIndex w)"
      "\<not> r \<longrightarrow> pending w = []"
      using inv on by (auto simp: tx_inv_def starts_def)
    note eqs = txAdd_eq [OF w] advanced_def cur_group_def cur_index_def Let_def tx_inv_def False if_False
    have idx: "unat (nextIndex w + 1) = unat (nextIndex w) + 1" "nextIndex w \<noteq> 3 \<Longrightarrow> unat (nextIndex w) < 3"
      using w(2) by (rule index_cases; simp)+
    show ?thesis
    proof (cases r)
      case True
      then have len: "length (pending w) = unat (nextIndex w)" "on" and ix: "of_nat (length (pending w)) = nextIndex w"
        using inv False by (auto simp: tx_inv_def starts_def)
      have ns: "\<not> starts True w" using False \<open>r\<close> by simp
      let ?pd = "pending w @ [p]" and ?ds = "ds @ [(activeGroupID w, nextIndex w, p)]"
      have act: "(activeGroupID w, of_nat j, ?pd ! j) \<in> set ?ds" if "j < Suc (length (pending w))" for j
        using that inv ix by (auto simp: tx_inv_def nth_append less_Suc_eq)
      show ?thesis
      proof (cases "nextIndex w = 3")
        case full: True
        then have "length (pending w) = 3" using len by simp
        then have "good_group ?ds \<lparr>tx_groupID = activeGroupID w, tx_sourceSpan = 4, tx_packets = ?pd\<rparr>"
          using act by (simp add: good_group_def)
        then show ?thesis
          using full True inv len \<open>length (pending w) = 3\<close> good_group_mono by (auto simp: eqs ns)
      next
        case part: False
        then show ?thesis using True inv len act good_group_mono idx by (auto simp: eqs ns)
      qed
    next
      case nr: False
      then have "pending w = []" "\<not> on" using inv on \<open>\<not> r \<longrightarrow> pending w = []\<close> by auto
      moreover have "\<not> starts False w" using False nr by simp
      ultimately show ?thesis using nr inv good_group_mono idx by (cases "nextIndex w = 3") (auto simp: eqs)
    qed
  qed
qed

fun allows :: "bool \<Rightarrow> tx_op \<Rightarrow> bool" where
  "allows on (TxAdd _ r) = (on \<longrightarrow> r)"
| "allows on _ = True"

fun turned_on :: "bool \<Rightarrow> tx_op \<Rightarrow> bool" where
  "turned_on on (TxAdd _ r) = (on \<or> r)"
| "turned_on on _ = on"

lemma tx_inv_step:
  assumes inv: "tx_inv on (w, ds, gs)" and on: "allows on x"
  shows "\<exists>w' ds' gs'. txStep x (w, ds, gs) = Some (w', ds', gs') \<and> tx_inv (turned_on on x) (w', ds', gs')
    \<and> (x \<noteq> TxRelease \<longrightarrow> concat (map tx_packets gs') @ pending w' =
        concat (map tx_packets gs) @ pending w @ retained [x])"
proof (cases x)
  case (TxAdd p r)
  then show ?thesis using tx_inv_add [OF inv, of r p] on by (simp cong: if_cong)
next
  case TxFlush
  show ?thesis
  proof (cases "pending w = []")
    case False
    then have len: "length (pending w) = unat (nextIndex w)" "unat (nextIndex w) < 4" using inv by (auto simp: tx_inv_def)
    then have "unat (of_nat (length (pending w)) :: u8) = unat (nextIndex w)" by simp
    moreover from this have "good_group ds \<lparr>tx_groupID = activeGroupID w,
        tx_sourceSpan = of_nat (length (pending w)), tx_packets = pending w\<rparr>"
      using False inv len by (auto simp: good_group_def tx_inv_def Suc_le_eq simp flip: length_greater_0_conv)
    ultimately show ?thesis using TxFlush False inv len by (auto simp: txFlush_def tx_inv_def)
  qed (use TxFlush inv in \<open>auto simp: txFlush_def tx_inv_def\<close>)
qed (use inv in \<open>auto simp: txReleaseAll_def tx_inv_def\<close>)

lemma retains_step:
  assumes "sorted (retains (x # xs))" "on \<longrightarrow> (\<forall>r \<in> set (retains (x # xs)). r)"
  shows "allows on x" "sorted (retains xs)" "turned_on on x \<longrightarrow> (\<forall>r \<in> set (retains xs). r)"
  using assms by (cases x; auto)+

lemma retained_step: "retained (x # xs) = retained [x] @ retained xs"
  by (cases x) auto

lemma tx_inv_run:
  assumes "tx_inv on (w, ds, gs)" "sorted (retains xs)" "on \<longrightarrow> (\<forall>r \<in> set (retains xs). r)"
  shows "\<exists>w' ds' gs'. txRun xs (w, ds, gs) = Some (w', ds', gs') \<and> (\<exists>on'. tx_inv on' (w', ds', gs'))
    \<and> (TxRelease \<notin> set xs \<longrightarrow>
        concat (map tx_packets gs') @ pending w' = concat (map tx_packets gs) @ pending w @ retained xs)"
  using assms
proof (induction xs arbitrary: on w ds gs)
  case (Cons x xs)
  note rs = retains_step [OF Cons.prems(2,3)]
  obtain w1 ds1 gs1 where s: "txStep x (w, ds, gs) = Some (w1, ds1, gs1)"
    and inv: "tx_inv (turned_on on x) (w1, ds1, gs1)"
    and c: "x \<noteq> TxRelease \<longrightarrow> concat (map tx_packets gs1) @ pending w1 =
        concat (map tx_packets gs) @ pending w @ retained [x]"
    using tx_inv_step [OF Cons.prems(1) rs(1)] by blast
  obtain w2 ds2 gs2 where r: "txRun xs (w1, ds1, gs1) = Some (w2, ds2, gs2)" "\<exists>on'. tx_inv on' (w2, ds2, gs2)"
    and d: "TxRelease \<notin> set xs \<longrightarrow>
        concat (map tx_packets gs2) @ pending w2 = concat (map tx_packets gs1) @ pending w1 @ retained xs"
    using Cons.IH [OF inv rs(2,3)] by blast
  have "concat (map tx_packets gs2) @ pending w2 = concat (map tx_packets gs) @ pending w @ retained (x # xs)"
    if "TxRelease \<notin> set (x # xs)"
  proof -
    have "concat (map tx_packets gs2) @ pending w2 = (concat (map tx_packets gs1) @ pending w1) @ retained xs"
      using d that by simp
    also have "\<dots> = concat (map tx_packets gs) @ pending w @ retained (x # xs)"
      using c that unfolding retained_step [of x xs] by auto
    finally show ?thesis .
  qed
  moreover have "txRun (x # xs) (w, ds, gs) = Some (w2, ds2, gs2)" using r(1) s by simp
  ultimately show ?case using r(2) by blast
qed auto

section \<open>Identities are fresh\<close>

definition tx_fresh :: "nat \<Rightarrow> txSLCWindow \<times> tx_log \<Rightarrow> bool" where
  "tx_fresh c s \<longleftrightarrow> (case s of (w, ds, gs) \<Rightarrow>
     sourceCount w = 4 \<and> unat (nextIndex w) < 4
     \<and> c \<le> length ds \<and> nextGroupID w = of_nat c AND maxTxGroupID
     \<and> distinct (map (\<lambda>(g, i, p). (g, i)) ds)
     \<and> (\<forall>(g, i, p) \<in> set ds. unat g < c \<and> (nextIndex w \<noteq> 0 \<and> g = activeGroupID w \<longrightarrow> unat i < unat (nextIndex w)))
     \<and> (nextIndex w \<noteq> 0 \<longrightarrow> unat (activeGroupID w) < c))"

lemma group_of_nat: "c < 2 ^ 30 \<Longrightarrow> unat (of_nat c AND maxTxGroupID :: u32) = c"
proof -
  assume c: "c < 2 ^ 30"
  have "(of_nat c AND maxTxGroupID :: u32) = of_nat c AND mask 30" by (simp add: mask_eq_exp_minus_1)
  also have "\<dots> = take_bit 30 (of_nat c)" by (simp add: take_bit_eq_mask)
  finally have "unat (of_nat c AND maxTxGroupID :: u32) = take_bit 30 (unat (of_nat c :: u32))"
    by (simp add: unsigned_take_bit_eq)
  also have "unat (of_nat c :: u32) = c" using c by (simp add: unat_of_nat)
  finally show ?thesis using c by (simp add: take_bit_nat_eq_self)
qed

lemma txAdd_fields:
  assumes "sourceCount w = 4" "unat (nextIndex w) < 4" "txAdd p r w = Some (w', g, i, grp)"
  shows "g = cur_group r w" "i = cur_index r w" "sourceCount w' = 4" "activeGroupID w' = cur_group r w"
    "nextGroupID w' = (if starts r w then (nextGroupID w + 1) AND maxTxGroupID else nextGroupID w)"
    "nextIndex w' = (if cur_index r w = 3 then 0 else cur_index r w + 1)" "unat (cur_index r w) < 4"
  using assms by (auto simp: txAdd_eq Let_def advanced_def cur_index_def split: if_splits)

lemma tx_fresh_add:
  assumes f: "tx_fresh c (w, ds, gs)" and s: "txStep (TxAdd p r) (w, ds, gs) = Some s'" and n: "length ds < 2 ^ 30"
  shows "\<exists>c'. tx_fresh c' s'"
proof -
  have w: "sourceCount w = 4" "unat (nextIndex w) < 4" using f by (auto simp: tx_fresh_def)
  have c: "c < 2 ^ 30" using f n by (simp add: tx_fresh_def)
  obtain w' g i grp where a: "txAdd p r w = Some (w', g, i, grp)"
    and s': "s' = (w', ds @ [(g, i, p)], case grp of None \<Rightarrow> gs | Some g \<Rightarrow> gs @ [g])"
    using s by (auto split: option.splits)
  note fs = txAdd_fields [OF w a]
  have bound: "unat (nextIndex w') < 4" "i \<noteq> 3 \<Longrightarrow> unat (i + 1) = unat i + 1"
    using fs(7) unfolding fs(2,6) by (rule index_cases; simp)+
  have old: "unat g' < c \<and> (nextIndex w \<noteq> 0 \<and> g' = activeGroupID w \<longrightarrow> unat i' < unat (nextIndex w))"
    if "(g', i', p') \<in> set ds" for g' i' p'
    using f that by (auto simp: tx_fresh_def)
  show ?thesis
  proof (cases "starts r w")
    case True
    have g: "unat g = c" "i = 0" using f c True by (simp_all add: fs cur_group_def cur_index_def tx_fresh_def group_of_nat)
    have "g = of_nat c" unfolding g(1) [symmetric] by simp
    then have nxt: "nextGroupID w' = of_nat (Suc c) AND maxTxGroupID"
      using True fs(1,5) by (simp add: cur_group_def add.commute)
    have act: "activeGroupID w' = g" "nextIndex w' = 1" using fs g(2) by (simp_all add: cur_group_def)
    have "(g, i) \<notin> set (map (\<lambda>(g, i, p). (g, i)) ds)" using old g(1) by force
    moreover have "unat g' < Suc c \<and> (g' = g \<longrightarrow> unat i' < 1)" if "(g', i', p') \<in> set (ds @ [(g, i, p)])" for g' i' p'
      using that old [of g' i' p'] g by auto
    ultimately have "tx_fresh (Suc c) s'"
      using f g(1) nxt bound(1) fs(3) unfolding s' tx_fresh_def by (auto simp: act split: option.splits)
    then show ?thesis by blast
  next
    case False
    then have g: "g = activeGroupID w" "i = nextIndex w" "nextIndex w \<noteq> 0"
      by (auto simp: fs cur_group_def cur_index_def starts_def)
    have act: "activeGroupID w' = g" "nextGroupID w' = nextGroupID w" "nextIndex w' = (if i = 3 then 0 else i + 1)"
      using fs False by simp_all
    have gc: "unat g < c" using f g by (auto simp: tx_fresh_def)
    have "(g, i) \<notin> set (map (\<lambda>(g, i, p). (g, i)) ds)" using old g by force
    moreover have "unat g' < c \<and> (i \<noteq> 3 \<and> g' = g \<longrightarrow> unat i' < unat (i + 1))" if "(g', i', p') \<in> set (ds @ [(g, i, p)])" for g' i' p'
      using that old [of g' i' p'] g gc bound(2) by auto
    ultimately have "tx_fresh c s'"
      using f gc bound(1) fs(3) unfolding s' tx_fresh_def by (auto simp: act split: option.splits)
    then show ?thesis by blast
  qed
qed

lemma tx_fresh_step:
  assumes f: "tx_fresh c (w, ds, gs)" and s: "txStep x (w, ds, gs) = Some s'" and n: "length ds < 2 ^ 30"
  shows "\<exists>c'. tx_fresh c' s'"
proof (cases x)
  case (TxAdd p r)
  then show ?thesis using tx_fresh_add f s n by blast
next
  case TxFlush
  then have "tx_fresh c s'" using f s by (auto simp: txFlush_def tx_fresh_def split: if_splits)
  then show ?thesis by blast
next
  case TxRelease
  then have "tx_fresh c s'" using f s by (auto simp: txReleaseAll_def tx_fresh_def)
  then show ?thesis by blast
qed

lemma tx_fresh_run:
  assumes "tx_fresh c (w, ds, gs)" "txRun xs (w, ds, gs) = Some (w', ds', gs')" "length ds + length (retains xs) \<le> 2 ^ 30"
  shows "distinct (map (\<lambda>(g, i, p). (g, i)) ds')"
  using assms
proof (induction xs arbitrary: c w ds gs)
  case (Cons x xs)
  obtain w1 ds1 gs1 where s: "txStep x (w, ds, gs) = Some (w1, ds1, gs1)" "txRun xs (w1, ds1, gs1) = Some (w', ds', gs')"
    using Cons.prems(2) by (auto split: option.splits)
  show ?case
  proof (cases x)
    case (TxAdd p r)
    then have "length ds < 2 ^ 30" "length ds1 = length ds + 1" using Cons.prems(3) s(1) by (auto split: option.splits)
    with tx_fresh_step [OF Cons.prems(1) s(1)] Cons.IH [OF _ s(2)] Cons.prems(3) TxAdd show ?thesis by auto
  next
    case TxFlush
    then have "tx_fresh c (w1, ds1, gs1)" "ds1 = ds"
      using Cons.prems(1) s(1) by (auto simp: txFlush_def tx_fresh_def split: if_splits)
    with Cons.IH [OF _ s(2)] Cons.prems(3) TxFlush show ?thesis by simp
  next
    case TxRelease
    then have "tx_fresh c (w1, ds1, gs1)" "ds1 = ds"
      using Cons.prems(1) s(1) by (auto simp: txReleaseAll_def tx_fresh_def)
    with Cons.IH [OF _ s(2)] Cons.prems(3) TxRelease show ?thesis by simp
  qed
qed (auto simp: tx_fresh_def)

section \<open>What the window promises\<close>

text \<open> C20: The transmit window. Over any run of adds, flushes and releases in which FEC, once switched on,
  stays on, the window never panics; each group it hands to the encoder has 1 to 4 packets, and its i-th
  packet is the one sent as DATA i of that group; identities fit the wire format and repeat only after
  2^30 adds; and without a release the groups and the pending list hold the retained packets in order. \<close>

theorem tx_window:
  assumes "sorted (retains ops)"
  shows "\<exists>w ds gs. txRun ops (newTxSLCWindow 4, [], []) = Some (w, ds, gs)
    \<and> (\<forall>g \<in> set gs. 1 \<le> unat (tx_sourceSpan g) \<and> unat (tx_sourceSpan g) \<le> 4
         \<and> length (tx_packets g) = unat (tx_sourceSpan g)
         \<and> (\<forall>i < length (tx_packets g). (tx_groupID g, of_nat i, tx_packets g ! i) \<in> set ds))
    \<and> (\<forall>(g, i, p) \<in> set ds. g \<le> maxTxGroupID \<and> unat i < 4)
    \<and> (length (retains ops) \<le> 2 ^ 30 \<longrightarrow> distinct (map (\<lambda>(g, i, p). (g, i)) ds))
    \<and> (TxRelease \<notin> set ops \<longrightarrow> concat (map tx_packets gs) @ pending w = retained ops)"
proof -
  let ?w = "newTxSLCWindow 4"
  have "tx_inv False (?w, [], [])" by (simp add: tx_inv_def newTxSLCWindow_def)
  then obtain w ds gs on where r: "txRun ops (?w, [], []) = Some (w, ds, gs)" and i: "tx_inv on (w, ds, gs)"
    and c: "TxRelease \<notin> set ops \<longrightarrow> concat (map tx_packets gs) @ pending w = retained ops"
    using tx_inv_run [of False ?w "[]" "[]" ops] assms by (auto simp: newTxSLCWindow_def)
  have "tx_fresh 0 (?w, [], [])" by (simp add: tx_fresh_def newTxSLCWindow_def)
  with r have "length (retains ops) \<le> 2 ^ 30 \<longrightarrow> distinct (map (\<lambda>(g, i, p). (g, i)) ds)"
    using tx_fresh_run [of 0 ?w "[]" "[]" ops] by simp
  then show ?thesis using r i c by (auto simp: tx_inv_def good_group_def)
qed

lemma tx_window_witness:
  "\<exists>w ds gs. txRun [TxAdd [1] False, TxAdd [2] True, TxAdd [3] True, TxFlush] (newTxSLCWindow 4, [], []) = Some (w, ds, gs)
    \<and> concat (map tx_packets gs) @ pending w = [[2], [3]]"
  using tx_window [of "[TxAdd [1] False, TxAdd [2] True, TxAdd [3] True, TxFlush]"] by fastforce

text \<open>The premise matters: a window that mixes retained and unretained packets in a group panics.\<close>

lemma tx_window_mixed_panics:
  "txRun [TxAdd [1] True, TxAdd [2] False, TxAdd [3] False, TxAdd [4] True] (newTxSLCWindow 4, [], []) = None"
  by (simp add: txAdd_eq newTxSLCWindow_def advanced_def cur_index_def cur_group_def starts_def)

section \<open>Repair counts and scheduling charges\<close>

definition lane_ok :: "laneRuntime \<Rightarrow> bool" where
  "lane_ok l \<longleftrightarrow> 1 \<le> unat (fecRepairCount l) \<and> unat (fecRepairCount l) \<le> 4"

lemma lane_ok_setFEC [inv_intros]: "lane_ok l \<Longrightarrow> lane_ok (setFEC n l)"
  by (auto simp: lane_ok_def setFEC_def word_le_nat_alt word_less_nat_alt Suc_le_eq unat_gt_0)

lemma lane_ok_onLeg [inv_intros]: "lane_ok l \<Longrightarrow> lane_ok (onLeg f l)"
  by (simp add: lane_ok_def onLeg_def)

lemma lane_ok_status [inv_intros]: "lane_ok l \<Longrightarrow> lane_ok (laneOnQoSStatus ul ub tlim tb n l)"
  unfolding laneOnQoSStatus_def by (intro inv_intros)

lemma lane_ok_new [simp]: "lane_ok (newLaneRuntime i w)"
  by (simp add: lane_ok_def newLaneRuntime_def)

lemma laneCost_exact:
  assumes "lane_ok l" "unat c < 2 ^ 30"
  shows "unat (laneCost (Some l) c) = unat c * unat (fecRepairCount l)"
proof -
  have "unat c * unat (fecRepairCount l) < 2 ^ 30 * 4"
    using assms by (intro mult_less_le_imp_less) (auto simp: lane_ok_def)
  then show ?thesis using assms(1)
    by (auto simp: laneCost_def currentFECRepairCount_def lane_ok_def unat_word_ariths unat_ucast_up)
qed

end
