(* ===== verification/LaneManager.thy ===== *)
theory LaneManager
  imports Leg
begin

text \<open>
  \<open>internal/tunnel/v2/send/lanemanager.go\<close>: the probe state that sender and receiver share. The
  instances it stores are references (\<open>'p\<close> pings, \<open>'b\<close> bandwidth loops, \<open>'q\<close> QoS inputs), and so
  are the two closures. A nil manager and nil arguments, on which every method returns at once, are
  left out: the callers of this repository never pass one.
\<close>

record LegKey =
  SessionID :: u64
  LaneID :: u8
  k_Kind :: kind
  Endpoint :: string
  Conn :: string

type_synonym LaneKey = "u64 \<times> u8"

definition KeyForLeg :: "u64 \<Rightarrow> u8 \<Rightarrow> LegRef \<Rightarrow> LegKey" where
  "KeyForLeg s l r = \<lparr>SessionID = s, LaneID = l, k_Kind = Kind r, Endpoint = EndpointID r, Conn = ConnID r\<rparr>"

record ('p, 'b, 'q, 'c) manager =
  pings :: "LegKey \<rightharpoonup> 'p"
  bwLoops :: "u64 \<rightharpoonup> 'b"
  bwActive :: "'b option"
  qosInputs :: "LaneKey \<rightharpoonup> 'q"
  remoteProbe :: "'c option"
  remoteComplete :: "'c option"

definition NewLaneManager :: "('p, 'b, 'q, 'c) manager" where
  "NewLaneManager = \<lparr>pings = Map.empty, bwLoops = Map.empty, bwActive = None, qosInputs = Map.empty,
     remoteProbe = None, remoteComplete = None\<rparr>"

definition SetRemoteProbe :: "'c \<Rightarrow> ('p, 'b, 'q, 'c) manager \<Rightarrow> ('p, 'b, 'q, 'c) manager" where
  "SetRemoteProbe f m = m\<lparr>remoteProbe := Some f\<rparr>"

definition SetRemoteComplete :: "'c \<Rightarrow> ('p, 'b, 'q, 'c) manager \<Rightarrow> ('p, 'b, 'q, 'c) manager" where
  "SetRemoteComplete f m = m\<lparr>remoteComplete := Some f\<rparr>"

definition RegisterPing :: "LegKey \<Rightarrow> 'p \<Rightarrow> ('p, 'b, 'q, 'c) manager \<Rightarrow> ('p, 'b, 'q, 'c) manager" where
  "RegisterPing k p m = m\<lparr>pings := (pings m)(k \<mapsto> p)\<rparr>"

definition registerPingIfAbsent :: "LegKey \<Rightarrow> 'p \<Rightarrow> ('p, 'b, 'q, 'c) manager \<Rightarrow> ('p, 'b, 'q, 'c) manager \<times> bool" where
  "registerPingIfAbsent k p m =
    (if pings m k \<noteq> None then (m, False) else (m\<lparr>pings := (pings m)(k \<mapsto> p)\<rparr>, True))"

definition LookupPing :: "LegKey \<Rightarrow> ('p, 'b, 'q, 'c) manager \<Rightarrow> 'p option" where
  "LookupPing k m = pings m k"

definition UnregisterPing :: "LegKey \<Rightarrow> ('p, 'b, 'q, 'c) manager \<Rightarrow> ('p, 'b, 'q, 'c) manager" where
  "UnregisterPing k m = m\<lparr>pings := (pings m)(k := None)\<rparr>"

definition PutBwLoop :: "u64 \<Rightarrow> 'b \<Rightarrow> ('p, 'b, 'q, 'c) manager \<Rightarrow> ('p, 'b, 'q, 'c) manager" where
  "PutBwLoop i l m = m\<lparr>bwLoops := [i \<mapsto> l], bwActive := Some l\<rparr>"

definition LookupBwLoop :: "u64 \<Rightarrow> ('p, 'b, 'q, 'c) manager \<Rightarrow> 'b option" where
  "LookupBwLoop i m = (case bwLoops m i of Some l \<Rightarrow> Some l | None \<Rightarrow> bwActive m)"

definition DeleteBwLoop :: "u64 \<Rightarrow> ('p, 'b, 'q, 'c) manager \<Rightarrow> ('p, 'b, 'q, 'c) manager" where
  "DeleteBwLoop i m =
    (if bwLoops m i = bwActive m then m\<lparr>bwLoops := Map.empty, bwActive := None\<rparr>
     else m\<lparr>bwLoops := (bwLoops m)(i := None)\<rparr>)"

definition RegisterQoS :: "LaneKey \<Rightarrow> 'q \<Rightarrow> ('p, 'b, 'q, 'c) manager \<Rightarrow> ('p, 'b, 'q, 'c) manager" where
  "RegisterQoS k q m = m\<lparr>qosInputs := (qosInputs m)(k \<mapsto> q)\<rparr>"

definition LookupQoS :: "LaneKey \<Rightarrow> ('p, 'b, 'q, 'c) manager \<Rightarrow> 'q option" where
  "LookupQoS k m = qosInputs m k"

definition DeleteQoS :: "LaneKey \<Rightarrow> ('p, 'b, 'q, 'c) manager \<Rightarrow> ('p, 'b, 'q, 'c) manager" where
  "DeleteQoS k m = m\<lparr>qosInputs := (qosInputs m)(k := None)\<rparr>"

definition Reset :: "('p, 'b, 'q, 'c) manager \<Rightarrow> ('p, 'b, 'q, 'c) manager" where
  "Reset m = m\<lparr>pings := Map.empty, bwLoops := Map.empty, bwActive := None, qosInputs := Map.empty\<rparr>"

section \<open>Routing of bandwidth acknowledgements\<close>

datatype ('p, 'b, 'q) manager_op =
    OpPing LegKey 'p | OpPingIfAbsent LegKey 'p | OpUnping LegKey | OpPut u64 'b | OpDelete u64
  | OpQoS LaneKey 'q | OpUnQoS LaneKey | OpReset

fun manager_step :: "('p, 'b, 'q) manager_op \<Rightarrow> ('p, 'b, 'q, 'c) manager \<Rightarrow> ('p, 'b, 'q, 'c) manager" where
  "manager_step (OpPing k p) m = RegisterPing k p m"
| "manager_step (OpPingIfAbsent k p) m = fst (registerPingIfAbsent k p m)"
| "manager_step (OpUnping k) m = UnregisterPing k m"
| "manager_step (OpPut i l) m = PutBwLoop i l m"
| "manager_step (OpDelete i) m = DeleteBwLoop i m"
| "manager_step (OpQoS k q) m = RegisterQoS k q m"
| "manager_step (OpUnQoS k) m = DeleteQoS k m"
| "manager_step OpReset m = Reset m"

lemmas manager_defs = RegisterPing_def registerPingIfAbsent_def UnregisterPing_def PutBwLoop_def DeleteBwLoop_def
  RegisterQoS_def DeleteQoS_def Reset_def LookupBwLoop_def LookupPing_def LookupQoS_def

text \<open>The loop that a history of the manager leaves active, with its id.\<close>

fun active_loop :: "('p, 'b, 'q) manager_op list \<Rightarrow> (u64 \<times> 'b) option \<Rightarrow> (u64 \<times> 'b) option" where
  "active_loop [] a = a"
| "active_loop (OpPut i l # xs) a = active_loop xs (Some (i, l))"
| "active_loop (OpDelete i # xs) a = active_loop xs (case a of Some (j, l) \<Rightarrow> if i = j then None else a | None \<Rightarrow> None)"
| "active_loop (OpReset # xs) a = active_loop xs None"
| "active_loop (_ # xs) a = active_loop xs a"

definition holds_loop :: "(u64 \<times> 'b) option \<Rightarrow> ('p, 'b, 'q, 'c) manager \<Rightarrow> bool" where
  "holds_loop a m \<longleftrightarrow> (case a of None \<Rightarrow> bwLoops m = Map.empty \<and> bwActive m = None
     | Some (i, l) \<Rightarrow> bwLoops m = [i \<mapsto> l] \<and> bwActive m = Some l)"

lemma holds_loop_run:
  "holds_loop a m \<Longrightarrow> holds_loop (active_loop xs a) (fold manager_step xs m)"
proof (induction xs a arbitrary: m rule: active_loop.induct)
  case (3 i xs a)
  then show ?case by (auto simp: holds_loop_def manager_defs split: option.splits if_splits)
qed (auto simp: holds_loop_def manager_defs split: option.splits)

text \<open>Serial bandwidth loops. After any history of the manager there is at most one loop, the last one
  put that was neither deleted under its id nor reset, and every acknowledgement, whatever id it
  carries, is routed to it. \<close>

theorem bw_loop_routing:
  "LookupBwLoop i (fold manager_step ops NewLaneManager) = map_option snd (active_loop ops None)"
proof -
  have "holds_loop (active_loop ops None) (fold manager_step ops NewLaneManager)"
    by (rule holds_loop_run) (simp add: holds_loop_def NewLaneManager_def)
  then show ?thesis by (auto simp: holds_loop_def LookupBwLoop_def split: option.splits if_splits)
qed

text \<open>Send registers a ping only where none is registered yet.\<close>

lemma register_once:
  "registerPingIfAbsent k p m = (m', b) \<Longrightarrow>
    LookupPing k m' = (if b then Some p else LookupPing k m) \<and> (b \<longleftrightarrow> LookupPing k m = None)
    \<and> (\<forall>k'. k' \<noteq> k \<longrightarrow> LookupPing k' m' = LookupPing k' m) \<and> snd (registerPingIfAbsent k q m') = False"
  by (auto simp: manager_defs split: if_splits)

end
