(* ===== verification/BwGate.thy ===== *)
theory BwGate
  imports LaneManager Lane
begin

text \<open>
  \<open>internal/tunnel/v2/send/bwscheduler.go\<close>: the gate that serialises bandwidth probing. A critical
  section of the source's mutex is one function; the evaluation loop, which takes the mutex only to
  read, is the step relation \<open>gate_step\<close>, interleaved with the calls that move the gate. The local
  probe loop is a reference \<open>'l\<close>, made by the parameter \<open>newLoop\<close> of the launching step.
\<close>

section \<open>Targets\<close>

record bwTarget =
  t_laneID :: u8
  t_kind :: kind
  t_leg :: LegRef
  t_key :: LegKey
  t_referenceBps :: u64
  t_capBps :: u64

text \<open>The lanes are the entries of a Go map, in some order.\<close>

definition buildBwTargets :: "u64 \<Rightarrow> ((u64 \<times> u8) \<times> laneRuntime) list \<Rightarrow> u64 \<Rightarrow> bwTarget list" where
  "buildBwTargets sessionID lanes cap =
    (let entries = sort_key fst (map (\<lambda>((s, i), l). (i, l)) (filter (\<lambda>((s, i), l). s = sessionID) lanes));
         kinds = (if cap > 0 then [KindUDP] else [KindTCP, KindUDP])
     in concat (map (\<lambda>(i, l). concat (map (\<lambda>k.
          let r = refForKind k (lane_leg l) in
          if Kind r = 0 then []
          else [\<lparr>t_laneID = i, t_kind = k, t_leg = r, t_key = KeyForLeg sessionID i r,
                 t_referenceBps = 0, t_capBps = 0\<rparr>]) kinds)) entries))"

section \<open>The gate\<close>

datatype gate_phase = bwPhaseLocal | bwPhaseRemote

record 'l bwScheduler =
  isClient :: bool
  g_capBps :: u64
  g_referenceBps :: u64
  targets :: "bwTarget list"
  idx :: nat
  g_phase :: gate_phase
  current :: "'l option"
  tcpRef :: "LaneKey \<rightharpoonup> u64"
  wake :: bool
  started :: bool
  gate_done :: bool

definition newBwScheduler :: "bool \<Rightarrow> u64 \<Rightarrow> u64 \<Rightarrow> 'l bwScheduler" where
  "newBwScheduler c cap r = \<lparr>isClient = c, g_capBps = cap, g_referenceBps = r, targets = [], idx = 0,
     g_phase = bwPhaseLocal, current = None, tcpRef = Map.empty, wake = False, started = False, gate_done = False\<rparr>"

text \<open>\<open>Start\<close> up to its call of \<open>eval\<close>; the flag tells whether it goes on to that call.\<close>

definition gateStart :: "bwTarget list \<Rightarrow> 'l bwScheduler \<Rightarrow> 'l bwScheduler \<times> bool" where
  "gateStart snapshot s =
    (if started s then (s, False)
     else (s\<lparr>started := True, targets := snapshot, idx := 0,
             g_phase := (if isClient s then bwPhaseLocal else bwPhaseRemote)\<rparr>, True))"

definition prepareTarget :: "bwTarget \<Rightarrow> 'l bwScheduler \<Rightarrow> bwTarget" where
  "prepareTarget t s =
    (if t_kind t \<noteq> KindUDP then
       t\<lparr>t_referenceBps := (if g_referenceBps s = 0 then 200000000 else g_referenceBps s), t_capBps := 0\<rparr>
     else if g_referenceBps s > 0 then t\<lparr>t_referenceBps := g_referenceBps s, t_capBps := g_capBps s\<rparr>
     else if g_capBps s > 0 then t\<lparr>t_referenceBps := g_capBps s, t_capBps := g_capBps s\<rparr>
     else let r = (case tcpRef s (SessionID (t_key t), t_laneID t) of None \<Rightarrow> 0 | Some r \<Rightarrow> r)
          in t\<lparr>t_referenceBps := r, t_capBps := r\<rparr>)"

definition signal :: "'l bwScheduler \<Rightarrow> 'l bwScheduler" where
  "signal s = s\<lparr>wake := True\<rparr>"

text \<open>The guard of the advancing methods: the gate is at this key, in this phase.\<close>

definition at_gate :: "gate_phase \<Rightarrow> LegKey \<Rightarrow> 'l bwScheduler \<Rightarrow> bool" where
  "at_gate ph k s \<longleftrightarrow> \<not> (gate_done s \<or> idx s \<ge> length (targets s) \<or> g_phase s \<noteq> ph \<or> t_key (targets s ! idx s) \<noteq> k)"

definition leaveLocal :: "'l bwScheduler \<Rightarrow> 'l bwScheduler" where
  "leaveLocal s = signal
    (let s = s\<lparr>current := None\<rparr> in
     if isClient s then s\<lparr>g_phase := bwPhaseRemote\<rparr> else s\<lparr>idx := idx s + 1, g_phase := bwPhaseRemote\<rparr>)"

definition completeLocal :: "bwTarget \<Rightarrow> u64 \<Rightarrow> 'l bwScheduler \<Rightarrow> 'l bwScheduler" where
  "completeLocal t bps s =
    (if \<not> at_gate bwPhaseLocal (t_key t) s then s
     else leaveLocal (if t_kind t = KindTCP \<and> bps > 0
       then s\<lparr>tcpRef := (tcpRef s)((SessionID (t_key t), t_laneID t) \<mapsto> bps)\<rparr> else s))"

definition advanceAfterLocal :: "LegKey \<Rightarrow> 'l bwScheduler \<Rightarrow> 'l bwScheduler" where
  "advanceAfterLocal k s = (if \<not> at_gate bwPhaseLocal k s then s else leaveLocal s)"

definition advanceAfterRemote :: "LegKey \<Rightarrow> 'l bwScheduler \<Rightarrow> 'l bwScheduler" where
  "advanceAfterRemote k s =
    (if \<not> at_gate bwPhaseRemote k s then s
     else signal (if isClient s then s\<lparr>idx := idx s + 1, g_phase := bwPhaseLocal\<rparr> else s\<lparr>g_phase := bwPhaseLocal\<rparr>))"

definition tcpReferenceBps :: "u64 \<Rightarrow> u8 \<Rightarrow> 'l bwScheduler option \<Rightarrow> u64" where
  "tcpReferenceBps sid l s =
    (case s of None \<Rightarrow> 0 | Some s \<Rightarrow> (case tcpRef s (sid, l) of None \<Rightarrow> 0 | Some r \<Rightarrow> r))"

definition isDone :: "'l bwScheduler option \<Rightarrow> bool" where
  "isDone s = (case s of None \<Rightarrow> True | Some s \<Rightarrow> gate_done s)"

text \<open>The two critical sections of \<open>abort\<close>: the first takes the loop to stop and the phase it saw,
  the second advances past that phase.\<close>

definition abortTake :: "LegKey \<Rightarrow> 'l bwScheduler \<Rightarrow> 'l bwScheduler \<times> ('l option \<times> gate_phase) option" where
  "abortTake k s =
    (if gate_done s \<or> idx s \<ge> length (targets s) \<or> t_key (targets s ! idx s) \<noteq> k then (s, None)
     else (s\<lparr>current := None\<rparr>, Some (current s, g_phase s)))"

definition abortRelease :: "LegKey \<Rightarrow> gate_phase \<Rightarrow> 'l bwScheduler \<Rightarrow> 'l bwScheduler" where
  "abortRelease k ph s = (case ph of bwPhaseLocal \<Rightarrow> advanceAfterLocal k s | bwPhaseRemote \<Rightarrow> advanceAfterRemote k s)"

section \<open>The evaluation loop\<close>

text \<open>\<open>eval\<close> reads the gate, launches a probe when the phase it read is local, and parks until a wake.
  \<open>skips\<close> are the goroutines that a failed launch starts, \<open>releases\<close> the aborts between their sections.\<close>

datatype eval_pc = NotStarted | AtTop | Launching bwTarget | Parked | Returned

record 'l gate =
  sched :: "'l bwScheduler"
  pc :: eval_pc
  skips :: "LegKey list"
  releases :: "(LegKey \<times> gate_phase) list"

datatype gate_event = Launch bwTarget | Moved

definition evalTop :: "'l gate \<Rightarrow> 'l gate" where
  "evalTop g =
    (let s = sched g in
     if gate_done s \<or> idx s \<ge> length (targets s) then g\<lparr>sched := s\<lparr>gate_done := True\<rparr>, pc := Returned\<rparr>
     else case g_phase s of bwPhaseLocal \<Rightarrow> g\<lparr>pc := Launching (targets s ! idx s)\<rparr>
          | bwPhaseRemote \<Rightarrow> g\<lparr>pc := Parked\<rparr>)"

definition runLocal :: "bwTarget \<Rightarrow> 'l option \<Rightarrow> 'l gate \<Rightarrow> 'l gate" where
  "runLocal t loop g =
    g\<lparr>sched := (sched g)\<lparr>current := loop\<rparr>, pc := Parked,
      skips := (case loop of None \<Rightarrow> skips g @ [t_key t] | Some _ \<Rightarrow> skips g)\<rparr>"

inductive gate_step :: "'l gate \<Rightarrow> gate_event list \<Rightarrow> 'l gate \<Rightarrow> bool" where
  start: "pc g = NotStarted \<Longrightarrow> gateStart ts (sched g) = (s', True) \<Longrightarrow>
    gate_step g [] (g\<lparr>sched := s', pc := AtTop\<rparr>)"
| top: "pc g = AtTop \<Longrightarrow> gate_step g [] (evalTop g)"
| launch: "pc g = Launching t \<Longrightarrow> gate_step g [Launch (prepareTarget t (sched g))] (runLocal t loop g)"
| woken: "pc g = Parked \<Longrightarrow> wake (sched g) \<Longrightarrow>
    gate_step g [] (g\<lparr>sched := (sched g)\<lparr>wake := False\<rparr>, pc := AtTop\<rparr>)"
| cancelled: "pc g = Parked \<Longrightarrow> gate_step g [] (g\<lparr>pc := Returned\<rparr>)"
| complete: "s' = completeLocal t bps (sched g) \<Longrightarrow>
    gate_step g (if s' = sched g then [] else [Moved]) (g\<lparr>sched := s'\<rparr>)"
| skip: "k \<in> set (skips g) \<Longrightarrow> s' = advanceAfterLocal k (sched g) \<Longrightarrow>
    gate_step g (if s' = sched g then [] else [Moved]) (g\<lparr>sched := s', skips := remove1 k (skips g)\<rparr>)"
| remote: "s' = advanceAfterRemote k (sched g) \<Longrightarrow>
    gate_step g (if s' = sched g then [] else [Moved]) (g\<lparr>sched := s'\<rparr>)"
| abort_take: "abortTake k (sched g) = (s', r) \<Longrightarrow>
    gate_step g [] (g\<lparr>sched := s', releases := releases g @ (case r of None \<Rightarrow> [] | Some (_, ph) \<Rightarrow> [(k, ph)])\<rparr>)"
| abort_release: "(k, ph) \<in> set (releases g) \<Longrightarrow> s' = abortRelease k ph (sched g) \<Longrightarrow>
    gate_step g (if s' = sched g then [] else [Moved]) (g\<lparr>sched := s', releases := remove1 (k, ph) (releases g)\<rparr>)"

inductive gate_run :: "'l gate \<Rightarrow> gate_event list \<Rightarrow> 'l gate \<Rightarrow> bool" where
  refl: "gate_run g [] g"
| snoc: "gate_run g es g' \<Longrightarrow> gate_step g' fs g'' \<Longrightarrow> gate_run g (es @ fs) g''"

definition newGate :: "bool \<Rightarrow> u64 \<Rightarrow> u64 \<Rightarrow> 'l gate" where
  "newGate c cap r = \<lparr>sched = newBwScheduler c cap r, pc = NotStarted, skips = [], releases = []\<rparr>"

section \<open>The order of the sweep\<close>

text \<open>How many phases the gate has left behind: two per target, local first at the client, remote first
  at the server.\<close>

definition pos :: "'l bwScheduler \<Rightarrow> nat" where
  "pos s = 2 * idx s + (if g_phase s = (if isClient s then bwPhaseRemote else bwPhaseLocal) then 1 else 0)"

definition gate_ok :: "'l bwScheduler \<Rightarrow> bool" where
  "gate_ok s \<longleftrightarrow> (started s \<longrightarrow> pos s \<le> 2 * length (targets s)) \<and> (gate_done s \<longrightarrow> pos s = 2 * length (targets s))
    \<and> (\<not> started s \<longrightarrow> targets s = [] \<and> \<not> gate_done s)"

text \<open>What a move does to the position, and to nothing else that the sweep depends on.\<close>

definition moves :: "'l bwScheduler \<Rightarrow> 'l bwScheduler \<Rightarrow> bool" where
  "moves s s' \<longleftrightarrow> targets s' = targets s \<and> started s' = started s \<and> isClient s' = isClient s
    \<and> gate_done s' = gate_done s \<and> (s' = s \<or> pos s' = pos s + 1 \<and> idx s < length (targets s) \<and> \<not> gate_done s \<and> idx s \<le> idx s')"

lemma gate_phase_not [simp]: "p \<noteq> bwPhaseLocal \<longleftrightarrow> p = bwPhaseRemote" "p \<noteq> bwPhaseRemote \<longleftrightarrow> p = bwPhaseLocal"
  by (cases p; simp)+

lemma moves_leaveLocal: "at_gate bwPhaseLocal k s \<Longrightarrow> moves s (leaveLocal (s\<lparr>tcpRef := f\<rparr>)) \<and> moves s (leaveLocal s)"
  by (auto simp: moves_def at_gate_def leaveLocal_def signal_def pos_def Let_def)

lemma moves_all [simp]:
  "moves s s" "moves s (advanceAfterLocal k s)" "moves s (advanceAfterRemote k s)" "moves s (completeLocal t b s)"
  "moves s (abortRelease k ph s)"
proof -
  show [simp]: "moves s s" by (simp add: moves_def)
  show l [simp]: "moves s (advanceAfterLocal k s)" for k by (simp add: advanceAfterLocal_def moves_leaveLocal)
  show r [simp]: "moves s (advanceAfterRemote k s)" for k
    by (auto simp: advanceAfterRemote_def moves_def at_gate_def signal_def pos_def)
  show "moves s (completeLocal t b s)" by (auto simp: completeLocal_def moves_leaveLocal)
  show "moves s (abortRelease k ph s)" by (simp add: abortRelease_def split: gate_phase.split)
qed

lemma pos_idx: "pos s \<le> 2 * idx s + 1" "2 * idx s \<le> pos s"
  by (simp_all add: pos_def)

lemma moves_ok: "moves s s' \<Longrightarrow> gate_ok s \<Longrightarrow> gate_ok s'"
  using pos_idx [of s] by (auto simp: moves_def gate_ok_def)

text \<open>The invariant of a run: moves are counted by the position, launches go up the target list.\<close>

fun launched :: "gate_event list \<Rightarrow> LegKey list" where
  "launched [] = []"
| "launched (Launch t # es) = t_key t # launched es"
| "launched (Moved # es) = launched es"

lemma launched_append [simp]: "launched (es @ fs) = launched es @ launched fs"
  by (induction es rule: launched.induct) auto

definition sweep_inv :: "gate_event list \<Rightarrow> 'l gate \<Rightarrow> bool" where
  "sweep_inv es g \<longleftrightarrow> gate_ok (sched g) \<and> (started (sched g) \<longleftrightarrow> pc g \<noteq> NotStarted)
    \<and> count_list es Moved = (if started (sched g) then pos (sched g) else 0)
    \<and> (\<exists>is. sorted is \<and> launched es = map (\<lambda>i. t_key (targets (sched g) ! i)) is
         \<and> (\<forall>i \<in> set is. i \<le> idx (sched g) \<and> i < length (targets (sched g)))
         \<and> (\<forall>t. pc g = Launching t \<longrightarrow> (\<exists>j. t = targets (sched g) ! j \<and> j \<le> idx (sched g)
               \<and> j < length (targets (sched g)) \<and> (\<forall>i \<in> set is. i \<le> j))))"

lemma prepareTarget_key [simp]: "t_key (prepareTarget t s) = t_key t"
  by (simp add: prepareTarget_def Let_def)

lemma sweep_moves:
  assumes "sweep_inv es g" "moves (sched g) s'" "pc g' = pc g" "sched g' = s'"
  shows "sweep_inv (es @ (if s' = sched g then [] else [Moved])) g'"
proof -
  have ok: "gate_ok s'" "targets s' = targets (sched g)" "started s' = started (sched g)" "idx (sched g) \<le> idx s'"
    using assms(1,2) moves_ok by (auto simp: sweep_inv_def moves_def)
  have "s' \<noteq> sched g \<Longrightarrow> pos s' = pos (sched g) + 1 \<and> started (sched g)"
    using assms(1,2) by (auto simp: moves_def sweep_inv_def gate_ok_def)
  then have c: "count_list (es @ (if s' = sched g then [] else [Moved])) Moved = (if started s' then pos s' else 0)"
    "started s' \<longleftrightarrow> pc g' \<noteq> NotStarted"
    using assms(1,3) ok(3) by (auto simp: sweep_inv_def)
  obtain "is" where i: "sorted is" "launched es = map (\<lambda>i. t_key (targets (sched g) ! i)) is"
    "\<forall>i \<in> set is. i \<le> idx (sched g) \<and> i < length (targets (sched g))"
    "\<forall>t. pc g = Launching t \<longrightarrow> (\<exists>j. t = targets (sched g) ! j \<and> j \<le> idx (sched g)
               \<and> j < length (targets (sched g)) \<and> (\<forall>i \<in> set is. i \<le> j))"
    using assms(1) unfolding sweep_inv_def by blast
  show ?thesis
    unfolding sweep_inv_def assms(4) ok(2)
  proof (intro conjI exI [of _ "is"] ok(1) c)
    show "\<forall>i \<in> set is. i \<le> idx s' \<and> i < length (targets (sched g))" using i(3) ok(4) by (meson le_trans)
    show "\<forall>t. pc g' = Launching t \<longrightarrow> (\<exists>j. t = targets (sched g) ! j \<and> j \<le> idx s'
               \<and> j < length (targets (sched g)) \<and> (\<forall>i \<in> set is. i \<le> j))"
      using i(4) ok(4) assms(3) by (metis le_trans)
  qed (use i in auto)
qed

lemma sweep_step:
  assumes "gate_step g fs g'" "sweep_inv es g"
  shows "sweep_inv (es @ fs) g'"
  using assms
proof cases
  case (start ts s')
  then show ?thesis using assms(2)
    by (auto simp: sweep_inv_def gateStart_def gate_ok_def pos_def split: if_splits)
next
  case top
  then show ?thesis using assms(2) pos_idx [of "sched g"]
    by (auto simp: sweep_inv_def evalTop_def Let_def gate_ok_def pos_def not_le split: gate_phase.splits)
next
  case (launch t loop)
  obtain "is" j where i: "sorted is" "launched es = map (\<lambda>i. t_key (targets (sched g) ! i)) is"
    "\<forall>i \<in> set is. i \<le> idx (sched g) \<and> i < length (targets (sched g))"
    "t = targets (sched g) ! j" "j \<le> idx (sched g)" "j < length (targets (sched g))" "\<forall>i \<in> set is. i \<le> j"
    using assms(2) launch(3) unfolding sweep_inv_def by blast
  then have "sorted (is @ [j])" "launched (es @ fs) = map (\<lambda>i. t_key (targets (sched g) ! i)) (is @ [j])"
    "\<forall>i \<in> set (is @ [j]). i \<le> idx (sched g) \<and> i < length (targets (sched g))"
    using launch(1) by (auto simp: sorted_append)
  then show ?thesis using assms(2) launch
    unfolding sweep_inv_def by (auto simp: runLocal_def gate_ok_def pos_def intro!: exI [of _ "is @ [j]"])
next
  case woken
  then show ?thesis using assms(2) by (auto simp: sweep_inv_def gate_ok_def pos_def)
next
  case cancelled
  then show ?thesis using assms(2) by (auto simp: sweep_inv_def)
next
  case (abort_take k s' r)
  then show ?thesis using assms(2)
    by (auto simp: sweep_inv_def gate_ok_def pos_def abortTake_def split: if_splits)
next
  case (complete s' t bps)
  then show ?thesis using sweep_moves [OF assms(2), of s' g'] by simp
next
  case (skip k s')
  then show ?thesis using sweep_moves [OF assms(2), of s' g'] by simp
next
  case (remote s' k)
  then show ?thesis using sweep_moves [OF assms(2), of s' g'] by simp
next
  case (abort_release k ph s')
  then show ?thesis using sweep_moves [OF assms(2), of s' g'] by simp
qed

lemma sweep_run: "gate_run g es g' \<Longrightarrow> sweep_inv fs g \<Longrightarrow> sweep_inv (fs @ es) g'"
  by (induction rule: gate_run.induct) (auto simp flip: append_assoc intro: sweep_step)


section \<open>Two gates in lockstep\<close>

text \<open>Client and server, without aborts. A remote phase ends only after the peer has entered its local
  phase for the target, since it ends on the last probe of the peer's train.\<close>

inductive lockstep :: "'l bwScheduler \<times> 'l bwScheduler \<Rightarrow> 'l bwScheduler \<times> 'l bwScheduler \<Rightarrow> bool" where
  client_local: "lockstep (c, s) (advanceAfterLocal k c, s)"
| client_complete: "lockstep (c, s) (completeLocal t b c, s)"
| server_local: "lockstep (c, s) (c, advanceAfterLocal k s)"
| server_complete: "lockstep (c, s) (c, completeLocal t b s)"
| server_remote: "2 * idx s \<le> pos c \<Longrightarrow> lockstep (c, s) (c, advanceAfterRemote k s)"
| client_remote: "2 * idx c + 1 \<le> pos s \<Longrightarrow> lockstep (c, s) (advanceAfterRemote k c, s)"

definition together :: "'l bwScheduler \<Rightarrow> 'l bwScheduler \<Rightarrow> bool" where
  "together c s \<longleftrightarrow> isClient c \<and> \<not> isClient s
    \<and> pos c \<le> pos s + (if g_phase c = bwPhaseRemote then 2 else 1)
    \<and> pos s \<le> pos c + (if g_phase s = bwPhaseRemote then 2 else 1)"

text \<open>What a single call does to the position and the phase of a gate.\<close>

lemma local_move:
  assumes "s' = advanceAfterLocal k s \<or> s' = completeLocal t b s"
  shows "s' = s \<or> g_phase s = bwPhaseLocal \<and> g_phase s' = bwPhaseRemote \<and> isClient s' = isClient s \<and> pos s' = pos s + 1"
  using assms by (auto simp: advanceAfterLocal_def completeLocal_def at_gate_def leaveLocal_def signal_def pos_def Let_def)

lemma remote_move:
  "advanceAfterRemote k s = s \<or> g_phase s = bwPhaseRemote \<and> g_phase (advanceAfterRemote k s) = bwPhaseLocal
    \<and> isClient (advanceAfterRemote k s) = isClient s \<and> pos (advanceAfterRemote k s) = pos s + 1"
  by (auto simp: advanceAfterRemote_def at_gate_def signal_def pos_def)

lemma together_step:
  assumes "lockstep (c, s) (c', s')" "together c s"
  shows "together c' s'"
proof -
  have remote: "g_phase s = bwPhaseRemote \<Longrightarrow> pos s = 2 * idx s" "g_phase c = bwPhaseRemote \<Longrightarrow> pos c = 2 * idx c + 1"
    using assms(2) by (auto simp: together_def pos_def)
  from assms(1) show ?thesis
  proof cases
    case (client_local k)
    then show ?thesis using local_move [of c' k c] assms(2) by (auto simp: together_def split: if_splits)
  next
    case (client_complete t b)
    then show ?thesis using local_move [of c' _ c t b] assms(2) by (auto simp: together_def split: if_splits)
  next
    case (server_local k)
    then show ?thesis using local_move [of s' k s] assms(2) by (auto simp: together_def split: if_splits)
  next
    case (server_complete t b)
    then show ?thesis using local_move [of s' _ s t b] assms(2) by (auto simp: together_def split: if_splits)
  next
    case (server_remote k)
    then show ?thesis using remote_move [of k s] remote assms(2) by (auto simp: together_def split: if_splits)
  next
    case (client_remote k)
    then show ?thesis using remote_move [of k c] remote assms(2) by (auto simp: together_def split: if_splits)
  qed
qed


section \<open>Aborting and the stale wake\<close>

text \<open>\<open>abort\<close> at the target the gate is at.\<close>

definition abortHere :: "'l bwScheduler \<Rightarrow> 'l bwScheduler" where
  "abortHere s =
    (case abortTake (t_key (targets s ! idx s)) s of (s', None) \<Rightarrow> s'
     | (s', Some (_, ph)) \<Rightarrow> abortRelease (t_key (targets s ! idx s)) ph s')"

lemma abortHere_moves:
  assumes "\<not> gate_done s" "pos s < 2 * length (targets s)"
  shows "pos (abortHere s) = pos s + 1" "targets (abortHere s) = targets s" "\<not> gate_done (abortHere s)"
proof -
  have "idx s < length (targets s)" using assms(2) pos_idx(2) [of s] by simp
  then have "pos (abortHere s) = pos s + 1 \<and> targets (abortHere s) = targets s \<and> \<not> gate_done (abortHere s)"
    using assms(1)
    by (cases "g_phase s")
       (auto simp: abortHere_def abortTake_def abortRelease_def advanceAfterLocal_def advanceAfterRemote_def
          at_gate_def leaveLocal_def signal_def pos_def Let_def)
  then show "pos (abortHere s) = pos s + 1" "targets (abortHere s) = targets s" "\<not> gate_done (abortHere s)" by auto
qed

text \<open>No gate stays held. A sweep that is not over is ended by aborting what it is at, once for each
  phase it has left, whatever phase and target it is in: the evaluation loop then finds it done. \<close>

theorem bw_abort_drains:
  assumes "\<not> gate_done s" "pos s \<le> 2 * length (targets s)"
  shows "idx ((abortHere ^^ (2 * length (targets s) - pos s)) s) = length (targets s)
    \<and> gate_done (sched (evalTop (g\<lparr>sched := (abortHere ^^ (2 * length (targets s) - pos s)) s\<rparr>)))"
proof -
  have "pos ((abortHere ^^ n) s) = pos s + n \<and> targets ((abortHere ^^ n) s) = targets s \<and> \<not> gate_done ((abortHere ^^ n) s)"
    if "n \<le> 2 * length (targets s) - pos s" for n
    using that
  proof (induction n)
    case (Suc n)
    then show ?case using abortHere_moves [of "(abortHere ^^ n) s"] assms(2) by simp
  qed (use assms in simp)
  from this [OF order_refl] have "pos ((abortHere ^^ (2 * length (targets s) - pos s)) s) = 2 * length (targets s)"
    "targets ((abortHere ^^ (2 * length (targets s) - pos s)) s) = targets s"
    using assms(2) by simp_all
  moreover from this(1) have "idx ((abortHere ^^ (2 * length (targets s) - pos s)) s) = length (targets s)"
    by (auto simp: pos_def split: if_splits)
  ultimately show ?thesis by (simp add: evalTop_def Let_def)
qed

definition demo_target :: bwTarget where
  "demo_target = \<lparr>t_laneID = 0, t_kind = KindUDP, t_leg = noRef, t_key = KeyForLeg 7 0 noRef, t_referenceBps = 0, t_capBps = 0\<rparr>"

definition demo_gate :: "unit gate" where
  "demo_gate = (newGate True 5 0)\<lparr>sched := fst (gateStart [demo_target, demo_target\<lparr>t_laneID := 2\<rparr>] (newBwScheduler True 5 0)), pc := AtTop\<rparr>"

lemma demo_gate_started: "gate_run (newGate True 5 0) [] demo_gate"
  using gate_run.snoc [OF gate_run.refl gate_step.start [of "newGate True 5 0" "[demo_target, demo_target\<lparr>t_laneID := 2\<rparr>]"]]
  by (simp add: demo_gate_def newGate_def gateStart_def newBwScheduler_def)

lemma bw_abort_drains_witness:
  "idx ((abortHere ^^ 4) (sched demo_gate)) = 2"
  using bw_abort_drains [of "sched demo_gate" undefined]
  by (simp add: demo_gate_def gateStart_def newBwScheduler_def pos_def)



text \<open>A wake that is still stored when the loop parks makes it launch the same probe a second time: the
  two moves between a launch and the next look at the gate leave one wake too many.\<close>

lemma stale_wake_relaunches:
  "\<exists>g t u. gate_run demo_gate [Launch t, Moved, Moved, Launch u, Launch u] g"
proof -
  let ?u = "demo_target\<lparr>t_laneID := 2\<rparr>"
  note d = demo_gate_def newGate_def gateStart_def newBwScheduler_def evalTop_def runLocal_def completeLocal_def
    advanceAfterRemote_def at_gate_def leaveLocal_def signal_def Let_def
  let ?g1 = "evalTop demo_gate" let ?g2 = "runLocal demo_target (Some ()) ?g1"
  let ?g3 = "?g2\<lparr>sched := completeLocal demo_target 0 (sched ?g2)\<rparr>"
  let ?g4 = "?g3\<lparr>sched := (sched ?g3)\<lparr>wake := False\<rparr>, pc := AtTop\<rparr>"
  let ?g5 = "?g4\<lparr>sched := advanceAfterRemote (t_key demo_target) (sched ?g4)\<rparr>"
  let ?g6 = "evalTop ?g5" let ?g7 = "runLocal ?u (Some ()) ?g6"
  let ?g8 = "?g7\<lparr>sched := (sched ?g7)\<lparr>wake := False\<rparr>, pc := AtTop\<rparr>"
  let ?g9 = "evalTop ?g8"
  have 1: "gate_run demo_gate [] ?g1"
    using gate_run.snoc [OF gate_run.refl gate_step.top [of demo_gate]] by (simp add: demo_gate_def)
  have 2: "gate_run demo_gate [Launch (prepareTarget demo_target (sched ?g1))] ?g2"
    using gate_run.snoc [OF 1 gate_step.launch [of ?g1 demo_target "Some ()"]] by (simp add: d)
  have 3: "gate_run demo_gate [Launch (prepareTarget demo_target (sched ?g1)), Moved] ?g3"
    using gate_run.snoc [OF 2 gate_step.complete [of "sched ?g3" demo_target 0 ?g2]] by (simp add: d)
  have 4: "gate_run demo_gate [Launch (prepareTarget demo_target (sched ?g1)), Moved] ?g4"
    using gate_run.snoc [OF 3 gate_step.woken [of ?g3]] by (simp add: d)
  have 5: "gate_run demo_gate [Launch (prepareTarget demo_target (sched ?g1)), Moved, Moved] ?g5"
    using gate_run.snoc [OF 4 gate_step.remote [of "sched ?g5" "t_key demo_target" ?g4]] by (simp add: d)
  have 6: "gate_run demo_gate [Launch (prepareTarget demo_target (sched ?g1)), Moved, Moved] ?g6"
    using gate_run.snoc [OF 5 gate_step.top [of ?g5]] by (simp add: d)
  have 7: "gate_run demo_gate [Launch (prepareTarget demo_target (sched ?g1)), Moved, Moved, Launch (prepareTarget ?u (sched ?g6))] ?g7"
    using gate_run.snoc [OF 6 gate_step.launch [of ?g6 ?u "Some ()"]] by (simp add: d)
  have 8: "gate_run demo_gate [Launch (prepareTarget demo_target (sched ?g1)), Moved, Moved, Launch (prepareTarget ?u (sched ?g6))] ?g8"
    using gate_run.snoc [OF 7 gate_step.woken [of ?g7]] by (simp add: d)
  have 9: "gate_run demo_gate [Launch (prepareTarget demo_target (sched ?g1)), Moved, Moved, Launch (prepareTarget ?u (sched ?g6))] ?g9"
    using gate_run.snoc [OF 8 gate_step.top [of ?g8]] by (simp add: d)
  have "gate_run demo_gate [Launch (prepareTarget demo_target (sched ?g1)), Moved, Moved, Launch (prepareTarget ?u (sched ?g6)),
      Launch (prepareTarget ?u (sched ?g9))] (runLocal ?u (Some ()) ?g9)"
    using gate_run.snoc [OF 9 gate_step.launch [of ?g9 ?u "Some ()"]] by (simp add: d)
  moreover have "prepareTarget ?u (sched ?g9) = prepareTarget ?u (sched ?g6)"
    by (simp add: d prepareTarget_def)
  ultimately show ?thesis by metis
qed

end
