(* ===== verification/Ping.thy ===== *)
theory Ping
  imports Leg "HOL-Library.AList"
begin

text \<open>
  \<open>internal/tunnel/v2/probe/ping/ping.go\<close>: the active ping of one transport path, with its pending
  table, its RTT estimate and its liveness judgment. A method is one step; the callbacks it invokes
  are the events of the step, in their order. Times are nanoseconds since the epoch.
\<close>

section \<open>State and steps\<close>

record message =
  m_ID :: u64
  m_TimeMS :: u64

record ping_quality =
  SampleMS :: u32
  SRTTMS :: u32
  RTTVarMS :: u32
  Samples :: u32

datatype ping_event = SendMsg message | OnDown | OnUp | Observer ping_quality | Delivery bool

text \<open>Which of the optional callbacks are set.\<close>

record ping_callbacks =
  hasOnDown :: bool
  hasOnUp :: bool
  hasObserver :: bool
  hasOnDelivery :: bool

record ping =
  interval :: int
  timeout :: int
  maxLoss :: int
  recoverSuccess :: int
  callbacks :: ping_callbacks
  nextID :: u64
  p_pending :: "(u64 \<times> u64) list"
  p_srtt :: u32
  p_rttVar :: u32
  sampleCount :: u32
  lastSampleMS :: u32
  lossCount :: int
  recoverCount :: int
  dead :: bool

definition newPing :: "int \<Rightarrow> int \<Rightarrow> int \<Rightarrow> int \<Rightarrow> ping_callbacks \<Rightarrow> bool \<Rightarrow> ping" where
  "newPing iv tmo ml rs cb initDead =
    \<lparr>interval = (if iv \<le> 0 then 1000000000 else iv), timeout = (if tmo \<le> 0 then 2000000000 else tmo),
     maxLoss = (if ml \<le> 0 then 3 else ml), recoverSuccess = (if rs \<le> 0 then 3 else rs), callbacks = cb,
     nextID = 0, p_pending = [], p_srtt = 0, p_rttVar = 0, sampleCount = 0, lastSampleMS = 0,
     lossCount = 0, recoverCount = 0, dead = initDead\<rparr>"

definition unixMilli :: "int \<Rightarrow> u64" where
  "unixMilli t = word_of_int (t div 1000000)"

definition sendPing :: "int \<Rightarrow> ping \<Rightarrow> ping \<times> ping_event list" where
  "sendPing now p =
    (let nowMS = unixMilli now; i = nextID p in
     (p\<lparr>nextID := i + 1, p_pending := AList.update i nowMS (p_pending p)\<rparr>,
      [SendMsg \<lparr>m_ID = i, m_TimeMS = nowMS\<rparr>]))"

definition markLostLocked :: "ping \<Rightarrow> ping \<times> bool" where
  "markLostLocked p =
    (let p = p\<lparr>lossCount := lossCount p + 1, recoverCount := 0\<rparr> in
     if dead p \<or> lossCount p < maxLoss p then (p, False) else (p\<lparr>dead := True\<rparr>, True))"

text \<open>The map loop of \<open>cleanupExpired\<close> calls \<open>markLostLocked\<close> once per expired entry, in any order.\<close>

fun markLosses :: "nat \<Rightarrow> ping \<Rightarrow> ping \<times> bool" where
  "markLosses 0 p = (p, False)"
| "markLosses (Suc n) p =
    (case markLostLocked p of (p, f) \<Rightarrow> (case markLosses n p of (p, f') \<Rightarrow> (p, f \<or> f')))"

definition cleanupExpired :: "int \<Rightarrow> ping \<Rightarrow> ping \<times> ping_event list" where
  "cleanupExpired now p =
    (if timeout p = 0 then (p, [])
     else let cutoff = unixMilli (now - timeout p);
              expired = length (filter (\<lambda>(i, sendMS). sendMS < cutoff) (p_pending p))
          in case markLosses expired (p\<lparr>p_pending := filter (\<lambda>(i, sendMS). \<not> sendMS < cutoff) (p_pending p)\<rparr>) of
            (p, fireDown) \<Rightarrow>
              (p, (if hasOnDelivery (callbacks p) then replicate expired (Delivery False) else [])
                @ (if fireDown \<and> hasOnDown (callbacks p) then [OnDown] else [])))"

definition markRecoveredLocked :: "ping \<Rightarrow> ping \<times> bool" where
  "markRecoveredLocked p =
    (let p = p\<lparr>lossCount := 0\<rparr> in
     if \<not> dead p then (p\<lparr>recoverCount := 0\<rparr>, False)
     else let p = p\<lparr>recoverCount := recoverCount p + 1\<rparr> in
       if recoverCount p < recoverSuccess p then (p, False)
       else (p\<lparr>dead := False, recoverCount := 0\<rparr>, True))"

text \<open>The RTT update of \<open>Pong\<close>.\<close>

definition addSample :: "u32 \<Rightarrow> ping \<Rightarrow> ping" where
  "addSample x p =
    (let p = p\<lparr>lastSampleMS := x, sampleCount := sampleCount p + 1\<rparr> in
     if sampleCount p = 1 then p\<lparr>p_srtt := x, p_rttVar := x div 2\<rparr>
     else let diff = (if p_srtt p > x then p_srtt p - x else x - p_srtt p)
          in p\<lparr>p_rttVar := (p_rttVar p * (4 - 1) + diff) div 4, p_srtt := (p_srtt p * (8 - 1) + x) div 8\<rparr>)"

definition CurrentQuality :: "ping \<Rightarrow> ping_quality" where
  "CurrentQuality p = \<lparr>SampleMS = lastSampleMS p, SRTTMS = p_srtt p, RTTVarMS = p_rttVar p, Samples = sampleCount p\<rparr>"

definition Pong :: "message \<Rightarrow> u64 \<Rightarrow> ping \<Rightarrow> ping \<times> ping_event list \<times> ping_quality option" where
  "Pong m nowMS p =
    (case map_of (p_pending p) (m_ID m) of None \<Rightarrow> (p, [], None)
     | Some sendMS \<Rightarrow>
       let q = p\<lparr>p_pending := AList.delete (m_ID m) (p_pending p)\<rparr> in
       if m_TimeMS m \<noteq> sendMS then (q, [], None)
       else if nowMS < sendMS then (q, [], None)
       else let q = addSample (ucast (nowMS - sendMS)) q; quality = CurrentQuality q in
         (case markRecoveredLocked q of (q, fireUp) \<Rightarrow>
           (q, (if fireUp \<and> hasOnUp (callbacks q) then [OnUp] else [])
             @ (if hasObserver (callbacks q) then [Observer quality] else [])
             @ (if hasOnDelivery (callbacks q) then [Delivery True] else []), Some quality)))"

definition MarkAlive :: "ping \<Rightarrow> ping" where
  "MarkAlive p = p\<lparr>dead := False, lossCount := 0, recoverCount := 0\<rparr>"

text \<open>\<open>Start\<close>: a first ping, then on every tick a ping and a cleanup, until a send fails or the
  context ends. The flag tells that the send succeeded.\<close>

definition tick :: "int \<Rightarrow> bool \<Rightarrow> ping \<Rightarrow> ping \<times> ping_event list" where
  "tick now sent p =
    (case sendPing now p of (p, es) \<Rightarrow>
      if \<not> sent then (p, es) else (case cleanupExpired now p of (p, es') \<Rightarrow> (p, es @ es')))"

datatype ping_op = First int | Tick int bool | PongIn message u64 | Alive

fun ping_step :: "ping_op \<Rightarrow> ping \<Rightarrow> ping \<times> ping_event list" where
  "ping_step (First now) p = sendPing now p"
| "ping_step (Tick now sent) p = tick now sent p"
| "ping_step (PongIn m nowMS) p = (case Pong m nowMS p of (p, es, _) \<Rightarrow> (p, es))"
| "ping_step Alive p = (MarkAlive p, [])"

fun ping_run :: "ping_op list \<Rightarrow> ping \<Rightarrow> ping \<times> ping_event list" where
  "ping_run [] p = (p, [])"
| "ping_run (x # xs) p = (case ping_step x p of (p, es) \<Rightarrow> (case ping_run xs p of (p, es') \<Rightarrow> (p, es @ es')))"

section \<open>Liveness\<close>

text \<open>The judgment as a function of the outcomes of the pings, the latest first: enough losses in a row
  make the path dead, enough answers in a row make it alive, anything else leaves it.\<close>

fun hysteresis :: "int \<Rightarrow> int \<Rightarrow> bool \<Rightarrow> bool list \<Rightarrow> bool" where
  "hysteresis ml rs d [] = d"
| "hysteresis ml rs d (x # xs) =
    (if int (length (takeWhile Not (x # xs))) \<ge> ml then True
     else if int (length (takeWhile id (x # xs))) \<ge> rs then False
     else hysteresis ml rs d xs)"

fun outcomes :: "ping_event list \<Rightarrow> bool list" where
  "outcomes [] = []"
| "outcomes (Delivery b # es) = b # outcomes es"
| "outcomes (_ # es) = outcomes es"

lemma outcomes_append [simp]: "outcomes (es @ fs) = outcomes es @ outcomes fs"
  by (induction es rule: outcomes.induct) auto

lemma outcomes_replicate [simp]: "outcomes (replicate n (Delivery b)) = replicate n b"
  by (induction n) auto

definition live_inv :: "int \<Rightarrow> int \<Rightarrow> bool \<Rightarrow> bool list \<Rightarrow> ping \<Rightarrow> bool" where
  "live_inv ml rs d0 ys p \<longleftrightarrow> maxLoss p = ml \<and> recoverSuccess p = rs \<and> ml > 0 \<and> rs > 0 \<and> hasOnDelivery (callbacks p)
    \<and> lossCount p = int (length (takeWhile Not ys))
    \<and> recoverCount p = (if dead p then int (length (takeWhile id ys)) else 0)
    \<and> (dead p \<or> lossCount p < ml) \<and> recoverCount p < rs \<and> dead p = hysteresis ml rs d0 ys"

lemma live_lost: "live_inv ml rs d0 ys p \<Longrightarrow> live_inv ml rs d0 (False # ys) (fst (markLostLocked p))"
  by (auto simp: live_inv_def markLostLocked_def Let_def)

lemma live_losses: "live_inv ml rs d0 ys p \<Longrightarrow> live_inv ml rs d0 (replicate n False @ ys) (fst (markLosses n p))"
proof (induction n arbitrary: p ys)
  case (Suc n)
  from Suc.IH [OF live_lost [OF Suc.prems]] show ?case
    by (cases "markLostLocked p"; cases "markLosses n (fst (markLostLocked p))") (simp add: replicate_app_Cons_same)
qed simp

lemma live_recovered: "live_inv ml rs d0 ys p \<Longrightarrow> live_inv ml rs d0 (True # ys) (fst (markRecoveredLocked p))"
  by (auto simp: live_inv_def markRecoveredLocked_def Let_def)

lemma markLosses_other:
  "p_pending (fst (markLosses n p)) = p_pending p \<and> callbacks (fst (markLosses n p)) = callbacks p
    \<and> timeout (fst (markLosses n p)) = timeout p \<and> nextID (fst (markLosses n p)) = nextID p
    \<and> maxLoss (fst (markLosses n p)) = maxLoss p
    \<and> (p_srtt (fst (markLosses n p)), p_rttVar (fst (markLosses n p)), sampleCount (fst (markLosses n p)), lastSampleMS (fst (markLosses n p)))
        = (p_srtt p, p_rttVar p, sampleCount p, lastSampleMS p)"
proof (induction n arbitrary: p)
  case (Suc n)
  show ?case
    using Suc.IH [of "fst (markLostLocked p)"]
    by (cases "markLostLocked p"; cases "markLosses n (fst (markLostLocked p))")
       (auto simp: markLostLocked_def Let_def split: if_splits)
qed simp

lemma markLosses_down: "snd (markLosses n p) \<longleftrightarrow> \<not> dead p \<and> dead (fst (markLosses n p))"
proof (induction n arbitrary: p)
  case (Suc n)
  have "dead (fst (markLosses n q))" if "dead q" for q
    using that by (induction n arbitrary: q) (auto simp: markLostLocked_def Let_def split: prod.splits)
  moreover obtain q f where "markLostLocked p = (q, f)" by (meson surj_pair)
  moreover from this have "f \<longleftrightarrow> \<not> dead p \<and> dead q" "dead p \<Longrightarrow> dead q"
    by (auto simp: markLostLocked_def Let_def split: if_splits)
  moreover obtain q' f' where "markLosses n q = (q', f')" by (meson surj_pair)
  ultimately show ?case using Suc.IH [of q] by fastforce
qed simp

lemma live_other: "live_inv ml rs d0 ys p \<Longrightarrow> live_inv ml rs d0 ys (p\<lparr>p_pending := pd\<rparr>) \<and> live_inv ml rs d0 ys (p\<lparr>nextID := i, p_pending := pd\<rparr>)
    \<and> live_inv ml rs d0 ys (addSample x (p\<lparr>p_pending := pd\<rparr>))"
  by (auto simp: live_inv_def addSample_def Let_def)

lemma live_cleanup:
  assumes "live_inv ml rs d0 ys p" "cleanupExpired now p = (p', es)"
  shows "live_inv ml rs d0 (rev (outcomes es) @ ys) p'"
proof -
  let ?n = "length (filter (\<lambda>(i, sendMS). sendMS < unixMilli (now - timeout p)) (p_pending p))"
  let ?q = "p\<lparr>p_pending := filter (\<lambda>(i, sendMS). \<not> sendMS < unixMilli (now - timeout p)) (p_pending p)\<rparr>"
  have cb: "hasOnDelivery (callbacks (fst (markLosses ?n ?q)))" "hasOnDelivery (callbacks p)"
    using assms(1) by (auto simp: markLosses_other live_inv_def)
  have "live_inv ml rs d0 (replicate ?n False @ ys) (fst (markLosses ?n ?q))"
    using assms(1) live_other by (intro live_losses) blast
  then show ?thesis
    using assms cb by (auto simp: cleanupExpired_def Let_def split: if_splits prod.splits)
qed

lemma markRecovered_other:
  "p_pending (fst (markRecoveredLocked p)) = p_pending p \<and> callbacks (fst (markRecoveredLocked p)) = callbacks p
    \<and> nextID (fst (markRecoveredLocked p)) = nextID p
    \<and> (p_srtt (fst (markRecoveredLocked p)), p_rttVar (fst (markRecoveredLocked p)), sampleCount (fst (markRecoveredLocked p)))
        = (p_srtt p, p_rttVar p, sampleCount p)"
  by (simp add: markRecoveredLocked_def Let_def)

lemma addSample_other [simp]:
  "callbacks (addSample x p) = callbacks p" "p_pending (addSample x p) = p_pending p" "dead (addSample x p) = dead p"
  "nextID (addSample x p) = nextID p" "sampleCount (addSample x p) = sampleCount p + 1"
  by (simp_all add: addSample_def Let_def)

text \<open>\<open>Pong\<close> in one equation: the answer counts when it matches a pending ping and the clock went forward.\<close>

definition answers :: "message \<Rightarrow> u64 \<Rightarrow> ping \<Rightarrow> bool" where
  "answers m nowMS p \<longleftrightarrow> map_of (p_pending p) (m_ID m) = Some (m_TimeMS m) \<and> m_TimeMS m \<le> nowMS"

definition sampled :: "message \<Rightarrow> u64 \<Rightarrow> ping \<Rightarrow> ping" where
  "sampled m nowMS p = addSample (ucast (nowMS - m_TimeMS m)) (p\<lparr>p_pending := AList.delete (m_ID m) (p_pending p)\<rparr>)"

lemma pong_answers:
  assumes "answers m nowMS p"
  shows "Pong m nowMS p =
    (let q = sampled m nowMS p in
     (fst (markRecoveredLocked q),
      (if snd (markRecoveredLocked q) \<and> hasOnUp (callbacks p) then [OnUp] else [])
        @ (if hasObserver (callbacks p) then [Observer (CurrentQuality q)] else [])
        @ (if hasOnDelivery (callbacks p) then [Delivery True] else []),
      Some (CurrentQuality q)))"
proof -
  obtain q f where mr: "markRecoveredLocked (sampled m nowMS p) = (q, f)" by (meson surj_pair)
  moreover have "callbacks q = callbacks p" using markRecovered_other [of "sampled m nowMS p"] mr by (simp add: sampled_def)
  ultimately show ?thesis using assms by (auto simp: answers_def sampled_def Pong_def Let_def)
qed

lemma pong_ignored:
  assumes "\<not> answers m nowMS p"
  shows "Pong m nowMS p =
    (if map_of (p_pending p) (m_ID m) = None then p
     else p\<lparr>p_pending := AList.delete (m_ID m) (p_pending p)\<rparr>, [], None)"
  using assms by (auto simp: answers_def Pong_def Let_def not_le split: option.splits)

lemma live_pong:
  assumes "live_inv ml rs d0 ys p" "Pong m nowMS p = (p', es, q)"
  shows "live_inv ml rs d0 (rev (outcomes es) @ ys) p'"
proof (cases "answers m nowMS p")
  case True
  have "live_inv ml rs d0 (True # ys) (fst (markRecoveredLocked (sampled m nowMS p)))"
    unfolding sampled_def using live_other [OF assms(1)] by (intro live_recovered) blast
  moreover have "hasOnDelivery (callbacks p)" using assms(1) by (simp add: live_inv_def)
  ultimately show ?thesis using assms(2) by (auto simp: pong_answers [OF True] Let_def)
next
  case False
  then show ?thesis using assms(2) live_other [OF assms(1)] assms(1) by (auto simp: pong_ignored split: if_splits)
qed

lemma live_step:
  assumes "live_inv ml rs d0 ys p" "x \<noteq> Alive" "ping_step x p = (p', es)"
  shows "live_inv ml rs d0 (rev (outcomes es) @ ys) p'"
proof (cases x)
  case (First now)
  then show ?thesis using assms live_other by (auto simp: sendPing_def Let_def)
next
  case (Tick now sent)
  obtain p1 es1 where s: "sendPing now p = (p1, es1)" by (meson surj_pair)
  then have "live_inv ml rs d0 ys p1" "outcomes es1 = []" using assms(1) live_other by (auto simp: sendPing_def Let_def)
  then show ?thesis
    using Tick assms(3) s live_cleanup by (auto simp: tick_def split: if_splits prod.splits)
next
  case (PongIn m nowMS)
  then show ?thesis using assms live_pong by (auto split: prod.splits)
qed (use assms in auto)

lemma live_run:
  "live_inv ml rs d0 ys p \<Longrightarrow> Alive \<notin> set xs \<Longrightarrow> ping_run xs p = (p', es) \<Longrightarrow> live_inv ml rs d0 (rev (outcomes es) @ ys) p'"
proof (induction xs arbitrary: ys p es)
  case (Cons x xs)
  obtain p1 es1 where s: "ping_step x p = (p1, es1)" by (meson surj_pair)
  then obtain es2 where r: "ping_run xs p1 = (p', es2)" "es = es1 @ es2"
    using Cons.prems(3) by (auto split: prod.splits)
  have "live_inv ml rs d0 (rev (outcomes es1) @ ys) p1" using Cons.prems s by (intro live_step) auto
  from Cons.IH [OF this _ r(1)] Cons.prems r(2) show ?case by auto
qed simp

lemma live_new: "hasOnDelivery cb \<Longrightarrow> live_inv (if ml \<le> 0 then 3 else ml) (if rs \<le> 0 then 3 else rs) d [] (newPing iv tmo ml rs cb d)"
  by (simp add: live_inv_def newPing_def)


definition all_callbacks :: ping_callbacks where
  "all_callbacks = \<lparr>hasOnDown = True, hasOnUp = True, hasObserver = True, hasOnDelivery = True\<rparr>"

lemma demo_run:
  "ping_run [First 0, PongIn \<lparr>m_ID = 0, m_TimeMS = 0\<rparr> 5] (newPing 0 0 0 1 all_callbacks True) =
    ((newPing 0 0 0 1 all_callbacks False)\<lparr>nextID := 1, p_srtt := 5, p_rttVar := 2, sampleCount := 1, lastSampleMS := 5\<rparr>,
     [SendMsg \<lparr>m_ID = 0, m_TimeMS = 0\<rparr>, OnUp, Observer \<lparr>SampleMS = 5, SRTTMS = 5, RTTVarMS = 2, Samples = 1\<rparr>, Delivery True])"
  by (simp add: newPing_def sendPing_def unixMilli_def Pong_def addSample_def CurrentQuality_def
      markRecoveredLocked_def all_callbacks_def Let_def)


section \<open>Callbacks\<close>

lemma cleanup_split:
  "cleanupExpired now p = (p, []) \<or>
   (\<exists>n pd. n + length pd = length (p_pending p) \<and> cleanupExpired now p =
      (fst (markLosses n (p\<lparr>p_pending := pd\<rparr>)),
       (if hasOnDelivery (callbacks p) then replicate n (Delivery False) else [])
        @ (if snd (markLosses n (p\<lparr>p_pending := pd\<rparr>)) \<and> hasOnDown (callbacks p) then [OnDown] else [])))"
proof (cases "timeout p = 0")
  case False
  define P where "P = (\<lambda>(i :: u64, sendMS). sendMS < unixMilli (now - timeout p))"
  let ?n = "length (filter P (p_pending p))" and ?pd = "filter (\<lambda>x. \<not> P x) (p_pending p)"
  have cl: "cleanupExpired now p = (case markLosses ?n (p\<lparr>p_pending := ?pd\<rparr>) of (p, fireDown) \<Rightarrow>
      (p, (if hasOnDelivery (callbacks p) then replicate ?n (Delivery False) else [])
                @ (if fireDown \<and> hasOnDown (callbacks p) then [OnDown] else [])))"
    using False by (simp add: cleanupExpired_def P_def Let_def case_prod_unfold)
  obtain q f where "markLosses ?n (p\<lparr>p_pending := ?pd\<rparr>) = (q, f)" by (meson surj_pair)
  moreover from this have "callbacks q = callbacks p"
    using markLosses_other [of ?n "p\<lparr>p_pending := ?pd\<rparr>"] by simp
  moreover have "?n + length ?pd = length (p_pending p)" by (rule sum_length_filter_compl)
  ultimately show ?thesis by (intro disjI2 exI [of _ ?n] exI [of _ ?pd]) (simp add: cl)
qed (simp add: cleanupExpired_def)

lemma stays_dead: "dead q \<Longrightarrow> dead (fst (markLosses n q))"
  by (induction n arbitrary: q) (auto simp: markLostLocked_def Let_def split: prod.splits)

lemma cleanup_events:
  assumes "cleanupExpired now p = (p', es)" "hasOnDown (callbacks p)"
  shows "(OnDown \<in> set es \<longleftrightarrow> \<not> dead p \<and> dead p') \<and> OnUp \<notin> set es \<and> count_list es OnDown \<le> 1 \<and> (dead p \<longrightarrow> dead p')"
proof -
  have c: "count_list (replicate n (Delivery False)) OnDown = 0" for n by (induction n) auto
  have d: "snd (markLosses n (p\<lparr>p_pending := pd\<rparr>)) \<longleftrightarrow> \<not> dead p \<and> dead (fst (markLosses n (p\<lparr>p_pending := pd\<rparr>)))"
    for n pd using markLosses_down [of n "p\<lparr>p_pending := pd\<rparr>"] by simp
  from cleanup_split [of now p] show ?thesis
  proof (elim disjE exE conjE)
    fix n pd
    assume "cleanupExpired now p = (fst (markLosses n (p\<lparr>p_pending := pd\<rparr>)),
       (if hasOnDelivery (callbacks p) then replicate n (Delivery False) else [])
        @ (if snd (markLosses n (p\<lparr>p_pending := pd\<rparr>)) \<and> hasOnDown (callbacks p) then [OnDown] else []))"
    then have "p' = fst (markLosses n (p\<lparr>p_pending := pd\<rparr>))"
      "es = (if hasOnDelivery (callbacks p) then replicate n (Delivery False) else [])
        @ (if \<not> dead p \<and> dead p' then [OnDown] else [])"
      using assms d by auto
    then show ?thesis using c stays_dead [of "p\<lparr>p_pending := pd\<rparr>" n] by auto
  qed (use assms in auto)
qed

text \<open> C22: The callbacks. Whatever a step does, OnDown fires in it exactly when the path goes from alive to
  dead and OnUp exactly when it goes from dead to alive, each once; MarkAlive fires nothing. \<close>

theorem ping_edges:
  assumes "hasOnDown (callbacks p)" "hasOnUp (callbacks p)" "ping_step x p = (p', es)"
  shows "(OnDown \<in> set es \<longleftrightarrow> \<not> dead p \<and> dead p')
    \<and> (OnUp \<in> set es \<longleftrightarrow> x \<noteq> Alive \<and> dead p \<and> \<not> dead p')
    \<and> count_list es OnDown \<le> 1 \<and> count_list es OnUp \<le> 1"
proof (cases x)
  case (Tick now sent)
  obtain p1 es1 where s: "sendPing now p = (p1, es1)" by (meson surj_pair)
  then have 1: "dead p1 = dead p" "callbacks p1 = callbacks p" "OnDown \<notin> set es1" "OnUp \<notin> set es1"
    by (auto simp: sendPing_def Let_def)
  obtain es2 where "(p', es2) = (if sent then cleanupExpired now p1 else (p1, []))" "es = es1 @ es2"
    using Tick assms(3) s by (auto simp: tick_def split: if_splits prod.splits)
  moreover from this(1) have "(OnDown \<in> set es2 \<longleftrightarrow> \<not> dead p1 \<and> dead p') \<and> OnUp \<notin> set es2 \<and> count_list es2 OnDown \<le> 1
      \<and> (dead p1 \<longrightarrow> dead p')"
    using cleanup_events [of now p1 p' es2] 1(2) assms(1) by (cases sent) auto
  ultimately show ?thesis using Tick 1 by (auto simp: count_notin)
next
  case (PongIn m nowMS)
  show ?thesis
  proof (cases "answers m nowMS p")
    case True
    have "dead (sampled m nowMS p) = dead p" by (simp add: sampled_def)
    moreover have "snd (markRecoveredLocked q) \<longleftrightarrow> dead q \<and> \<not> dead (fst (markRecoveredLocked q))"
      "dead (fst (markRecoveredLocked q)) \<longrightarrow> dead q" for q
      by (auto simp: markRecoveredLocked_def Let_def)
    ultimately show ?thesis using PongIn assms by (auto simp: pong_answers [OF True] Let_def)
  qed (use PongIn assms in \<open>auto simp: pong_ignored split: if_splits\<close>)
qed (use assms in \<open>auto simp: sendPing_def MarkAlive_def Let_def\<close>)

lemma ping_edges_witness:
  "OnUp \<in> set (snd (ping_step (PongIn \<lparr>m_ID = 0, m_TimeMS = 0\<rparr> 5) ((newPing 0 0 0 1 all_callbacks True)\<lparr>p_pending := [(0, 0)]\<rparr>)))"
proof -
  let ?p = "(newPing 0 0 0 1 all_callbacks True)\<lparr>p_pending := [(0, 0)]\<rparr>" and ?x = "PongIn \<lparr>m_ID = 0, m_TimeMS = 0\<rparr> 5"
  have "dead ?p \<and> \<not> dead (fst (ping_step ?x ?p))"
    by (simp add: newPing_def Pong_def addSample_def markRecoveredLocked_def Let_def)
  then show ?thesis
    using ping_edges [of ?p ?x "fst (ping_step ?x ?p)" "snd (ping_step ?x ?p)"]
    by (simp add: all_callbacks_def newPing_def)
qed

section \<open>The RTT estimate and the accounting\<close>

definition est_of :: "ping \<Rightarrow> estimator" where
  "est_of p = \<lparr>srttMS = p_srtt p, rttvarMS = p_rttVar p, rttSamples = sampleCount p\<rparr>"

lemma est_addSample: "est_of (addSample x p) = rttAdd x (est_of p)"
proof -
  have "sampleCount p + 1 = 1 \<longleftrightarrow> sampleCount p = 0" by simp
  then show ?thesis
    by (auto simp: est_of_def addSample_def rttAdd_def absDiff_def Let_def mult.commute not_less order.order_iff_strict)
qed

fun qualities :: "ping_event list \<Rightarrow> ping_quality list" where
  "qualities [] = []"
| "qualities (Observer q # es) = q # qualities es"
| "qualities (_ # es) = qualities es"

fun sends :: "ping_event list \<Rightarrow> nat" where
  "sends [] = 0"
| "sends (SendMsg m # es) = Suc (sends es)"
| "sends (_ # es) = sends es"

lemma qualities_append [simp]: "qualities (es @ fs) = qualities es @ qualities fs"
  by (induction es rule: qualities.induct) auto

lemma sends_append [simp]: "sends (es @ fs) = sends es + sends fs"
  by (induction es rule: sends.induct) auto

lemma replicate_events [simp]:
  "qualities (replicate n (Delivery b)) = []" "sends (replicate n (Delivery b)) = 0"
  by (induction n) auto

lemma length_update: "length (AList.update k v xs) \<le> Suc (length xs)"
  by (induction xs) auto

lemma length_delete: "map_of xs k = Some v \<Longrightarrow> Suc (length (AList.delete k xs)) \<le> length xs"
  unfolding AList.delete_eq by (induction xs) (auto split: if_splits intro: le_SucI length_filter_le [THEN order_trans])

lemma markLosses_est: "est_of (fst (markLosses n (p\<lparr>p_pending := pd\<rparr>))) = est_of p"
  "p_pending (fst (markLosses n (p\<lparr>p_pending := pd\<rparr>))) = pd" "callbacks (fst (markLosses n (p\<lparr>p_pending := pd\<rparr>))) = callbacks p"
  using markLosses_other [of n "p\<lparr>p_pending := pd\<rparr>"] by (simp_all add: est_of_def)

definition accounted :: "ping \<Rightarrow> ping_event list \<Rightarrow> ping \<Rightarrow> bool" where
  "accounted p es p' \<longleftrightarrow> callbacks p' = callbacks p
    \<and> est_of p' = fold rttAdd (map SampleMS (qualities es)) (est_of p)
    \<and> length (outcomes es) + length (p_pending p') \<le> length (p_pending p) + sends es"

lemma accounted_trans: "accounted p es p' \<Longrightarrow> accounted p' fs p'' \<Longrightarrow> accounted p (es @ fs) p''"
  by (simp add: accounted_def)

lemma accounted_cleanup: "cleanupExpired now p = (p', es) \<Longrightarrow> accounted p es p'"
  using cleanup_split [of now p] by (auto simp: accounted_def markLosses_est)

lemma accounted_send: "sendPing now p = (p', es) \<Longrightarrow> accounted p es p'"
  using length_update [of "nextID p" "unixMilli now" "p_pending p"]
  by (auto simp: sendPing_def accounted_def est_of_def Let_def)

lemma accounted_step:
  assumes "hasObserver (callbacks p)" "ping_step x p = (p', es)"
  shows "accounted p es p'"
proof (cases x)
  case (Tick now sent)
  obtain p1 es1 where s: "sendPing now p = (p1, es1)" by (meson surj_pair)
  obtain p2 es2 where c: "cleanupExpired now p1 = (p2, es2)" by (meson surj_pair)
  from Tick assms(2) s c accounted_send [OF s] accounted_trans [OF accounted_send [OF s] accounted_cleanup [OF c]]
  show ?thesis by (auto simp: tick_def split: if_splits)
next
  case (PongIn m nowMS)
  show ?thesis
  proof (cases "answers m nowMS p")
    case True
    have l: "Suc (length (AList.delete (m_ID m) (p_pending p))) \<le> length (p_pending p)"
      using True by (intro length_delete) (auto simp: answers_def)
    have e: "est_of (fst (markRecoveredLocked (sampled m nowMS p))) = est_of (sampled m nowMS p)"
      "callbacks (fst (markRecoveredLocked (sampled m nowMS p))) = callbacks p"
      "p_pending (fst (markRecoveredLocked (sampled m nowMS p))) = AList.delete (m_ID m) (p_pending p)"
      using markRecovered_other [of "sampled m nowMS p"] by (simp_all add: est_of_def sampled_def)
    have s: "est_of (sampled m nowMS p) = rttAdd (SampleMS (CurrentQuality (sampled m nowMS p))) (est_of p)"
      unfolding sampled_def est_addSample by (simp add: CurrentQuality_def addSample_def Let_def est_of_def)
    show ?thesis using PongIn assms l by (auto simp: pong_answers [OF True] Let_def accounted_def e s)
  next
    case False
    then show ?thesis using PongIn assms length_delete [of "p_pending p" "m_ID m"]
      by (auto simp: pong_ignored accounted_def est_of_def intro: Suc_leD)
  qed
next
  case (First now)
  then show ?thesis using assms accounted_send by simp
qed (use assms in \<open>auto simp: MarkAlive_def accounted_def est_of_def\<close>)

lemma accounted_run:
  "hasObserver (callbacks p) \<Longrightarrow> ping_run xs p = (p', es) \<Longrightarrow> accounted p es p'"
proof (induction xs arbitrary: p es)
  case (Cons x xs)
  obtain p1 es1 where s: "ping_step x p = (p1, es1)" by (meson surj_pair)
  then obtain es2 where r: "ping_run xs p1 = (p', es2)" "es = es1 @ es2" using Cons.prems by (auto split: prod.splits)
  have a: "accounted p es1 p1" by (rule accounted_step [OF Cons.prems(1) s])
  then show ?case using Cons.IH [OF _ r(1)] Cons.prems(1) r(2) accounted_trans [OF a] by (simp add: accounted_def)
qed (simp add: accounted_def)



end
