(* ===== verification/Send.thy ===== *)
theory Send
  imports Protocol Fec Drr Session BwGate
begin

text \<open>
  \<open>internal/tunnel/v2/send/send.go\<close>: the state of the sender and its data and control path. Lanes are
  references into a heap, because the lane table, the schedulers and the QoS inputs all point to
  them. \<open>outq\<close> is everything that was written to the transport queue, in order; \<open>live\<close> tells that the
  context of a write is not done. \<open>stale\<close> is what a recycled packet buffer holds. A result \<open>None\<close> is a
  panic, or a repair coefficient that is never found.
\<close>

section \<open>State\<close>

datatype send_error = ErrNoRunnableLane | ErrUnknownLane | ErrLaneUnavailable | ErrSessionIDConflict
  | ErrProto proto_error | ErrContext | ErrSession session_error

record sendState =
  nextRepairKey :: u32
  fecEnabled :: bool

record bootstrapLane =
  b_LaneID :: u8
  b_Weight :: u32
  b_Leg :: LegRef
  b_TCPRemote :: string

type_synonym laneKey = "u64 \<times> u8"

record 'l send =
  sessionManager :: store
  laneManager :: "(nat, 'l, u64 \<times> nat, unit) manager"
  hasStream :: bool
  bootstrapLanes :: "bootstrapLane list"
  outq :: "(LegRef \<times> bytes) list"
  fecConfigured :: bool
  fecCodecs :: "nat \<Rightarrow> nat \<Rightarrow> codec option"
  send_isClient :: bool
  enableBW :: bool
  bwCapBps :: u64
  bwReference :: u64
  bwSched :: "'l bwScheduler option"
  activeSessionID :: u64
  hasActiveSession :: bool
  bootstrapped :: bool
  lanes :: "laneKey \<rightharpoonup> nat"
  lheap :: "laneRuntime list"
  strategies :: "u64 \<rightharpoonup> nat drr"
  sendStates :: "u64 \<rightharpoonup> sendState"
  stale :: bytes

definition updLane :: "nat \<Rightarrow> (laneRuntime \<Rightarrow> laneRuntime) \<Rightarrow> 'l send \<Rightarrow> 'l send" where
  "updLane r f s = s\<lparr>lheap := (lheap s)[r := f (lheap s ! r)]\<rparr>"

definition activeSession :: "'l send \<Rightarrow> u64 \<times> bool" where
  "activeSession s = (activeSessionID s, hasActiveSession s)"

definition activateSession :: "u64 \<Rightarrow> 'l send \<Rightarrow> 'l send" where
  "activateSession i s = s\<lparr>activeSessionID := i, hasActiveSession := True\<rparr>"

definition qosSelectionEnabled :: "'l send \<Rightarrow> bool" where
  "qosSelectionEnabled s =
    (if \<not> enableBW s then True else case bwSched s of None \<Rightarrow> False | Some b \<Rightarrow> isDone (Some b))"

section \<open>FEC configuration\<close>

definition enableSessionFEC :: "u64 \<Rightarrow> 'l send \<Rightarrow> 'l send" where
  "enableSessionFEC i s =
    (if \<not> fecConfigured s then s
     else case sendStates s i of None \<Rightarrow> s
       | Some st \<Rightarrow> s\<lparr>sendStates := (sendStates s)(i \<mapsto> st\<lparr>fecEnabled := True\<rparr>)\<rparr>)"

definition EnableFEC :: "'l send \<Rightarrow> 'l send" where
  "EnableFEC s =
    (let s = s\<lparr>fecConfigured := True,
       fecCodecs := (\<lambda>i r. if 1 \<le> i \<and> i \<le> 4 \<and> 1 \<le> r \<and> r \<le> 4
         then (case NewCodec (int i) (int r) of Inl _ \<Rightarrow> None | Inr c \<Rightarrow> Some c) else fecCodecs s i r)\<rparr>
     in case activeSession s of (i, ok) \<Rightarrow> if ok then enableSessionFEC i s else s)"

definition sessionFECEnabled :: "u64 \<Rightarrow> 'l send \<Rightarrow> bool" where
  "sessionFECEnabled i s = (case sendStates s i of None \<Rightarrow> False | Some st \<Rightarrow> fecEnabled st)"

definition scaledFECRepairCount :: "u8 \<Rightarrow> int \<Rightarrow> u8" where
  "scaledFECRepairCount repairCount sourceSpan =
    (if sourceSpan \<le> 0 \<or> sourceSpan > maxFECSourceSpan then 0
     else
       let n = (if repairCount = 0 then 1 else repairCount);
           n = (if unat n > 4 then 4 else n);
           scaled = (int (unat n) * sourceSpan + maxFECSourceSpan - 1) div maxFECSourceSpan
       in if scaled < 1 then 1 else if scaled > sourceSpan then word_of_int sourceSpan else word_of_int scaled)"

definition fecCodecFor :: "int \<Rightarrow> u8 \<Rightarrow> 'l send \<Rightarrow> codec option" where
  "fecCodecFor sourceSpan repairCount s =
    (if sourceSpan \<le> 0 \<or> sourceSpan > maxFECSourceSpan \<or> repairCount = 0 \<or> repairCount > 4 then None
     else fecCodecs s (nat sourceSpan) (unat repairCount))"

section \<open>Writing frames\<close>

text \<open>The size hint of a buffer; a body of the wrong type panics.\<close>

definition estimateFrameSize :: "frame \<Rightarrow> nat option" where
  "estimateFrameSize f =
    (if f_type f = TypeHELLO then Some (10 + 11)
     else if f_type f = TypeHELLOACK then Some (10 + 12)
     else if f_type f = TypePING \<or> f_type f = TypePONG then Some (10 + 16)
     else if f_type f = TypeDATA then (case f_body f of Some (DataBody _ _ p) \<Rightarrow> Some (10 + 4 + length p) | _ \<Rightarrow> None)
     else if f_type f = TypeREPAIR then (case f_body f of Some (RepairBody _ _ _ _ y) \<Rightarrow> Some (10 + 7 + length y) | _ \<Rightarrow> None)
     else if f_type f = TypeCLOSE then Some (10 + 2)
     else if f_type f = TypeBandwidthProbe then
       (case f_body f of Some (BandwidthProbeBody _ _ _ _ _ _ _ y) \<Rightarrow> Some (10 + 44 + length y) | _ \<Rightarrow> None)
     else if f_type f = TypeBandwidthProbeAck then Some (10 + 36)
     else Some (10 + 256))"

definition encodeFrame :: "frame \<Rightarrow> 'l send \<Rightarrow> (send_error + bytes) option" where
  "encodeFrame f s =
    (case estimateFrameSize f of None \<Rightarrow> None
     | Some n \<Rightarrow> (case encode f [] (take n (stale s @ replicate n 0)) of
         Inl e \<Rightarrow> Some (Inl (ErrProto e)) | Inr b \<Rightarrow> Some (Inr b)))"

definition WriteTo :: "bool \<Rightarrow> LegRef \<Rightarrow> bytes \<Rightarrow> 'l send \<Rightarrow> 'l send \<times> send_error option" where
  "WriteTo live leg packet s = (if live then (s\<lparr>outq := outq s @ [(leg, packet)]\<rparr>, None) else (s, Some ErrContext))"

definition writeFrameOnLeg :: "bool \<Rightarrow> LegRef \<Rightarrow> frame \<Rightarrow> 'l send \<Rightarrow> ('l send \<times> send_error option) option" where
  "writeFrameOnLeg live leg f s =
    (case encodeFrame f s of None \<Rightarrow> None | Some (Inl e) \<Rightarrow> Some (s, Some e) | Some (Inr b) \<Rightarrow> Some (WriteTo live leg b s))"

definition sendControlFrame :: "bool \<Rightarrow> nat \<Rightarrow> frame \<Rightarrow> 'l send \<Rightarrow> ('l send \<times> send_error option) option" where
  "sendControlFrame live r f s =
    (case encodeFrame f s of None \<Rightarrow> None | Some (Inl e) \<Rightarrow> Some (s, Some e)
     | Some (Inr b) \<Rightarrow>
         let leg = chooseControlTransport (qosSelectionEnabled s) (lheap s ! r) in
         if Kind leg = 0 then Some (s, Some ErrLaneUnavailable) else Some (WriteTo live leg b s))"

section \<open>Repairs\<close>

fun sendRepairFrames ::
  "bool \<Rightarrow> LegRef \<Rightarrow> u64 \<Rightarrow> u8 \<Rightarrow> txRepairGroup \<Rightarrow> u8 \<Rightarrow> (u16 \<times> bytes) list \<Rightarrow> 'l send \<Rightarrow> 'l send option" where
  "sendRepairFrames live leg sess li g count [] s = Some s"
| "sendRepairFrames live leg sess li g count ((key, symbol) # rest) s =
    (case encodeFrame \<lparr>f_version = Version, f_type = TypeREPAIR, f_session = sess, f_lane = li,
        f_body = Some (RepairBody (tx_groupID g) key (tx_sourceSpan g) count symbol)\<rparr> s of
       None \<Rightarrow> None
     | Some (Inl e) \<Rightarrow> Some s
     | Some (Inr b) \<Rightarrow> sendRepairFrames live leg sess li g count rest (fst (WriteTo live leg b s)))"

definition sendRepair ::
  "galois \<Rightarrow> 'e rs \<Rightarrow> bool \<Rightarrow> u64 \<Rightarrow> nat \<Rightarrow> txRepairGroup \<Rightarrow> 'l send \<Rightarrow> 'l send option" where
  "sendRepair G R live sess r g s =
    (if tx_packets g = [] then Some s
     else case sendStates s sess of None \<Rightarrow> Some s
     | Some st \<Rightarrow>
       let span = int (unat (tx_sourceSpan g));
           count = scaledFECRepairCount (currentFECRepairCount (Some (lheap s ! r))) span
       in if count = 0 then Some s
          else
            let keys = map (\<lambda>i. ucast (nextRepairKey st + of_nat i) :: u16) [0..<unat count];
                s = s\<lparr>sendStates := (sendStates s)(sess \<mapsto> st\<lparr>nextRepairKey := nextRepairKey st + ucast count\<rparr>)\<rparr>
            in case fecCodecFor span count s of None \<Rightarrow> Some s
               | Some c \<Rightarrow>
                 (case Encode G R (Some c) (map Some (tx_packets g) @ replicate (unat count) None) keys of
                    None \<Rightarrow> None
                  | Some (Inl e) \<Rightarrow> Some s
                  | Some (Inr shards) \<Rightarrow>
                      let leg = shadowTransport (qosSelectionEnabled s) (lheap s ! r) in
                      if Kind leg = 0 then Some s
                      else sendRepairFrames live leg sess (lane_id (lheap s ! r)) g count
                        (zip keys (map sbytes (drop (nat span) shards))) s))"

definition armFECFlushTimer :: "nat \<Rightarrow> 'l send \<Rightarrow> 'l send" where
  "armFECFlushTimer r s =
    (case txWindow (lheap s ! r) of None \<Rightarrow> s
     | Some w \<Rightarrow> if length (pending w) = 0 then s
         else updLane r (\<lambda>l. l\<lparr>fecFlushTimer := Some True, fecFlushArmed := True\<rparr>) s)"

text \<open>The timer's callback; it dereferences the window of the lane, which a lane always has.\<close>

definition handleFECFlush :: "galois \<Rightarrow> 'e rs \<Rightarrow> bool \<Rightarrow> u64 \<Rightarrow> nat \<Rightarrow> 'l send \<Rightarrow> 'l send option" where
  "handleFECFlush G R live sess r s =
    (if \<not> sessionFECEnabled sess s then Some s
     else case txWindow (lheap s ! r) of None \<Rightarrow> None
     | Some w \<Rightarrow> (case txFlush w of (w, grp) \<Rightarrow>
         let s = updLane r (\<lambda>l. l\<lparr>fecFlushTimer := Some False, fecFlushArmed := False, txWindow := Some w\<rparr>) s
         in case grp of None \<Rightarrow> Some s | Some g \<Rightarrow> sendRepair G R live sess r g s))"

section \<open>The data path\<close>

definition laneScheduleCost :: "nat \<Rightarrow> u32" where
  "laneScheduleCost payloadLen = (let cost = payloadLen + 14 in if cost < 1500 then 1500 else of_nat cost)"

definition sendLaneOps :: "'l send \<Rightarrow> nat lane_ops" where
  "sendLaneOps s = \<lparr>Weight = (\<lambda>r. laneWeight (Some (lheap s ! r))), Cost = (\<lambda>r. laneCost (Some (lheap s ! r)))\<rparr>"

text \<open>\<open>order\<close> is the order in which the loop over the lane map meets the lanes of the session.\<close>

definition map_order :: "u64 \<Rightarrow> 'l send \<Rightarrow> nat list \<Rightarrow> bool" where
  "map_order sess s order \<longleftrightarrow> distinct order \<and> set order = {r. \<exists>i. lanes s (sess, i) = Some r}"

definition runnableLanes :: "nat list \<Rightarrow> 'l send \<Rightarrow> nat list" where
  "runnableLanes order s = filter (\<lambda>r. ready (Some (lheap s ! r))) order"

definition strategy :: "u64 \<Rightarrow> 'l send \<Rightarrow> nat drr" where
  "strategy sess s = (case strategies s sess of Some d \<Rightarrow> d | None \<Rightarrow> Drr.New 6000)"

definition pickLane :: "nat list \<Rightarrow> u64 \<Rightarrow> u32 \<Rightarrow> 'l send \<Rightarrow> 'l send \<times> nat option" where
  "pickLane order sess cost s =
    (let rl = runnableLanes order s in
     if length rl = 0 then (s, None)
     else case Drr.Pick (sendLaneOps s) (strategy sess s) rl cost of
       (d, r) \<Rightarrow> (s\<lparr>strategies := (strategies s)(sess \<mapsto> d)\<rparr>, r))"

definition recordQoSDataLegSelection :: "nat \<Rightarrow> kind \<Rightarrow> bool \<Rightarrow> 'l send \<Rightarrow> 'l send" where
  "recordQoSDataLegSelection r k qosEnabled s =
    (if k = 0 \<or> \<not> qosEnabled then s
     else case qualitySnapshot (lane_leg (lheap s ! r)) of (u, t) \<Rightarrow>
       updLane r (onLeg (\<lambda>g. fst (noteQoSSelectedPrimary k (QoSActive u \<or> QoSActive t) g))) s)"

definition sendDataFrame ::
  "galois \<Rightarrow> 'e rs \<Rightarrow> bool \<Rightarrow> u64 \<Rightarrow> nat \<Rightarrow> bytes \<Rightarrow> 'l send \<Rightarrow> ('l send \<times> send_error option) option" where
  "sendDataFrame G R live sess r payload s =
    (let qosEnabled = qosSelectionEnabled s; leg = primaryTransport qosEnabled (lheap s ! r) in
     if Kind leg = 0 then Some (s, None)
     else
       let fec = sessionFECEnabled sess s in
       case commitPacket payload fec (lheap s ! r) of None \<Rightarrow> None
       | Some (l, gid, si, grp, shouldArm) \<Rightarrow>
         let s = updLane r (\<lambda>_. l) s in
         case encodeFrame \<lparr>f_version = Version, f_type = TypeDATA, f_session = sess, f_lane = lane_id l,
             f_body = Some (DataBody gid si payload)\<rparr> s of
           None \<Rightarrow> None
         | Some (Inl e) \<Rightarrow> Some (s, Some e)
         | Some (Inr packet) \<Rightarrow>
           let s = recordQoSDataLegSelection r (Kind leg) qosEnabled s in
           case (if \<not> fec then Some s
                 else case grp of Some g \<Rightarrow> sendRepair G R live sess r g s
                   | None \<Rightarrow> Some (if shouldArm then armFECFlushTimer r s else s)) of
             None \<Rightarrow> None | Some s \<Rightarrow> Some (WriteTo live leg packet s))"

definition Write ::
  "galois \<Rightarrow> 'e rs \<Rightarrow> bool \<Rightarrow> nat list \<Rightarrow> bytes option \<Rightarrow> 'l send \<Rightarrow> ('l send \<times> send_error option) option" where
  "Write G R live order packet s =
    (case packet of None \<Rightarrow> Some (s, None)
     | Some payload \<Rightarrow> (case activeSession s of (sess, ok) \<Rightarrow>
         if \<not> ok then Some (s, None)
         else case pickLane order sess (laneScheduleCost (length payload)) s of
           (s, None) \<Rightarrow> Some (s, None)
         | (s, Some r) \<Rightarrow> sendDataFrame G R live sess r payload s))"

section \<open>Frames reach the queue as they are\<close>

definition dataFrame :: "u64 \<Rightarrow> u8 \<Rightarrow> u32 \<Rightarrow> u8 \<Rightarrow> bytes \<Rightarrow> frame" where
  "dataFrame sess li g i p = \<lparr>f_version = Version, f_type = TypeDATA, f_session = sess, f_lane = li,
     f_body = Some (DataBody g i p)\<rparr>"

definition repairFrame :: "u64 \<Rightarrow> u8 \<Rightarrow> txRepairGroup \<Rightarrow> u8 \<Rightarrow> u16 \<Rightarrow> bytes \<Rightarrow> frame" where
  "repairFrame sess li g count key y = \<lparr>f_version = Version, f_type = TypeREPAIR, f_session = sess, f_lane = li,
     f_body = Some (RepairBody (tx_groupID g) key (tx_sourceSpan g) count y)\<rparr>"

lemma encodeFrame_encodable: "encodable f \<Longrightarrow> estimateFrameSize f \<noteq> None \<Longrightarrow> encodeFrame f s = Some (Inr (wire_frame f))"
  by (auto simp: encodeFrame_def encode_encodable)

lemma data_encodable: "g \<le> maxTxGroupID \<Longrightarrow> unat i < 4 \<Longrightarrow> encodable (dataFrame sess li g i p)"
  by (simp add: encodable_def dataFrame_def word_le_nat_alt unat_ucast_up)

lemma repair_encodable:
  "tx_groupID g \<le> maxTxGroupID \<Longrightarrow> 1 \<le> unat (tx_sourceSpan g) \<Longrightarrow> unat (tx_sourceSpan g) \<le> 4 \<Longrightarrow> count \<le> 4 \<Longrightarrow>
    encodable (repairFrame sess li g count key y)"
  by (simp add: encodable_def repairFrame_def validRepairSourceSpan_def validRepairCount_def word_le_nat_alt)

lemma data_estimate [simp]: "estimateFrameSize (dataFrame sess li g i p) \<noteq> None"
  by (simp add: estimateFrameSize_def dataFrame_def)

lemma repair_estimate [simp]: "estimateFrameSize (repairFrame sess li g c k y) \<noteq> None"
  by (simp add: estimateFrameSize_def repairFrame_def)

lemma decode_data:
  "g \<le> maxTxGroupID \<Longrightarrow> unat i < 4 \<Longrightarrow> decode (wire_frame (dataFrame sess li g i p)) = Inr (dataFrame sess li g i p)"
  using decode_wire_frame [OF data_encodable] by (simp add: canonFrame_def dataFrame_def)

lemma decode_repair:
  assumes "tx_groupID g \<le> maxTxGroupID" "1 \<le> unat (tx_sourceSpan g)" "unat (tx_sourceSpan g) \<le> 4" "count \<le> 4" "count \<noteq> 0"
  shows "decode (wire_frame (repairFrame sess li g count key y)) = Inr (repairFrame sess li g count key y)"
  using decode_wire_frame [OF repair_encodable [OF assms(1-4)]] assms(5) by (simp add: canonFrame_def repairFrame_def)

lemma sendRepairFrames_all:
  assumes "tx_groupID g \<le> maxTxGroupID" "1 \<le> unat (tx_sourceSpan g)" "unat (tx_sourceSpan g) \<le> 4" "count \<le> 4"
  shows "sendRepairFrames True leg sess li g count ks s =
    Some (s\<lparr>outq := outq s @ map (\<lambda>(k, y). (leg, wire_frame (repairFrame sess li g count k y))) ks\<rparr>)"
proof (induction ks arbitrary: s)
  case (Cons x ks)
  obtain k y where x: "x = (k, y)" by (cases x)
  note e = encodeFrame_encodable [OF repair_encodable [OF assms] repair_estimate]
  show ?case
    using Cons.IH e [of sess li k y s] by (simp add: x WriteTo_def repairFrame_def)
qed simp

section \<open>Repair counts\<close>

lemma scaled_nat:
  assumes "1 \<le> n" "n \<le> 4"
  shows "unat (scaledFECRepairCount c (int n)) = (min 4 (max 1 (unat c)) * n + 3) div 4"
    "1 \<le> unat (scaledFECRepairCount c (int n))" "unat (scaledFECRepairCount c (int n)) \<le> n"
proof -
  let ?m = "min 4 (max 1 (unat c))" and ?c = "if c = 0 then 1 else c"
  define m where "m = ?m"
  define q where "q = (m * n + 3) div 4"
  have m: "1 \<le> m" "m \<le> 4" by (auto simp: m_def)
  have "1 * 1 \<le> m * n" using m assms by (intro mult_le_mono) auto
  moreover have "m * n \<le> 4 * n" using m by (intro mult_le_mono) auto
  moreover have "(4 * n + 3) div 4 = n" by simp
  ultimately have q: "1 \<le> q" "q \<le> n"
    using div_le_mono [of 4 "m * n + 3" 4] div_le_mono [of "m * n + 3" "4 * n + 3" 4] by (simp_all add: q_def)
  have c: "unat (if unat ?c > 4 then 4 else ?c) = m"
    by (auto simp: m_def Suc_le_eq unat_gt_0 max_def)
  have e: "(int (unat (if unat ?c > 4 then 4 else ?c)) * int n + 4 - 1) div 4 = int q"
    unfolding c q_def by (simp add: zdiv_int)
  have "scaledFECRepairCount c (int n) = word_of_int (int q)"
    unfolding scaledFECRepairCount_def Let_def e using assms q by simp
  moreover have "unat (word_of_int (int q) :: u8) = q" using q assms by (simp add: unat_of_nat)
  ultimately have u: "unat (scaledFECRepairCount c (int n)) = q" by simp
  then show "unat (scaledFECRepairCount c (int n)) = (?m * n + 3) div 4" unfolding q_def m_def .
  show "1 \<le> unat (scaledFECRepairCount c (int n))" "unat (scaledFECRepairCount c (int n)) \<le> n"
    unfolding u by (rule q)+
qed

section \<open>The window under the sender\<close>

text \<open>A lane's window as the sender keeps it: what it retains is a prefix of the group in progress, and
  it retains nothing while FEC is off.\<close>

definition win_ok :: "bool \<Rightarrow> txSLCWindow \<Rightarrow> bool" where
  "win_ok fec w \<longleftrightarrow> sourceCount w = 4 \<and> unat (nextIndex w) < 4
    \<and> (pending w = [] \<or> fec \<and> length (pending w) = unat (nextIndex w))
    \<and> activeGroupID w \<le> maxTxGroupID \<and> nextGroupID w \<le> maxTxGroupID"

lemma win_add:
  assumes w: "win_ok fec w"
  obtains w' g i grp where "txAdd p fec w = Some (w', g, i, grp)" "win_ok fec w'" "g \<le> maxTxGroupID" "unat i < 4"
    "grp = None \<or> fec \<and> i = 3 \<and> grp = Some \<lparr>tx_groupID = g, tx_sourceSpan = 4, tx_packets = pending w @ [p]\<rparr>
        \<and> length (pending w) = 3"
    "fec \<Longrightarrow> grp = None \<longleftrightarrow> i \<noteq> 3"
proof -
  have 4: "sourceCount w = 4" "unat (nextIndex w) < 4" using w by (simp_all add: win_ok_def)
  have g: "cur_group fec w \<le> maxTxGroupID" using w by (simp add: cur_group_def win_ok_def)
  have "nextIndex w = 0 \<or> nextIndex w = 1 \<or> nextIndex w = 2 \<or> nextIndex w = 3"
    using 4(2) by (rule index_cases) simp_all
  then have i: "unat (cur_index fec w) < 4" "cur_index fec w \<noteq> 3 \<Longrightarrow> unat (cur_index fec w + 1) = unat (cur_index fec w) + 1"
    "cur_index fec w \<noteq> 3 \<Longrightarrow> unat (cur_index fec w) < 3"
    by (auto simp: cur_index_def)
  have pd: "fec \<Longrightarrow> length (pending w) = unat (cur_index fec w)" "\<not> fec \<Longrightarrow> pending w = []"
    using w by (auto simp: win_ok_def cur_index_def starts_def)
  have adv: "sourceCount (advanced fec w) = 4" "activeGroupID (advanced fec w) \<le> maxTxGroupID"
    "nextGroupID (advanced fec w) \<le> maxTxGroupID" "pending (advanced fec w) = pending w"
    using w g by (auto simp: advanced_def win_ok_def masked_group)
  define v where "v = advanced fec w"
  note adv = adv [folded v_def]
  have add: "txAdd p fec w =
    (let pd = (if fec then pending w @ [p] else pending w)
     in if cur_index fec w = 3 then
          (if \<not> fec then Some (v\<lparr>nextIndex := 0\<rparr>, cur_group fec w, cur_index fec w, None)
           else if length pd < 4 then None
           else Some (v\<lparr>nextIndex := 0, pending := []\<rparr>, cur_group fec w, cur_index fec w,
                  Some \<lparr>tx_groupID = cur_group fec w, tx_sourceSpan = 4, tx_packets = take 4 pd\<rparr>))
        else Some (v\<lparr>nextIndex := cur_index fec w + 1, pending := pd\<rparr>, cur_group fec w, cur_index fec w, None))"
    unfolding v_def by (rule txAdd_eq [OF 4])
  consider "cur_index fec w = 3" fec | "cur_index fec w = 3" "\<not> fec" | "cur_index fec w \<noteq> 3" by blast
  then show thesis
  proof cases
    case 1
    then have l: "length (pending w) = 3" using pd by simp
    have "txAdd p fec w = Some (v\<lparr>nextIndex := 0, pending := []\<rparr>, cur_group fec w, cur_index fec w,
        Some \<lparr>tx_groupID = cur_group fec w, tx_sourceSpan = 4, tx_packets = pending w @ [p]\<rparr>)"
      unfolding add using 1 l by simp
    moreover have "win_ok fec (v\<lparr>nextIndex := 0, pending := []\<rparr>)" using adv by (simp add: win_ok_def)
    ultimately show thesis using that g i(1) 1 l by blast
  next
    case 2
    then have "txAdd p fec w = Some (v\<lparr>nextIndex := 0\<rparr>, cur_group fec w, cur_index fec w, None)"
      unfolding add by simp
    moreover have "win_ok fec (v\<lparr>nextIndex := 0\<rparr>)" using adv pd 2 by (simp add: win_ok_def)
    ultimately show thesis using that g i(1) 2 by blast
  next
    case 3
    let ?pd = "if fec then pending w @ [p] else pending w"
    have "txAdd p fec w = Some (v\<lparr>nextIndex := cur_index fec w + 1, pending := ?pd\<rparr>, cur_group fec w, cur_index fec w, None)"
      unfolding add Let_def using 3 by (rule if_not_P)
    moreover have "win_ok fec (v\<lparr>nextIndex := cur_index fec w + 1, pending := ?pd\<rparr>)"
      using adv pd i(2) [OF 3] i(3) [OF 3] by (simp add: win_ok_def)
    ultimately show thesis using that g i(1) 3 by blast
  qed
qed

text \<open>What \<open>sendRepair\<close> leaves alone, and what it writes: REPAIR frames of the group, all on the shadow
  transport.\<close>

definition only_repairs :: "LegRef \<Rightarrow> u64 \<Rightarrow> u8 \<Rightarrow> txRepairGroup \<Rightarrow> (LegRef \<times> bytes) list \<Rightarrow> bool" where
  "only_repairs leg sess li g out \<longleftrightarrow> (\<forall>(l, b) \<in> set out. l = leg \<and> (\<exists>c k y. 1 \<le> unat c \<and> unat c \<le> unat (tx_sourceSpan g)
     \<and> decode b = Inr (repairFrame sess li g c k y)))"

lemma sendRepair_nothing: "tx_packets g = [] \<or> sendStates s sess = None \<Longrightarrow> sendRepair G R live sess r g s = Some s"
  by (cases "tx_packets g = []") (simp_all add: sendRepair_def)

lemma sendRepair_eq:
  assumes "tx_packets g \<noteq> []" "sendStates s sess = Some st" "c \<noteq> 0"
    and c: "c = scaledFECRepairCount (currentFECRepairCount (Some (lheap s ! r))) (int (unat (tx_sourceSpan g)))"
    and s1: "s1 = s\<lparr>sendStates := (sendStates s)(sess \<mapsto> st\<lparr>nextRepairKey := nextRepairKey st + ucast c\<rparr>)\<rparr>"
    and keys: "keys = map (\<lambda>i. ucast (nextRepairKey st + of_nat i) :: u16) [0..<unat c]"
  shows "sendRepair G R live sess r g s =
    (case fecCodecFor (int (unat (tx_sourceSpan g))) c s1 of None \<Rightarrow> Some s1
     | Some co \<Rightarrow>
       (case Encode G R (Some co) (map Some (tx_packets g) @ replicate (unat c) None) keys of
          None \<Rightarrow> None | Some (Inl e) \<Rightarrow> Some s1
        | Some (Inr shards) \<Rightarrow>
            if Kind (shadowTransport (qosSelectionEnabled s1) (lheap s1 ! r)) = 0 then Some s1
            else sendRepairFrames live (shadowTransport (qosSelectionEnabled s1) (lheap s1 ! r)) sess (lane_id (lheap s1 ! r)) g c
              (zip keys (map sbytes (drop (unat (tx_sourceSpan g)) shards))) s1))"
  unfolding sendRepair_def Let_def c [symmetric] assms(2) option.case s1 [symmetric] keys [symmetric]
    if_not_P [OF assms(1)] if_not_P [OF assms(3)] nat_int ..

lemma sendRepair_out:
  assumes g: "tx_groupID g \<le> maxTxGroupID" "1 \<le> unat (tx_sourceSpan g)" "unat (tx_sourceSpan g) \<le> 4"
    and s: "sendRepair G R True sess r g s = Some s'"
  shows "\<exists>out. outq s' = outq s @ out \<and> lheap s' = lheap s \<and> lanes s' = lanes s
    \<and> (\<forall>i. sessionFECEnabled i s' = sessionFECEnabled i s)
    \<and> only_repairs (shadowTransport (qosSelectionEnabled s) (lheap s ! r)) sess (lane_id (lheap s ! r)) g out"
proof -
  define c where "c = scaledFECRepairCount (currentFECRepairCount (Some (lheap s ! r))) (int (unat (tx_sourceSpan g)))"
  define leg where "leg = shadowTransport (qosSelectionEnabled s) (lheap s ! r)"
  let ?li = "lane_id (lheap s ! r)"
  have c: "1 \<le> unat c" "unat c \<le> unat (tx_sourceSpan g)" unfolding c_def using scaled_nat(2,3) g(2,3) by blast+
  then have c4: "c \<le> 4" "c \<noteq> 0" using g(3) by (auto simp: word_le_nat_alt unat_gt_0 Suc_le_eq)
  show ?thesis
  proof (cases "tx_packets g = [] \<or> sendStates s sess = None")
    case True
    then show ?thesis using s sendRepair_nothing [OF True, of G R True r] by (auto simp: only_repairs_def)
  next
    case False
    then obtain st where st: "sendStates s sess = Some st" and ne: "tx_packets g \<noteq> []" by blast
    define s1 where "s1 = s\<lparr>sendStates := (sendStates s)(sess \<mapsto> st\<lparr>nextRepairKey := nextRepairKey st + ucast c\<rparr>)\<rparr>"
    have s1: "outq s1 = outq s" "lheap s1 = lheap s" "lanes s1 = lanes s" "qosSelectionEnabled s1 = qosSelectionEnabled s"
      by (simp_all add: s1_def qosSelectionEnabled_def)
    have fec: "sessionFECEnabled i (s1\<lparr>outq := q\<rparr>) = sessionFECEnabled i s" "sessionFECEnabled i s1 = sessionFECEnabled i s" for i q
      using st by (auto simp: s1_def sessionFECEnabled_def)
    have "s' = s1 \<or> (\<exists>ks. sendRepairFrames True leg sess ?li g c ks s1 = Some s')"
      using s unfolding sendRepair_eq [OF ne st c4(2) c_def s1_def HOL.refl] s1 leg_def [symmetric]
      by (auto split: option.splits sum.splits if_splits)
    then consider "s' = s1" | ks where "s' = s1\<lparr>outq := outq s @ map (\<lambda>(k, y). (leg, wire_frame (repairFrame sess ?li g c k y))) ks\<rparr>"
      using s1(1) unfolding sendRepairFrames_all [OF g c4(1)] by auto
    then show ?thesis
    proof cases
      case 1
      then show ?thesis using s1 fec by (auto simp: only_repairs_def)
    next
      case 2
      moreover have "only_repairs leg sess ?li g (map (\<lambda>(k, y). (leg, wire_frame (repairFrame sess ?li g c k y))) ks)"
        using c decode_repair [OF g c4] by (fastforce simp: only_repairs_def)
      ultimately show ?thesis using s1 fec by (auto simp: leg_def)
    qed
  qed
qed

section \<open>One packet through the data path\<close>

lemma commit_ok:
  assumes "txWindow l = Some w" "win_ok fec w"
  obtains l' g i grp arm w' where "commitPacket p fec l = Some (l', g, i, grp, arm)" "txWindow l' = Some w'" "win_ok fec w'"
    "lane_leg l' = lane_leg l" "lane_id l' = lane_id l" "weight l' = weight l" "fecRepairCount l' = fecRepairCount l"
    "g \<le> maxTxGroupID" "unat i < 4"
    "grp = None \<or> fec \<and> i = 3 \<and> grp = Some \<lparr>tx_groupID = g, tx_sourceSpan = 4, tx_packets = pending w @ [p]\<rparr>
        \<and> length (pending w) = 3"
    "fec \<Longrightarrow> grp = None \<longleftrightarrow> i \<noteq> 3"
proof -
  obtain w' g i grp where a: "txAdd p fec w = Some (w', g, i, grp)" "win_ok fec w'" "g \<le> maxTxGroupID" "unat i < 4"
    "grp = None \<or> fec \<and> i = 3 \<and> grp = Some \<lparr>tx_groupID = g, tx_sourceSpan = 4, tx_packets = pending w @ [p]\<rparr>
        \<and> length (pending w) = 3" "fec \<Longrightarrow> grp = None \<longleftrightarrow> i \<noteq> 3"
    using win_add [OF assms(2), of p] by blast
  show thesis
  proof (cases grp)
    case None
    then show thesis using a assms(1)
      by (intro that [of "l\<lparr>txWindow := Some w'\<rparr>" g i grp _ w']) (simp_all add: commitPacket_def Let_def)
  next
    case (Some gr)
    then show thesis using a assms(1)
      by (intro that [of "cancelFECFlushTimerLocked (l\<lparr>txWindow := Some w'\<rparr>)" g i grp False w'])
         (auto simp: commitPacket_def cancelFECFlushTimerLocked_def Let_def split: option.splits)
  qed
qed

lemma select_primaryKind: "selectRefWithQoS ro q (g\<lparr>primaryKind := k\<rparr>) = selectRefWithQoS ro q g"
proof -
  have "qualityLocked kd q (g\<lparr>primaryKind := k\<rparr>) = qualityLocked kd q g" "refForKind kd (g\<lparr>primaryKind := k\<rparr>) = refForKind kd g" for kd
    by (simp_all add: qualityLocked_def isActive_def refForKind_def Let_def)
  then show ?thesis by (simp add: selectRefWithQoS_def Let_def split: prod.split role.split)
qed

lemma select_note [simp]: "selectRefWithQoS ro q (fst (noteQoSSelectedPrimary k a g)) = selectRefWithQoS ro q g"
  by (simp add: noteQoSSelectedPrimary_def Let_def select_primaryKind)

lemma encodeFrame_updLane [simp]: "encodeFrame fr (updLane r f s) = encodeFrame fr s"
proof -
  have "stale (updLane r f s) = stale s" by (simp add: updLane_def)
  then show ?thesis unfolding encodeFrame_def by (rule arg_cong)
qed

lemma updLane_simps [simp]:
  "outq (updLane r f s) = outq s" "lanes (updLane r f s) = lanes s" "sendStates (updLane r f s) = sendStates s"
  "qosSelectionEnabled (updLane r f s) = qosSelectionEnabled s" "length (lheap (updLane r f s)) = length (lheap s)"
  "sessionFECEnabled i (updLane r f s) = sessionFECEnabled i s"
  "r < length (lheap s) \<Longrightarrow> lheap (updLane r f s) ! r = f (lheap s ! r)"
  "r' \<noteq> r \<Longrightarrow> lheap (updLane r f s) ! r' = lheap s ! r'"
  by (simp_all add: updLane_def qosSelectionEnabled_def sessionFECEnabled_def)

text \<open>A lane of which only the window, the timer and the nominal primary have changed.\<close>

definition same_lane :: "laneRuntime \<Rightarrow> laneRuntime \<Rightarrow> bool" where
  "same_lane l l' \<longleftrightarrow> lane_id l' = lane_id l \<and> weight l' = weight l \<and> fecRepairCount l' = fecRepairCount l
    \<and> (\<exists>k. lane_leg l' = (lane_leg l)\<lparr>primaryKind := k\<rparr>)"

lemma same_lane_trans: "same_lane l l' \<Longrightarrow> same_lane l' l'' \<Longrightarrow> same_lane l l''"
  by (auto simp: same_lane_def)

lemma same_lane_refl: "same_lane l l"
  by (auto simp: same_lane_def intro: exI [of _ "primaryKind (lane_leg l)"])

lemma same_lane_select: "same_lane l l' \<Longrightarrow> selectRefWithQoS ro q (lane_leg l') = selectRefWithQoS ro q (lane_leg l)"
  by (auto simp: same_lane_def select_primaryKind)

text \<open>The lane as \<open>sendDataFrame\<close> leaves it before the repairs go out.\<close>

lemma record_lane:
  assumes "r < length (lheap s)"
  shows "\<exists>l. recordQoSDataLegSelection r k q s = updLane r (\<lambda>_. l) s \<and> txWindow l = txWindow (lheap s ! r)
    \<and> same_lane (lheap s ! r) l"
proof (cases "k = 0 \<or> \<not> q")
  case True
  then show ?thesis using assms
    by (intro exI [of _ "lheap s ! r"]) (auto simp: recordQoSDataLegSelection_def updLane_def same_lane_refl)
next
  case False
  obtain u t where qs: "qualitySnapshot (lane_leg (lheap s ! r)) = (u, t)" by (meson surj_pair)
  let ?l = "onLeg (\<lambda>g. fst (noteQoSSelectedPrimary k (QoSActive u \<or> QoSActive t) g)) (lheap s ! r)"
  have "\<exists>k'. fst (noteQoSSelectedPrimary k a g) = g\<lparr>primaryKind := k'\<rparr>" for a g
    by (auto simp: noteQoSSelectedPrimary_def Let_def intro: exI [of _ "primaryKind g"])
  then have "same_lane (lheap s ! r) ?l" by (auto simp: same_lane_def onLeg_def)
  moreover have "recordQoSDataLegSelection r k q s = updLane r (\<lambda>_. ?l) s"
    using False qs by (simp add: recordQoSDataLegSelection_def updLane_def)
  ultimately show ?thesis by (intro exI [of _ ?l]) (simp add: onLeg_def)
qed

lemma arm_simps [simp]:
  "outq (armFECFlushTimer r s) = outq s" "lanes (armFECFlushTimer r s) = lanes s"
  "length (lheap (armFECFlushTimer r s)) = length (lheap s)" "sessionFECEnabled i (armFECFlushTimer r s) = sessionFECEnabled i s"
  "r' \<noteq> r \<Longrightarrow> lheap (armFECFlushTimer r s) ! r' = lheap s ! r'"
  "r < length (lheap s) \<Longrightarrow> txWindow (lheap (armFECFlushTimer r s) ! r) = txWindow (lheap s ! r)"
  "r < length (lheap s) \<Longrightarrow> same_lane (lheap s ! r) (lheap (armFECFlushTimer r s) ! r)"
  by (auto simp: armFECFlushTimer_def same_lane_refl split: option.split)
     (auto simp: same_lane_def intro: exI [of _ "primaryKind (lane_leg (lheap s ! r))"])

lemma send_data_frame:
  assumes r: "r < length (lheap s)" and w: "txWindow (lheap s ! r) = Some w" "win_ok (sessionFECEnabled sess s) w"
    and lne: "Kind (primaryTransport (qosSelectionEnabled s) (lheap s ! r)) \<noteq> 0"
    and send: "sendDataFrame G R True sess r p s = Some (s', e)"
  shows "e = None \<and> (\<exists>g i reps b w'.
      outq s' = outq s @ reps @ [(primaryTransport (qosSelectionEnabled s) (lheap s ! r), b)]
    \<and> decode b = Inr (dataFrame sess (lane_id (lheap s ! r)) g i p)
    \<and> only_repairs (shadowTransport (qosSelectionEnabled s) (lheap s ! r)) sess (lane_id (lheap s ! r))
        \<lparr>tx_groupID = g, tx_sourceSpan = 4, tx_packets = pending w @ [p]\<rparr> reps
    \<and> (reps \<noteq> [] \<longrightarrow> sessionFECEnabled sess s \<and> i = 3 \<and> length (pending w) = 3)
    \<and> lanes s' = lanes s \<and> length (lheap s') = length (lheap s) \<and> (\<forall>j. j \<noteq> r \<longrightarrow> lheap s' ! j = lheap s ! j)
    \<and> (\<forall>j. sessionFECEnabled j s' = sessionFECEnabled j s) \<and> same_lane (lheap s ! r) (lheap s' ! r)
    \<and> txWindow (lheap s' ! r) = Some w' \<and> win_ok (sessionFECEnabled sess s) w')"
proof -
  define fec where "fec = sessionFECEnabled sess s"
  define q where "q = qosSelectionEnabled s"
  define leg where "leg = primaryTransport q (lheap s ! r)"
  obtain l g i grp arm w' where c: "commitPacket p fec (lheap s ! r) = Some (l, g, i, grp, arm)" "txWindow l = Some w'" "win_ok fec w'"
    "lane_leg l = lane_leg (lheap s ! r)" "lane_id l = lane_id (lheap s ! r)"
    "weight l = weight (lheap s ! r)" "fecRepairCount l = fecRepairCount (lheap s ! r)" "g \<le> maxTxGroupID" "unat i < 4"
    "grp = None \<or> fec \<and> i = 3 \<and> grp = Some \<lparr>tx_groupID = g, tx_sourceSpan = 4, tx_packets = pending w @ [p]\<rparr>
        \<and> length (pending w) = 3"
    by (rule commit_ok [OF w(1) w(2) [folded fec_def], of p]) (rule that; assumption)
  let ?s1 = "updLane r (\<lambda>_. l) s"
  let ?fr = "dataFrame sess (lane_id l) g i p"
  have sl: "same_lane (lheap s ! r) l"
    using c(4-7) by (auto simp: same_lane_def intro: exI [of _ "primaryKind (lane_leg (lheap s ! r))"])
  obtain l2 where l2: "recordQoSDataLegSelection r (Kind leg) q ?s1 = updLane r (\<lambda>_. l2) ?s1"
    "txWindow l2 = txWindow l" "same_lane l l2"
    using record_lane [of r ?s1 "Kind leg" q] r by auto
  have l2s: "same_lane (lheap s ! r) l2" by (rule same_lane_trans [OF sl l2(3)])
  define s2 where "s2 = updLane r (\<lambda>_. l2) ?s1"
  have enc: "encodeFrame ?fr ?s1 = Some (Inr (wire_frame ?fr))"
    by (rule encodeFrame_encodable [OF data_encodable data_estimate]) (use c in auto)
  define rep where "rep = (if \<not> fec then Some s2
                 else case grp of Some g \<Rightarrow> sendRepair G R True sess r g s2
                   | None \<Rightarrow> Some (if arm then armFECFlushTimer r s2 else s2))"
  have fr: "dataFrame sess (lane_id l) g i p = \<lparr>f_version = Version, f_type = TypeDATA, f_session = sess, f_lane = lane_id l,
             f_body = Some (DataBody g i p)\<rparr>" by (simp add: dataFrame_def)
  have ne: "Kind leg \<noteq> 0" using lne by (simp add: leg_def q_def)
  have "sendDataFrame G R True sess r p s = (case rep of None \<Rightarrow> None | Some s \<Rightarrow> Some (WriteTo True leg (wire_frame ?fr) s))"
    unfolding sendDataFrame_def Let_def q_def [symmetric] leg_def [symmetric] fec_def [symmetric] if_not_P [OF ne] c(1)
      option.case prod.case fr [symmetric] enc sum.case l2(1) s2_def [symmetric] rep_def ..
  with send have "Some (s', e) = (case rep of None \<Rightarrow> None | Some s \<Rightarrow> Some (WriteTo True leg (wire_frame ?fr) s))"
    by simp
  then obtain s3 where s3: "rep = Some s3" "s' = s3\<lparr>outq := outq s3 @ [(leg, wire_frame ?fr)]\<rparr>" "e = None"
    by (auto simp: WriteTo_def split: option.splits)
  have s2: "outq s2 = outq s" "lanes s2 = lanes s" "length (lheap s2) = length (lheap s)" "lheap s2 ! r = l2"
    "\<forall>j. j \<noteq> r \<longrightarrow> lheap s2 ! j = lheap s ! j" "\<forall>j. sessionFECEnabled j s2 = sessionFECEnabled j s" "qosSelectionEnabled s2 = q"
    using r by (simp_all add: s2_def q_def)
  let ?gr = "\<lparr>tx_groupID = g, tx_sourceSpan = 4, tx_packets = pending w @ [p]\<rparr>"
  have "\<exists>reps. outq s3 = outq s @ reps \<and> lanes s3 = lanes s \<and> length (lheap s3) = length (lheap s)
      \<and> txWindow (lheap s3 ! r) = Some w' \<and> (\<forall>j. j \<noteq> r \<longrightarrow> lheap s3 ! j = lheap s ! j) \<and> (\<forall>j. sessionFECEnabled j s3 = sessionFECEnabled j s)
      \<and> same_lane (lheap s ! r) (lheap s3 ! r) \<and> only_repairs (shadowTransport q (lheap s ! r)) sess (lane_id l) ?gr reps
      \<and> (reps \<noteq> [] \<longrightarrow> fec \<and> i = 3 \<and> length (pending w) = 3)"
  proof (cases "fec \<and> grp \<noteq> None")
    case True
    then have g: "grp = Some ?gr" "i = 3" "length (pending w) = 3" using c(10) by auto
    then have "sendRepair G R True sess r ?gr s2 = Some s3" using s3(1) True by (simp add: rep_def)
    from sendRepair_out [OF _ _ _ this] c(8) obtain out where
      "outq s3 = outq s2 @ out" "lheap s3 = lheap s2" "lanes s3 = lanes s2" "\<forall>i. sessionFECEnabled i s3 = sessionFECEnabled i s2"
      "only_repairs (shadowTransport (qosSelectionEnabled s2) (lheap s2 ! r)) sess (lane_id (lheap s2 ! r)) ?gr out" by auto
    then show ?thesis using s2 l2 c(2,5) True g l2s same_lane_select [OF l2s] by (auto simp: shadowTransport_def same_lane_def)
  next
    case False
    then have "s3 = s2 \<or> s3 = armFECFlushTimer r s2" using s3(1) by (auto simp: rep_def split: if_splits option.splits)
    then have "outq s3 = outq s \<and> lanes s3 = lanes s \<and> length (lheap s3) = length (lheap s)
      \<and> txWindow (lheap s3 ! r) = Some w' \<and> (\<forall>j. j \<noteq> r \<longrightarrow> lheap s3 ! j = lheap s ! j) \<and> (\<forall>j. sessionFECEnabled j s3 = sessionFECEnabled j s)
      \<and> same_lane (lheap s ! r) (lheap s3 ! r)"
      using s2 l2(2) c(2) r l2s arm_simps(7) [of r s2] same_lane_trans by auto
    then show ?thesis by (auto simp: only_repairs_def)
  qed
  then obtain reps where reps: "outq s3 = outq s @ reps" "lanes s3 = lanes s" "length (lheap s3) = length (lheap s)"
      "txWindow (lheap s3 ! r) = Some w'" "\<forall>j. j \<noteq> r \<longrightarrow> lheap s3 ! j = lheap s ! j" "\<forall>j. sessionFECEnabled j s3 = sessionFECEnabled j s"
      "same_lane (lheap s ! r) (lheap s3 ! r)" "only_repairs (shadowTransport q (lheap s ! r)) sess (lane_id l) ?gr reps"
      "reps \<noteq> [] \<longrightarrow> fec \<and> i = 3 \<and> length (pending w) = 3" by blast
  have "sessionFECEnabled j s' = sessionFECEnabled j s" for j using reps(6) by (simp add: s3(2) sessionFECEnabled_def)
  then show ?thesis
    using s3(2,3) reps c(3,5) decode_data [OF c(8,9), of sess "lane_id l" p] unfolding leg_def [symmetric] q_def [symmetric] fec_def [symmetric]
    by (intro conjI exI [of _ g] exI [of _ i] exI [of _ reps] exI [of _ "wire_frame ?fr"] exI [of _ w']) simp_all
qed

section \<open>The sender as a whole\<close>

text \<open>A lane that its session can send on, and a sender all of whose lanes are.\<close>

definition leg_ok :: "leg \<Rightarrow> bool" where
  "leg_ok g \<longleftrightarrow> leg_selector g = qualityPick
    \<and> (active (udp g) \<longrightarrow> Kind (ref (udp g)) = KindUDP) \<and> (active (tcp g) \<longrightarrow> Kind (ref (tcp g)) = KindTCP)"

definition lane_sendable :: "bool \<Rightarrow> u8 \<Rightarrow> laneRuntime \<Rightarrow> bool" where
  "lane_sendable fec i l \<longleftrightarrow> lane_id l = i \<and> leg_ok (lane_leg l) \<and> lane_ok l \<and> (\<exists>w. txWindow l = Some w \<and> win_ok fec w)"

definition send_ok :: "'l send \<Rightarrow> bool" where
  "send_ok s \<longleftrightarrow> (\<forall>sess i r. lanes s (sess, i) = Some r \<longrightarrow>
     r < length (lheap s) \<and> lane_sendable (sessionFECEnabled sess s) i (lheap s ! r)
     \<and> (\<forall>k. lanes s k = Some r \<longrightarrow> k = (sess, i)))"

lemma leg_ok_primaryKind [simp]: "leg_ok (g\<lparr>primaryKind := k\<rparr>) = leg_ok g"
  by (simp add: leg_ok_def)

lemma same_lane_sendable:
  "same_lane l l' \<Longrightarrow> lane_sendable fec i l \<Longrightarrow> txWindow l' = Some w \<Longrightarrow> win_ok fec w \<Longrightarrow> lane_sendable fec i l'"
  by (auto simp: same_lane_def lane_sendable_def lane_ok_def)

lemma leg_ok_selects:
  assumes "leg_ok g" "anyActive g"
  shows "Kind (selectRefWithQoS r q g) \<noteq> 0" "isActive (Kind (selectRefWithQoS r q g)) g"
    "refForKind (Kind (selectRefWithQoS r q g)) g = selectRefWithQoS r q g"
proof -
  obtain u ok where p: "leg_selector g (qualityLocked 1 q g) (qualityLocked 2 q g) = (u, ok)" by (meson surj_pair)
  have "active (udp g) \<and> active (tcp g) \<longrightarrow> ok"
    using quality_selector.finds [of "qualityLocked 1 q g" "qualityLocked 2 q g"] p assms(1) by (simp add: leg_ok_def)
  then have "Kind (selectRefWithQoS r q g) \<noteq> 0 \<and> isActive (Kind (selectRefWithQoS r q g)) g
      \<and> refForKind (Kind (selectRefWithQoS r q g)) g = selectRefWithQoS r q g"
    using p assms
    by (cases r; cases "active (udp g)"; cases "active (tcp g)"; cases u)
       (simp_all add: selectRefWithQoS_def anyActive_def isActive_def refForKind_def otherKind_def leg_ok_def Let_def)
  then show "Kind (selectRefWithQoS r q g) \<noteq> 0" "isActive (Kind (selectRefWithQoS r q g)) g"
    "refForKind (Kind (selectRefWithQoS r q g)) g = selectRefWithQoS r q g" by auto
qed

lemma pickLane_result:
  assumes "pickLane order sess cost s = (s', r)"
  shows "lheap s' = lheap s" "lanes s' = lanes s" "outq s' = outq s" "sessionFECEnabled i s' = sessionFECEnabled i s"
    "qosSelectionEnabled s' = qosSelectionEnabled s"
    "r = None \<longleftrightarrow> \<not> (\<exists>x \<in> set order. ready (Some (lheap s ! x)) \<and> weight (lheap s ! x) \<noteq> 0)"
    "\<And>x. r = Some x \<Longrightarrow> x \<in> set order \<and> ready (Some (lheap s ! x)) \<and> weight (lheap s ! x) \<noteq> 0"
proof -
  let ?rl = "runnableLanes order s" and ?ops = "sendLaneOps s"
  obtain d x where p: "Drr.Pick ?ops (strategy sess s) ?rl cost = (d, x)" by (meson surj_pair)
  have cand: "candidates ?ops ?rl = filter (\<lambda>x. ready (Some (lheap s ! x)) \<and> weight (lheap s ! x) \<noteq> 0) order"
    by (simp add: runnableLanes_def sendLaneOps_def laneWeight_def conj_commute)
  show "lheap s' = lheap s" "lanes s' = lanes s" "outq s' = outq s" "sessionFECEnabled i s' = sessionFECEnabled i s"
    "qosSelectionEnabled s' = qosSelectionEnabled s"
    using assms p by (auto simp: pickLane_def Let_def sessionFECEnabled_def qosSelectionEnabled_def split: if_splits)
  have r: "r = (if ?rl = [] then None else x)" using assms p by (auto simp: pickLane_def Let_def split: if_splits)
  have "x = None \<longleftrightarrow> candidates ?ops ?rl = []"
    using drr.pick_None_iff [of ?ops "strategy sess s" ?rl cost] p by simp
  then show "r = None \<longleftrightarrow> \<not> (\<exists>x \<in> set order. ready (Some (lheap s ! x)) \<and> weight (lheap s ! x) \<noteq> 0)"
    unfolding cand r by (auto simp: filter_empty_conv runnableLanes_def)
  show "y \<in> set order \<and> ready (Some (lheap s ! y)) \<and> weight (lheap s ! y) \<noteq> 0" if "r = Some y" for y
  proof -
    have "y \<in> set (candidates ?ops ?rl)"
      using drr.pick_candidate [of ?ops "strategy sess s" ?rl cost d y] p that r by (auto split: if_splits)
    then show ?thesis unfolding cand by simp
  qed
qed

lemma send_ok_cong:
  "lheap s' = lheap s \<Longrightarrow> lanes s' = lanes s \<Longrightarrow> (\<And>i. sessionFECEnabled i s' = sessionFECEnabled i s) \<Longrightarrow> send_ok s' = send_ok s"
  by (simp add: send_ok_def)

lemma write_step:
  assumes ok: "send_ok s" and act: "activeSession s = (sess, True)" and order: "map_order sess s order"
    and wr: "Write G R True order (Some p) s = Some (s', e)"
  shows "e = None \<and> send_ok s'
    \<and> (if \<exists>r \<in> set order. ready (Some (lheap s ! r)) \<and> weight (lheap s ! r) \<noteq> 0
       then \<exists>i r leg g si b reps. lanes s (sess, i) = Some r \<and> outq s' = outq s @ reps @ [(leg, b)]
          \<and> isActive (Kind leg) (lane_leg (lheap s ! r)) \<and> refForKind (Kind leg) (lane_leg (lheap s ! r)) = leg
          \<and> decode b = Inr (dataFrame sess i g si p)
          \<and> (\<exists>ps. only_repairs (shadowTransport (qosSelectionEnabled s) (lheap s ! r)) sess i
                \<lparr>tx_groupID = g, tx_sourceSpan = 4, tx_packets = ps @ [p]\<rparr> reps)
       else outq s' = outq s)"
proof -
  let ?c = "\<exists>r \<in> set order. ready (Some (lheap s ! r)) \<and> weight (lheap s ! r) \<noteq> 0"
  obtain s1 x where pick: "pickLane order sess (laneScheduleCost (length p)) s = (s1, x)" by (meson surj_pair)
  note s1 = pickLane_result(1-5) [OF pick]
  have ok1: "send_ok s1" using ok send_ok_cong [OF s1(1,2,4)] by simp
  have wr': "(case x of None \<Rightarrow> Some (s1, None) | Some r \<Rightarrow> sendDataFrame G R True sess r p s1) = Some (s', e)"
    using wr act pick by (simp add: Write_def split: option.splits)
  show ?thesis
  proof (cases x)
    case None
    then have "\<not> ?c" using pickLane_result(6) [OF pick] by blast
    then show ?thesis using wr' None ok1 s1(3) by auto
  next
    case (Some r)
    then have c: "?c" and r: "r \<in> set order" "ready (Some (lheap s ! r))" using pickLane_result(6,7) [OF pick] by blast+
    then obtain i where i: "lanes s (sess, i) = Some r" using order by (auto simp: map_order_def)
    then have rl: "r < length (lheap s1)" and ls: "lane_sendable (sessionFECEnabled sess s1) i (lheap s1 ! r)"
      and inj: "\<forall>k. lanes s k = Some r \<longrightarrow> k = (sess, i)"
      using ok s1(1,4) by (auto simp: send_ok_def)
    then obtain w where w: "txWindow (lheap s1 ! r) = Some w" "win_ok (sessionFECEnabled sess s1) w"
      and id: "lane_id (lheap s1 ! r) = i" and lg: "leg_ok (lane_leg (lheap s1 ! r))" by (auto simp: lane_sendable_def)
    have any: "anyActive (lane_leg (lheap s1 ! r))" using r(2) s1(1) by (simp add: ready_def)
    note sel = leg_ok_selects [OF lg any, of rolePrimary "qosSelectionEnabled s1", folded primaryTransport_def]
    have send: "sendDataFrame G R True sess r p s1 = Some (s', e)" using wr' Some by simp
    obtain g si reps b w' where d: "e = None" "outq s' = outq s1 @ reps @ [(primaryTransport (qosSelectionEnabled s1) (lheap s1 ! r), b)]"
      "decode b = Inr (dataFrame sess (lane_id (lheap s1 ! r)) g si p)"
      "only_repairs (shadowTransport (qosSelectionEnabled s1) (lheap s1 ! r)) sess (lane_id (lheap s1 ! r))
        \<lparr>tx_groupID = g, tx_sourceSpan = 4, tx_packets = pending w @ [p]\<rparr> reps"
      "lanes s' = lanes s1" "length (lheap s') = length (lheap s1)" "\<forall>j. j \<noteq> r \<longrightarrow> lheap s' ! j = lheap s1 ! j"
      "\<forall>j. sessionFECEnabled j s' = sessionFECEnabled j s1" "same_lane (lheap s1 ! r) (lheap s' ! r)"
      "txWindow (lheap s' ! r) = Some w'" "win_ok (sessionFECEnabled sess s1) w'"
      using send_data_frame [OF rl w sel(1) send] by (elim conjE exE) (rule that; assumption)
    have "send_ok s'"
      unfolding send_ok_def
    proof (intro allI impI)
      fix sess' i' r'
      assume l': "lanes s' (sess', i') = Some r'"
      then have 1: "r' < length (lheap s1)" "lane_sendable (sessionFECEnabled sess' s1) i' (lheap s1 ! r')"
        "\<forall>k. lanes s1 k = Some r' \<longrightarrow> k = (sess', i')"
        using ok1 d(5) by (auto simp: send_ok_def)
      have "lane_sendable (sessionFECEnabled sess' s1) i' (lheap s' ! r')"
      proof (cases "r' = r")
        case True
        then have "(sess', i') = (sess, i)" using inj l' d(5) s1(2) by auto
        then show ?thesis using True same_lane_sendable [OF d(9) ls d(10,11)] by simp
      qed (use d(7) 1(2) in simp)
      then show "r' < length (lheap s') \<and> lane_sendable (sessionFECEnabled sess' s') i' (lheap s' ! r')
          \<and> (\<forall>k. lanes s' k = Some r' \<longrightarrow> k = (sess', i'))"
        using 1 d(5,6,8) by simp
    qed
    moreover have "\<exists>i r leg g si b reps. lanes s (sess, i) = Some r \<and> outq s' = outq s @ reps @ [(leg, b)]
          \<and> isActive (Kind leg) (lane_leg (lheap s ! r)) \<and> refForKind (Kind leg) (lane_leg (lheap s ! r)) = leg
          \<and> decode b = Inr (dataFrame sess i g si p)
          \<and> (\<exists>ps. only_repairs (shadowTransport (qosSelectionEnabled s) (lheap s ! r)) sess i
                \<lparr>tx_groupID = g, tx_sourceSpan = 4, tx_packets = ps @ [p]\<rparr> reps)"
      using i d(2,3,4) sel(2,3) id unfolding s1
      by (intro exI [of _ i] exI [of _ r] exI [of _ "primaryTransport (qosSelectionEnabled s) (lheap s ! r)"]
          exI [of _ g] exI [of _ si] exI [of _ b] exI [of _ reps] conjI exI [of _ "pending w"]) simp_all
    ultimately show ?thesis using c d(1) by simp
  qed
qed

lemma write_keeps:
  "send_ok s \<Longrightarrow> activeSession s = (sess, True) \<Longrightarrow> map_order sess s order \<Longrightarrow>
    Write G R True order (Some p) s = Some (s', e) \<Longrightarrow> send_ok s'"
  using write_step by blast


text \<open>Without FEC nothing on the data path can panic.\<close>

lemma sendDataFrame_total:
  assumes r: "r < length (lheap s)" and w: "txWindow (lheap s ! r) = Some w" "win_ok False w" and fec: "\<not> sessionFECEnabled sess s"
  shows "sendDataFrame G R live sess r p s \<noteq> None"
proof -
  obtain l g i grp arm w' where c: "commitPacket p False (lheap s ! r) = Some (l, g, i, grp, arm)" "g \<le> maxTxGroupID" "unat i < 4"
    by (rule commit_ok [OF w(1,2), of p]) (rule that; assumption)
  have "encodeFrame (dataFrame sess (lane_id l) g i p) (updLane r (\<lambda>_. l) s) = Some (Inr (wire_frame (dataFrame sess (lane_id l) g i p)))"
    by (rule encodeFrame_encodable [OF data_encodable data_estimate]) (use c in auto)
  then show ?thesis
    using c(1) fec by (simp add: sendDataFrame_def Let_def dataFrame_def)
qed

lemma write_total:
  assumes "send_ok s" "activeSession s = (sess, True)" "map_order sess s order" "\<not> sessionFECEnabled sess s"
  obtains s' e where "Write G R live order (Some p) s = Some (s', e)"
proof -
  obtain s1 x where pick: "pickLane order sess (laneScheduleCost (length p)) s = (s1, x)" by (meson surj_pair)
  have "Write G R live order (Some p) s \<noteq> None"
  proof (cases x)
    case (Some r)
    then obtain i where "lanes s (sess, i) = Some r"
      using pickLane_result(7) [OF pick] assms(3) by (auto simp: map_order_def)
    then have "r < length (lheap s) \<and> lane_sendable (sessionFECEnabled sess s) i (lheap s ! r)"
      using assms(1) unfolding send_ok_def by blast
    then have "r < length (lheap s1)" "lane_sendable False i (lheap s1 ! r)"
      using assms(4) pickLane_result(1) [OF pick] by simp_all
    moreover from this(2) obtain w where "txWindow (lheap s1 ! r) = Some w" "win_ok False w" by (auto simp: lane_sendable_def)
    ultimately show ?thesis
      using sendDataFrame_total [of r s1 w sess G R live p] assms(2,4) pick pickLane_result(4) [OF pick] Some
      by (simp add: Write_def)
  qed (use assms pick in \<open>simp add: Write_def\<close>)
  then show thesis using that by auto
qed

definition demo_send :: "unit send" where
  "demo_send = \<lparr>sessionManager = \<lparr>heap = [], sessions = Map.empty\<rparr>, laneManager = NewLaneManager, hasStream = False,
     bootstrapLanes = [], outq = [], fecConfigured = False, fecCodecs = (\<lambda>_ _. None), send_isClient = False,
     enableBW = False, bwCapBps = 0, bwReference = 0, bwSched = None, activeSessionID = 7, hasActiveSession = True,
     bootstrapped = True, lanes = [(7, 3) \<mapsto> 0],
     lheap = [(newLaneRuntime 3 1)\<lparr>lane_leg := demo_leg\<rparr>],
     strategies = Map.empty, sendStates = [7 \<mapsto> \<lparr>nextRepairKey = 0, fecEnabled = False\<rparr>], stale = []\<rparr>"

lemma demo_send_ok: "send_ok demo_send" "activeSession demo_send = (7, True)" "map_order 7 demo_send [0]"
  "ready (Some (lheap demo_send ! 0)) \<and> weight (lheap demo_send ! 0) \<noteq> 0" "\<not> sessionFECEnabled 7 demo_send"
  by (auto simp: send_ok_def demo_send_def activeSession_def map_order_def lane_sendable_def leg_ok_def lane_ok_def
      newLaneRuntime_def newTxSLCWindow_def win_ok_def ready_def anyActive_def sessionFECEnabled_def split: if_splits)


section \<open>Repair rates\<close>

lemma enable_codecs:
  assumes "1 \<le> n" "n \<le> 4" "1 \<le> k" "k \<le> 4"
  shows "fecCodecs (EnableFEC s) n k = Some \<lparr>dataShards = int n, repairShards = int k\<rparr>"
proof -
  have "fecCodecs (enableSessionFEC i t) = fecCodecs t" for i and t :: "'a send"
    by (simp add: enableSessionFEC_def split: option.split)
  then show ?thesis using assms by (simp add: EnableFEC_def NewCodec_def Let_def split: prod.split)
qed

text \<open> C27: The repair rate. For a group of n packets, n from 1 to 4, whatever count the lane asks for, the
  sender makes the share of the count that n of 4 packets need, rounded up, which is from 1 to n; once FEC
  is enabled there is a codec of that shape. \<close>

theorem repair_rate:
  assumes "1 \<le> n" "n \<le> 4"
  shows "unat (scaledFECRepairCount c (int n)) = (min 4 (max 1 (unat c)) * n + 3) div 4
    \<and> 1 \<le> unat (scaledFECRepairCount c (int n)) \<and> unat (scaledFECRepairCount c (int n)) \<le> n
    \<and> fecCodecFor (int n) (scaledFECRepairCount c (int n)) (EnableFEC s) =
        Some \<lparr>dataShards = int n, repairShards = int (unat (scaledFECRepairCount c (int n)))\<rparr>"
proof -
  note b = scaled_nat [OF assms, of c]
  have "scaledFECRepairCount c (int n) \<le> 4" "scaledFECRepairCount c (int n) \<noteq> 0"
    using b(2,3) assms(2) by (auto simp: word_le_nat_alt unat_gt_0 Suc_le_eq)
  moreover have "fecCodecs (EnableFEC s) n (unat (scaledFECRepairCount c (int n))) =
      Some \<lparr>dataShards = int n, repairShards = int (unat (scaledFECRepairCount c (int n)))\<rparr>"
    using assms b(2,3) by (intro enable_codecs) simp_all
  ultimately have "fecCodecFor (int n) (scaledFECRepairCount c (int n)) (EnableFEC s) =
        Some \<lparr>dataShards = int n, repairShards = int (unat (scaledFECRepairCount c (int n)))\<rparr>"
    using assms unfolding fecCodecFor_def by (simp add: not_less)
  then show ?thesis using b by (intro conjI)
qed

lemma repair_rate_witness: "unat (scaledFECRepairCount 3 (int 2)) = 2"
  using repair_rate [of 2 3 "undefined :: unit send"] by simp

end
