(* ===== verification/Recv.thy ===== *)
theory Recv
  imports Protocol Fec Dedupe Session RxWindow Leg
begin

text \<open>
  \<open>internal/tunnel/v2/recv/recv.go\<close>: the receive engine. It decodes a transport packet, emits the
  payload of DATA frames it has not emitted before, feeds the shards of DATA and REPAIR frames to the
  FEC window of their lane, emits what can be reconstructed, and hands control frames to a handler.

  The states of the sessions are references into a heap, because a running timer keeps its state
  after the session is closed. A critical section of a state's mutex is one function. A FEC timer is
  known by a number; \<open>running\<close> tells which timers \<open>Reset\<close> finds active. \<open>room\<close> is the number of sends to the
  packet channel that complete before a done context wins the \<open>select\<close>. The estimator of
  \<open>qos_estimator.go\<close> is the operation record \<open>qos_ops\<close>. The log of a call is its events in order;
  \<open>Marked\<close> records a decision of the identity window, and an \<open>Emit\<close> carries the state, the lane and the
  identity of its packet. A result \<open>None\<close> is a panic, or a repair coefficient that is never found.
\<close>

section \<open>State\<close>

record QoSStatus =
  qs_SessionID :: u64
  qs_LaneID :: u8
  qs_UDPLimited :: bool
  qs_TCPLimited :: bool
  qs_RepairCount :: u8
  qs_UDPDeliveredBps :: u32
  qs_TCPDeliveredBps :: u32

record BandwidthProbeObservation =
  bo_Primary :: kind
  bo_UDPLimited :: bool
  bo_UDPDeliveredBps :: u32
  bo_TCPDeliveredBps :: u32
  bo_CapBps :: u32

record 'q qos_ops =
  q_new :: "u64 \<Rightarrow> u8 \<Rightarrow> 'q"
  q_original :: "kind \<Rightarrow> nat \<Rightarrow> int \<Rightarrow> 'q \<Rightarrow> 'q"
  q_late :: "u32 \<Rightarrow> kind \<Rightarrow> nat \<Rightarrow> int \<Rightarrow> 'q \<Rightarrow> 'q"
  q_recovered :: "u32 \<Rightarrow> 'q \<Rightarrow> 'q"
  q_done :: "rxGroupDone \<Rightarrow> int \<Rightarrow> 'q \<Rightarrow> 'q"
  q_repair_bytes :: "kind \<Rightarrow> nat \<Rightarrow> int \<Rightarrow> 'q \<Rightarrow> 'q"
  q_repair_group :: "rxGroupKey \<Rightarrow> kind \<Rightarrow> u8 \<Rightarrow> 'q \<Rightarrow> 'q"
  q_hint :: "BandwidthProbeObservation \<Rightarrow> 'q \<Rightarrow> 'q \<times> QoSStatus list"
  q_close :: "'q \<Rightarrow> 'q"

record ('g, 'c, 'b, 'e, 'q) deps =
  trees :: "('g, 'c) trees"
  bits :: "'b bitset"
  gal :: galois
  reeds :: "'e rs"
  est :: "'q qos_ops"

type_synonym rxLaneGroupKey = "u8 \<times> u32"

record ('g, 'c, 'b, 'q) recvState =
  sessionID :: u64
  rclosed :: bool
  rxWindows :: "u8 \<rightharpoonup> ('g, 'c) rxGroupWindow"
  emitDedupe :: "u8 \<rightharpoonup> 'b dataIDDedupe"
  rqos :: "u8 \<rightharpoonup> 'q"
  fecTimers :: "rxLaneGroupKey \<rightharpoonup> nat"
  nextTimer :: nat

datatype revent =
    Marked nat u8 u32 bool
  | Emit nat u8 u32 bytes
  | Control frame
  | Report QoSStatus

datatype recv_error = RecvInvalidFrame | RecvContext | RecvHandler string

text \<open>
  A handler method may change the session table it shares; its result is an error or, for a
  bandwidth probe, an observation.
\<close>

type_synonym handler = "LegRef \<Rightarrow> frame \<Rightarrow> store \<Rightarrow> store \<times> (string + BandwidthProbeObservation)"

record ('g, 'c, 'b, 'q) recv =
  handler :: "handler option"
  smanager :: store
  onQoS :: "(QoSStatus \<Rightarrow> string option) option"
  rcodecs :: "int \<Rightarrow> int \<Rightarrow> codec option"
  states :: "nat \<rightharpoonup> nat"
  rstates :: "('g, 'c, 'b, 'q) recvState list"

text \<open>What a call reads of its surroundings.\<close>

record env =
  now :: int
  running :: "nat \<Rightarrow> bool"
  room :: nat

section \<open>The lanes of a state\<close>

definition windowFor ::
  "('g, 'c, 'b, 'e, 'q) deps \<Rightarrow> u8 \<Rightarrow> ('g, 'c, 'b, 'q) recvState \<Rightarrow> ('g, 'c, 'b, 'q) recvState \<times> ('g, 'c) rxGroupWindow" where
  "windowFor D lane s =
    (case rxWindows s lane of Some w \<Rightarrow> (s, w)
     | None \<Rightarrow> let w = newRxGroupWindow (trees D) in (s\<lparr>rxWindows := (rxWindows s)(lane \<mapsto> w)\<rparr>, w))"

definition emitDedupeFor ::
  "('g, 'c, 'b, 'e, 'q) deps \<Rightarrow> u8 \<Rightarrow> ('g, 'c, 'b, 'q) recvState \<Rightarrow> ('g, 'c, 'b, 'q) recvState \<times> 'b dataIDDedupe" where
  "emitDedupeFor D lane s =
    (case emitDedupe s lane of Some d \<Rightarrow> (s, d)
     | None \<Rightarrow> let d = newDataIDDedupe (bits D) 0 in (s\<lparr>emitDedupe := (emitDedupe s)(lane \<mapsto> d)\<rparr>, d))"

definition qosFor ::
  "('g, 'c, 'b, 'e, 'q) deps \<Rightarrow> u8 \<Rightarrow> ('g, 'c, 'b, 'q) recvState \<Rightarrow> ('g, 'c, 'b, 'q) recvState \<times> 'q" where
  "qosFor D lane s =
    (case rqos s lane of Some q \<Rightarrow> (s, q)
     | None \<Rightarrow> let q = q_new (est D) (sessionID s) lane in (s\<lparr>rqos := (rqos s)(lane \<mapsto> q)\<rparr>, q))"

text \<open>The pointers that \<open>windowFor\<close>, \<open>emitDedupeFor\<close> and \<open>qosFor\<close> return alias the maps' entries.\<close>

definition setWindow :: "u8 \<Rightarrow> ('g, 'c) rxGroupWindow \<Rightarrow> ('g, 'c, 'b, 'q) recvState \<Rightarrow> ('g, 'c, 'b, 'q) recvState" where
  "setWindow lane w s = s\<lparr>rxWindows := (rxWindows s)(lane \<mapsto> w)\<rparr>"

definition markEmit ::
  "('g, 'c, 'b, 'e, 'q) deps \<Rightarrow> u8 \<Rightarrow> u32 \<Rightarrow> ('g, 'c, 'b, 'q) recvState \<Rightarrow> ('g, 'c, 'b, 'q) recvState \<times> bool" where
  "markEmit D lane i s =
    (case emitDedupeFor D lane s of (s, d) \<Rightarrow> case mark (bits D) d i of (d, fresh) \<Rightarrow>
       (s\<lparr>emitDedupe := (emitDedupe s)(lane \<mapsto> d)\<rparr>, fresh))"

definition onEstimator ::
  "('g, 'c, 'b, 'e, 'q) deps \<Rightarrow> u8 \<Rightarrow> ('q \<Rightarrow> 'q) \<Rightarrow> ('g, 'c, 'b, 'q) recvState \<Rightarrow> ('g, 'c, 'b, 'q) recvState" where
  "onEstimator D lane f s = (case qosFor D lane s of (s, q) \<Rightarrow> s\<lparr>rqos := (rqos s)(lane \<mapsto> f q)\<rparr>)"

definition laneDataID :: "u32 \<Rightarrow> u8 \<Rightarrow> u32" where
  "laneDataID g i = g * 4 + ucast i"

section \<open>FEC timers\<close>

definition trackFECGroup :: "env \<Rightarrow> u8 \<Rightarrow> u32 \<Rightarrow> ('g, 'c, 'b, 'q) recvState \<Rightarrow> ('g, 'c, 'b, 'q) recvState" where
  "trackFECGroup v lane g s =
    (case fecTimers s (lane, g) of
       Some t \<Rightarrow> if running v t then s
         else s\<lparr>fecTimers := (fecTimers s)((lane, g) \<mapsto> nextTimer s), nextTimer := nextTimer s + 1\<rparr>
     | None \<Rightarrow> s\<lparr>fecTimers := (fecTimers s)((lane, g) \<mapsto> nextTimer s), nextTimer := nextTimer s + 1\<rparr>)"

definition cancelFECGroupTimer :: "rxLaneGroupKey \<Rightarrow> ('g, 'c, 'b, 'q) recvState \<Rightarrow> ('g, 'c, 'b, 'q) recvState" where
  "cancelFECGroupTimer k s = s\<lparr>fecTimers := (fecTimers s)(k := None)\<rparr>"

definition observeGroupResult ::
  "('g, 'c, 'b, 'e, 'q) deps \<Rightarrow> u8 \<Rightarrow> rxGroupWindowResult \<Rightarrow> int \<Rightarrow> ('g, 'c, 'b, 'q) recvState \<Rightarrow> ('g, 'c, 'b, 'q) recvState" where
  "observeGroupResult D lane r tm s =
    fold (\<lambda>d s. onEstimator D lane (q_done (est D) d tm) (cancelFECGroupTimer (lane, groupID (done_group d)) s))
      (finished r) (fst (qosFor D lane s))"

section \<open>Recovery\<close>

definition recoveredIPv4Packet :: "bytes \<Rightarrow> bytes option" where
  "recoveredIPv4Packet packet =
    (if length packet < 20 \<or> drop_bit 4 (packet ! 0) \<noteq> 4 then None
     else
       let headerLen = unat (packet ! 0 AND 15) * 4;
           totalLen = push_bit 8 (unat (packet ! 2)) OR unat (packet ! 3)
       in if headerLen < 20 \<or> totalLen < headerLen \<or> totalLen > length packet then None
          else Some (take totalLen packet))"

definition recvCodecFor :: "int \<Rightarrow> int \<Rightarrow> ('g, 'c, 'b, 'q) recv \<Rightarrow> codec option" where
  "recvCodecFor d r rv = (if d \<le> 0 \<or> d > 4 \<or> r \<le> 0 \<or> r > 4 then None else rcodecs rv d r)"

text \<open>
  The loop of \<open>recoverPackets\<close> over the source indices: the packets so far with their sizes, and
  \<open>None\<close> for the return on a shard that is no IPv4 packet.
\<close>

fun recoverLoop ::
  "('g, 'c, 'b, 'e, 'q) deps \<Rightarrow> nat \<Rightarrow> u8 \<Rightarrow> rxGroupRecoverable \<Rightarrow> shard list \<Rightarrow> nat list
    \<Rightarrow> (u32 \<times> bytes) list \<times> u64 \<times> u64 \<Rightarrow> ('g, 'c, 'b, 'q) recvState
    \<Rightarrow> ('g, 'c, 'b, 'q) recvState \<times> revent list \<times> ((u32 \<times> bytes) list \<times> u64 \<times> u64) option" where
  "recoverLoop D p lane r shards [] acc s = (s, [], Some acc)"
| "recoverLoop D p lane r shards (i # js) acc s =
    (if missingMask r AND push_bit i 1 = 0 then recoverLoop D p lane r shards js acc s
     else
       let dataID = laneDataID (groupID (rec_group r)) (of_nat i) in
       case recoveredIPv4Packet (sbytes (shards ! i)) of
         None \<Rightarrow> (s, [], None)
       | Some payload \<Rightarrow>
           (case markEmit D lane dataID s of (s, fresh) \<Rightarrow>
              let (acc, s) =
                (if fresh then
                   (case acc of (packets, bytes_sum, largest) \<Rightarrow>
                      let n = of_nat (length payload) in
                      (packets @ [(dataID, payload)], bytes_sum + n, if n > largest then n else largest),
                    onEstimator D lane (q_recovered (est D) dataID) s)
                 else (acc, s)) in
              (case recoverLoop D p lane r shards js acc s of (s, lg, res) \<Rightarrow>
                 (s, Marked p lane dataID fresh # lg, res))))"

text \<open>\<open>recoverPackets\<close> with the packets to emit, \<open>[]\<close> where it returns false.\<close>

definition recoverPackets ::
  "('g, 'c, 'b, 'e, 'q) deps \<Rightarrow> int \<Rightarrow> nat \<Rightarrow> u8 \<Rightarrow> rxGroupRecoverable \<Rightarrow> codec \<Rightarrow> ('g, 'c, 'b, 'q) recvState
    \<Rightarrow> (('g, 'c, 'b, 'q) recvState \<times> revent list \<times> (u32 \<times> bytes) list) option" where
  "recoverPackets D tm p lane r co s =
    (if rclosed s then Some (s, [], [])
     else case rxWindows s lane of None \<Rightarrow> Some (s, [], [])
     | Some w \<Rightarrow>
         case buildShardsLocked (trees D) w r of None \<Rightarrow> Some (s, [], [])
         | Some (shards, keys) \<Rightarrow>
             case Reconstruct (gal D) (reeds D) (Some co) shards keys of None \<Rightarrow> None
             | Some (Inl e) \<Rightarrow> Some (s, [], [])
             | Some (Inr shards) \<Rightarrow>
                 case recoverLoop D p lane r shards [0..<nat (sourceSpan (rec_group r))] ([], 0, 0) s of
                   (s, lg, None) \<Rightarrow> Some (s, lg, [])
                 | (s, lg, Some (packets, bytes_sum, largest)) \<Rightarrow>
                     case finishRecovery (trees D) w r bytes_sum largest of (w, result) \<Rightarrow>
                       Some (observeGroupResult D lane result tm (setWindow lane w s), lg, packets))"

text \<open>The sends of \<open>maybeRecover\<close> to the packet channel.\<close>

definition emitAll :: "nat \<Rightarrow> nat \<Rightarrow> u8 \<Rightarrow> (u32 \<times> bytes) list \<Rightarrow> revent list \<times> recv_error option" where
  "emitAll n p lane packets =
    (map (\<lambda>(i, b). Emit p lane i b) (take n packets), if n < length packets then Some RecvContext else None)"

text \<open>A critical section on the state at reference \<open>p\<close>.\<close>

definition putState :: "nat \<Rightarrow> ('g, 'c, 'b, 'q) recvState \<Rightarrow> ('g, 'c, 'b, 'q) recv \<Rightarrow> ('g, 'c, 'b, 'q) recv" where
  "putState p s rv = rv\<lparr>rstates := (rstates rv)[p := s]\<rparr>"

definition maybeRecover ::
  "('g, 'c, 'b, 'e, 'q) deps \<Rightarrow> env \<Rightarrow> nat \<Rightarrow> u8 \<Rightarrow> nat \<Rightarrow> rxGroupRecoverable \<Rightarrow> ('g, 'c, 'b, 'q) recv
    \<Rightarrow> (('g, 'c, 'b, 'q) recv \<times> revent list \<times> recv_error option) option" where
  "maybeRecover D v n lane p r rv =
    (let missing = countMissing (missingMask r) (sourceSpan (rec_group r)) in
     if missing = 0 then Some (rv, [], None)
     else case recvCodecFor (sourceSpan (rec_group r)) (int missing) rv of None \<Rightarrow> Some (rv, [], None)
     | Some co \<Rightarrow>
         case recoverPackets D (now v) p lane r co (rstates rv ! p) of None \<Rightarrow> None
         | Some (s, lg, packets) \<Rightarrow>
             case emitAll n p lane packets of (sent, e) \<Rightarrow> Some (putState p s rv, lg @ sent, e))"

text \<open>The recovery that follows a critical section, for the first recoverable group it reports.\<close>

definition recoverFirst ::
  "('g, 'c, 'b, 'e, 'q) deps \<Rightarrow> env \<Rightarrow> nat \<Rightarrow> u8 \<Rightarrow> nat \<Rightarrow> rxGroupWindowResult \<Rightarrow> ('g, 'c, 'b, 'q) recv
    \<Rightarrow> (('g, 'c, 'b, 'q) recv \<times> revent list \<times> recv_error option) option" where
  "recoverFirst D v n lane p result rv =
    (case recoverable result of [] \<Rightarrow> Some (rv, [], None) | r # _ \<Rightarrow> maybeRecover D v n lane p r rv)"

section \<open>Session states\<close>

text \<open>\<open>recvState\<close> reads under the read lock and, when that fails, reads again and creates.\<close>

definition lookupState :: "u64 \<Rightarrow> ('g, 'c, 'b, 'q) recv \<Rightarrow> nat option" where
  "lookupState i rv = (case Get True (smanager rv) i of (r, ok) \<Rightarrow> if ok then states rv (the r) else None)"

definition newState :: "u64 \<Rightarrow> ('g, 'c, 'b, 'q) recvState" where
  "newState i = \<lparr>sessionID = i, rclosed = False, rxWindows = Map.empty, emitDedupe = Map.empty, rqos = Map.empty,
     fecTimers = Map.empty, nextTimer = 0\<rparr>"

definition recvStateFor :: "u64 \<Rightarrow> ('g, 'c, 'b, 'q) recv \<Rightarrow> ('g, 'c, 'b, 'q) recv \<times> nat option" where
  "recvStateFor i rv =
    (case lookupState i rv of Some p \<Rightarrow> (rv, Some p)
     | None \<Rightarrow>
         case Get True (smanager rv) i of (r, ok) \<Rightarrow>
           if \<not> ok then (rv, None)
           else case states rv (the r) of Some p \<Rightarrow> (rv, Some p)
           | None \<Rightarrow>
               let p = length (rstates rv) in
               (rv\<lparr>states := (states rv)(the r \<mapsto> p), rstates := rstates rv @ [newState i]\<rparr>, Some p))"

text \<open>The critical section that ends a state.\<close>

definition closeState :: "('g, 'c, 'b, 'e, 'q) deps \<Rightarrow> ('g, 'c, 'b, 'q) recvState \<Rightarrow> ('g, 'c, 'b, 'q) recvState" where
  "closeState D s = s\<lparr>rclosed := True, rqos := map_option (q_close (est D)) \<circ> rqos s, fecTimers := Map.empty,
     rxWindows := map_option (releaseAll (trees D)) \<circ> rxWindows s\<rparr>"

definition closeRecvState ::
  "('g, 'c, 'b, 'e, 'q) deps \<Rightarrow> u64 \<Rightarrow> nat option \<Rightarrow> ('g, 'c, 'b, 'q) recv \<Rightarrow> ('g, 'c, 'b, 'q) recv" where
  "closeRecvState D i session rv =
    (case (case session of None \<Rightarrow> (case GetOrDelete True (smanager rv) i of (m, r, ok) \<Rightarrow> (m, r))
           | Some r \<Rightarrow> (Session.Delete True (smanager rv) i, Some r)) of
       (m, session) \<Rightarrow>
         let rv = rv\<lparr>smanager := m\<rparr> in
         case session of None \<Rightarrow> rv
         | Some r \<Rightarrow>
             let p = states rv r; rv = rv\<lparr>states := (states rv)(r := None)\<rparr> in
             case p of None \<Rightarrow> rv | Some p \<Rightarrow> putState p (closeState D (rstates rv ! p)) rv)"

section \<open>Frames\<close>

text \<open>
  The critical sections of \<open>handleDATA\<close>, \<open>handleREPAIR\<close> and \<open>expireFECGroup\<close> on an open state. For DATA the
  result is \<open>None\<close> when the identity was emitted before.
\<close>

definition dataSection ::
  "('g, 'c, 'b, 'e, 'q) deps \<Rightarrow> env \<Rightarrow> kind \<Rightarrow> u8 \<Rightarrow> u32 \<Rightarrow> u8 \<Rightarrow> bytes \<Rightarrow> ('g, 'c, 'b, 'q) recvState
    \<Rightarrow> (('g, 'c, 'b, 'q) recvState \<times> rxGroupWindowResult option) option" where
  "dataSection D v k lane gid index packet s =
    (let dataID = laneDataID gid index; s = fst (windowFor D lane s) in
     case markEmit D lane dataID s of
       (s, False) \<Rightarrow> Some (onEstimator D lane (q_late (est D) dataID k (length packet) (now v)) s, None)
     | (s, True) \<Rightarrow>
         case addData (trees D) (snd (windowFor D lane s)) gid index packet of None \<Rightarrow> None
         | Some (w, result, accepted) \<Rightarrow>
             let s = setWindow lane w s;
                 s = (if accepted then trackFECGroup v lane gid s else s);
                 s = onEstimator D lane (q_original (est D) k (length packet) (now v)) s
             in Some (observeGroupResult D lane result (now v) s, Some result))"

definition repairSection ::
  "('g, 'c, 'b, 'e, 'q) deps \<Rightarrow> env \<Rightarrow> kind \<Rightarrow> u8 \<Rightarrow> u32 \<Rightarrow> u16 \<Rightarrow> u8 \<Rightarrow> u8 \<Rightarrow> bytes \<Rightarrow> ('g, 'c, 'b, 'q) recvState
    \<Rightarrow> ('g, 'c, 'b, 'q) recvState \<times> rxGroupWindowResult" where
  "repairSection D v k lane gid rkey n c symbol s =
    (case windowFor D lane s of (s, w) \<Rightarrow>
       let s = onEstimator D lane (q_repair_bytes (est D) k (length symbol) (now v)) s in
       case addRepair (trees D) w gid rkey (int (unat n)) symbol of (w, result, accepted) \<Rightarrow>
         let s = setWindow lane w s;
             s = (if accepted then
                    onEstimator D lane (q_repair_group (est D) \<lparr>groupID = gid, sourceSpan = int (unat n)\<rparr> k c)
                      (trackFECGroup v lane gid s)
                  else s)
         in (observeGroupResult D lane result (now v) s, result))"

definition expireSection ::
  "('g, 'c, 'b, 'e, 'q) deps \<Rightarrow> env \<Rightarrow> u8 \<Rightarrow> u32 \<Rightarrow> ('g, 'c, 'b, 'q) recvState
    \<Rightarrow> ('g, 'c, 'b, 'q) recvState \<times> rxGroupWindowResult" where
  "expireSection D v lane gid s =
    (let s = s\<lparr>fecTimers := (fecTimers s)((lane, gid) := None)\<rparr> in
     case rxWindows s lane of None \<Rightarrow> (s, no_result)
     | Some w \<Rightarrow> case expireGroup (trees D) w gid of (w, result) \<Rightarrow>
         (observeGroupResult D lane result (now v) (setWindow lane w s), result))"

text \<open>Each handler returns the log, an error, and for DATA whether the buffer went to the channel.\<close>

definition handleDATA ::
  "('g, 'c, 'b, 'e, 'q) deps \<Rightarrow> env \<Rightarrow> LegRef \<Rightarrow> frame \<Rightarrow> ('g, 'c, 'b, 'q) recv
    \<Rightarrow> (('g, 'c, 'b, 'q) recv \<times> revent list \<times> recv_error option \<times> bool) option" where
  "handleDATA D v from f rv =
    (case f_body f of
       Some (DataBody gid index packet) \<Rightarrow>
         (case recvStateFor (f_session f) rv of
            (rv, None) \<Rightarrow> Some (rv, [], None, False)
          | (rv, Some p) \<Rightarrow>
              if rclosed (rstates rv ! p) then Some (rv, [], None, False)
              else
                let lane = f_lane f; dataID = laneDataID gid index in
                (case dataSection D v (Kind from) lane gid index packet (rstates rv ! p) of
                   None \<Rightarrow> None
                 | Some (s, None) \<Rightarrow> Some (putState p s rv, [Marked p lane dataID False], None, False)
                 | Some (s, Some result) \<Rightarrow>
                     if room v = 0 then Some (putState p s rv, [Marked p lane dataID True], Some RecvContext, False)
                     else (case recoverFirst D v (room v - 1) lane p result (putState p s rv) of None \<Rightarrow> None
                       | Some (rv, lg, e) \<Rightarrow> Some (rv, Marked p lane dataID True # Emit p lane dataID packet # lg, e, True))))
     | _ \<Rightarrow> Some (rv, [], Some RecvInvalidFrame, False))"

definition handleREPAIR ::
  "('g, 'c, 'b, 'e, 'q) deps \<Rightarrow> env \<Rightarrow> LegRef \<Rightarrow> frame \<Rightarrow> ('g, 'c, 'b, 'q) recv
    \<Rightarrow> (('g, 'c, 'b, 'q) recv \<times> revent list \<times> recv_error option) option" where
  "handleREPAIR D v from f rv =
    (case f_body f of
       Some (RepairBody gid k n c symbol) \<Rightarrow>
         if n = 0 \<or> n > 4 then Some (rv, [], None)
         else (case recvStateFor (f_session f) rv of
            (rv, None) \<Rightarrow> Some (rv, [], None)
          | (rv, Some p) \<Rightarrow>
              if rclosed (rstates rv ! p) then Some (rv, [], None)
              else (case repairSection D v (Kind from) (f_lane f) gid k n c symbol (rstates rv ! p) of (s, result) \<Rightarrow>
                recoverFirst D v (room v) (f_lane f) p result (putState p s rv)))
     | _ \<Rightarrow> Some (rv, [], Some RecvInvalidFrame))"

text \<open>The callback of a FEC timer. It runs under a background context, so every send completes.\<close>

definition expireFECGroup ::
  "('g, 'c, 'b, 'e, 'q) deps \<Rightarrow> env \<Rightarrow> nat \<Rightarrow> u8 \<Rightarrow> u32 \<Rightarrow> nat \<Rightarrow> ('g, 'c, 'b, 'q) recv
    \<Rightarrow> (('g, 'c, 'b, 'q) recv \<times> revent list) option" where
  "expireFECGroup D v p lane gid timer rv =
    (let s = rstates rv ! p in
     if rclosed s \<or> fecTimers s (lane, gid) \<noteq> Some timer then Some (rv, [])
     else case expireSection D v lane gid s of (s, result) \<Rightarrow>
       map_option (\<lambda>(rv, lg, e). (rv, lg)) (recoverFirst D v 4 lane p result (putState p s rv)))"

definition validateControlBody :: "frame \<Rightarrow> bool" where
  "validateControlBody f =
    (if f_type f = TypeHELLO then (case f_body f of Some (HelloBody _ _ _) \<Rightarrow> True | _ \<Rightarrow> False)
     else if f_type f = TypeHELLOACK then (case f_body f of Some (HelloAckBody _ _ _ _) \<Rightarrow> True | _ \<Rightarrow> False)
     else if f_type f = TypePING \<or> f_type f = TypePONG then (case f_body f of Some (PingBody _ _) \<Rightarrow> True | _ \<Rightarrow> False)
     else if f_type f = TypeBandwidthProbe then
       (case f_body f of Some (BandwidthProbeBody _ _ _ _ _ _ _ _) \<Rightarrow> True | _ \<Rightarrow> False)
     else if f_type f = TypeBandwidthProbeAck then
       (case f_body f of Some (BandwidthProbeAckBody _ _ _ _ _ _) \<Rightarrow> True | _ \<Rightarrow> False)
     else if f_type f = TypeLinkStatus then (case f_body f of Some (LinkStatusBody _ _ _) \<Rightarrow> True | _ \<Rightarrow> False)
     else True)"

text \<open>\<open>reportQoS\<close>: the statuses up to the one the callback refuses.\<close>

fun reportQoS :: "(QoSStatus \<Rightarrow> string option) option \<Rightarrow> u64 \<Rightarrow> u8 \<Rightarrow> QoSStatus list \<Rightarrow> revent list" where
  "reportQoS None i lane xs = []"
| "reportQoS (Some h) i lane [] = []"
| "reportQoS (Some h) i lane (x # xs) =
    (let x = x\<lparr>qs_SessionID := i, qs_LaneID := lane\<rparr> in
     Report x # (if h x = None then reportQoS (Some h) i lane xs else []))"

definition knownQoSTransport :: "kind \<Rightarrow> bool" where
  "knownQoSTransport k \<longleftrightarrow> k = KindUDP \<or> k = KindTCP"

definition observeBandwidthProbe ::
  "('g, 'c, 'b, 'e, 'q) deps \<Rightarrow> u64 \<Rightarrow> u8 \<Rightarrow> BandwidthProbeObservation \<Rightarrow> ('g, 'c, 'b, 'q) recv
    \<Rightarrow> ('g, 'c, 'b, 'q) recv \<times> revent list" where
  "observeBandwidthProbe D i lane ob rv =
    (if \<not> knownQoSTransport (bo_Primary ob) then (rv, [])
     else case recvStateFor i rv of
       (rv, None) \<Rightarrow> (rv, [])
     | (rv, Some p) \<Rightarrow>
         if rclosed (rstates rv ! p) then (rv, [])
         else case qosFor D lane (rstates rv ! p) of (s, q) \<Rightarrow>
           case q_hint (est D) ob q of (q, statuses) \<Rightarrow>
             (putState p (s\<lparr>rqos := (rqos s)(lane \<mapsto> q)\<rparr>) rv, reportQoS (onQoS rv) i lane statuses))"

definition handleControl ::
  "('g, 'c, 'b, 'e, 'q) deps \<Rightarrow> LegRef \<Rightarrow> frame \<Rightarrow> ('g, 'c, 'b, 'q) recv
    \<Rightarrow> ('g, 'c, 'b, 'q) recv \<times> revent list \<times> recv_error option" where
  "handleControl D from f rv =
    (if \<not> validateControlBody f then (rv, [], Some RecvInvalidFrame)
     else case handler rv of None \<Rightarrow> (rv, [], None)
     | Some h \<Rightarrow>
         if f_type f \<in> {TypeHELLO, TypeHELLOACK, TypePING, TypePONG, TypeBandwidthProbe, TypeBandwidthProbeAck, TypeLinkStatus}
         then
           (case h from f (smanager rv) of (m, res) \<Rightarrow>
              let rv = rv\<lparr>smanager := m\<rparr> in
              case res of Inl e \<Rightarrow> (rv, [Control f], Some (RecvHandler e))
              | Inr ob \<Rightarrow>
                  if f_type f = TypeBandwidthProbe
                  then (case observeBandwidthProbe D (f_session f) (f_lane f) ob rv of (rv, lg) \<Rightarrow> (rv, Control f # lg, None))
                  else (rv, [Control f], None))
         else (rv, [], None))"

definition handleCLOSE ::
  "('g, 'c, 'b, 'e, 'q) deps \<Rightarrow> LegRef \<Rightarrow> frame \<Rightarrow> ('g, 'c, 'b, 'q) recv
    \<Rightarrow> ('g, 'c, 'b, 'q) recv \<times> revent list \<times> recv_error option" where
  "handleCLOSE D from f rv =
    (case f_body f of
       Some (CloseBody scope reason) \<Rightarrow>
         let session = (if scope = CloseScopeSession then fst (Get True (smanager rv) (f_session f)) else None);
             (rv, lg, e) =
               (case handler rv of None \<Rightarrow> (rv, [], None)
                | Some h \<Rightarrow>
                    (case h from f (smanager rv) of (m, res) \<Rightarrow>
                       (rv\<lparr>smanager := m\<rparr>, [Control f], (case res of Inl e \<Rightarrow> Some (RecvHandler e) | Inr _ \<Rightarrow> None))))
         in if e \<noteq> None then (rv, lg, e)
            else if scope = CloseScopeSession then (closeRecvState D (f_session f) session rv, lg, None)
            else (rv, lg, None)
     | _ \<Rightarrow> (rv, [], Some RecvInvalidFrame))"

text \<open>
  \<open>WriteTo\<close>: the log, the error and how often the buffer was released. A nil packet is left out.
\<close>

definition recvWriteTo ::
  "('g, 'c, 'b, 'e, 'q) deps \<Rightarrow> env \<Rightarrow> LegRef \<Rightarrow> bytes \<Rightarrow> ('g, 'c, 'b, 'q) recv
    \<Rightarrow> (('g, 'c, 'b, 'q) recv \<times> revent list \<times> recv_error option \<times> nat) option" where
  "recvWriteTo D v from payload rv =
    (case decode payload of Inl e \<Rightarrow> Some (rv, [], None, 1)
     | Inr f \<Rightarrow>
         if f_type f = TypeDATA then
           map_option (\<lambda>(rv, lg, e, consumed). (rv, lg, e, if consumed then 0 else 1)) (handleDATA D v from f rv)
         else if f_type f = TypeREPAIR then
           map_option (\<lambda>(rv, lg, e). (rv, lg, e, 1)) (handleREPAIR D v from f rv)
         else if f_type f = TypeCLOSE then
           (case handleCLOSE D from f rv of (rv, lg, e) \<Rightarrow> Some (rv, lg, e, 1))
         else if f_type f \<in> {TypeHELLO, TypeHELLOACK, TypePING, TypePONG, TypeBandwidthProbe, TypeBandwidthProbeAck, TypeLinkStatus}
         then (case handleControl D from f rv of (rv, lg, e) \<Rightarrow> Some (rv, lg, e, 1))
         else Some (rv, [], None, 1))"

definition newRecv ::
  "handler option \<Rightarrow> store \<Rightarrow> (QoSStatus \<Rightarrow> string option) option \<Rightarrow> ('g, 'c, 'b, 'q) recv" where
  "newRecv h m q = \<lparr>handler = h, smanager = m, onQoS = q,
     rcodecs = (\<lambda>i r. if 1 \<le> i \<and> i \<le> 4 \<and> 1 \<le> r \<and> r \<le> 4
       then (case NewCodec i r of Inl _ \<Rightarrow> None | Inr c \<Rightarrow> Some c) else None),
     states = Map.empty, rstates = []\<rparr>"

section \<open>Runs\<close>

text \<open>A packet arrives, or a timer that was started for a state fires.\<close>

datatype rx_op = Arrive env LegRef bytes | Fire env nat u8 u32 nat

fun rx_step ::
  "('g, 'c, 'b, 'e, 'q) deps \<Rightarrow> rx_op \<Rightarrow> ('g, 'c, 'b, 'q) recv \<Rightarrow> (('g, 'c, 'b, 'q) recv \<times> revent list) option" where
  "rx_step D (Arrive v from payload) rv = map_option (\<lambda>(rv, lg, e, n). (rv, lg)) (recvWriteTo D v from payload rv)"
| "rx_step D (Fire v p lane gid t) rv =
    (if p < length (rstates rv) then expireFECGroup D v p lane gid t rv else Some (rv, []))"

fun rx_run ::
  "('g, 'c, 'b, 'e, 'q) deps \<Rightarrow> rx_op list \<Rightarrow> ('g, 'c, 'b, 'q) recv \<Rightarrow> (('g, 'c, 'b, 'q) recv \<times> revent list) option" where
  "rx_run D [] rv = Some (rv, [])"
| "rx_run D (x # xs) rv =
    (case rx_step D x rv of None \<Rightarrow> None
     | Some (rv, lg) \<Rightarrow> map_option (\<lambda>(rv, lg'). (rv, lg @ lg')) (rx_run D xs rv))"

text \<open>The decisions and the emissions of one lane of one state, in order.\<close>

definition marked :: "nat \<Rightarrow> u8 \<Rightarrow> revent list \<Rightarrow> (u32 \<times> bool) list" where
  "marked p lane lg = concat (map (\<lambda>e. case e of Marked q l i r \<Rightarrow> if q = p \<and> l = lane then [(i, r)] else [] | _ \<Rightarrow> []) lg)"

definition emitted :: "nat \<Rightarrow> u8 \<Rightarrow> revent list \<Rightarrow> u32 list" where
  "emitted p lane lg = concat (map (\<lambda>e. case e of Emit q l i b \<Rightarrow> if q = p \<and> l = lane then [i] else [] | _ \<Rightarrow> []) lg)"

lemma log_simps [simp]:
  "marked p lane [] = []" "emitted p lane [] = []"
  "marked p lane (lg @ lg') = marked p lane lg @ marked p lane lg'"
  "emitted p lane (lg @ lg') = emitted p lane lg @ emitted p lane lg'"
  "marked p lane (Marked q l i r # lg) = (if q = p \<and> l = lane then [(i, r)] else []) @ marked p lane lg"
  "marked p lane (Emit q l i b # lg) = marked p lane lg"
  "marked p lane (Control f # lg) = marked p lane lg"
  "marked p lane (Report x # lg) = marked p lane lg"
  "emitted p lane (Marked q l i r # lg) = emitted p lane lg"
  "emitted p lane (Emit q l i b # lg) = (if q = p \<and> l = lane then [i] else []) @ emitted p lane lg"
  "emitted p lane (Control f # lg) = emitted p lane lg"
  "emitted p lane (Report x # lg) = emitted p lane lg"
  by (simp_all add: marked_def emitted_def)

text \<open>Reports touch neither.\<close>

lemma log_reports [simp]: "marked p lane (reportQoS h i l xs) = []" "emitted p lane (reportQoS h i l xs) = []"
  by (induction h i l xs rule: reportQoS.induct) (simp_all add: Let_def)

section \<open>Fields an operation keeps\<close>

named_theorems recv_frame

lemma qosFor_frame [recv_frame]:
  "emitDedupe (fst (qosFor D lane s)) = emitDedupe s" "rxWindows (fst (qosFor D lane s)) = rxWindows s"
  "rclosed (fst (qosFor D lane s)) = rclosed s" "sessionID (fst (qosFor D lane s)) = sessionID s"
  "fecTimers (fst (qosFor D lane s)) = fecTimers s"
  by (simp_all add: qosFor_def Let_def split: option.split)

lemma onEstimator_frame [recv_frame]:
  "emitDedupe (onEstimator D lane f s) = emitDedupe s" "rxWindows (onEstimator D lane f s) = rxWindows s"
  "rclosed (onEstimator D lane f s) = rclosed s" "sessionID (onEstimator D lane f s) = sessionID s"
  "fecTimers (onEstimator D lane f s) = fecTimers s"
  using qosFor_frame [of D lane s] by (auto simp: onEstimator_def split: prod.split)

lemma track_frame [recv_frame]:
  "emitDedupe (trackFECGroup v lane g s) = emitDedupe s" "rxWindows (trackFECGroup v lane g s) = rxWindows s"
  "rclosed (trackFECGroup v lane g s) = rclosed s" "sessionID (trackFECGroup v lane g s) = sessionID s"
  by (simp_all add: trackFECGroup_def split: option.split)

lemma fold_frame:
  assumes "\<And>x t. h (f x t) = h t" shows "h (fold f xs t) = h t"
  using assms by (induction xs arbitrary: t) simp_all

lemma observe_frame [recv_frame]:
  "emitDedupe (observeGroupResult D lane r tm s) = emitDedupe s"
  "rxWindows (observeGroupResult D lane r tm s) = rxWindows s"
  "rclosed (observeGroupResult D lane r tm s) = rclosed s"
  "sessionID (observeGroupResult D lane r tm s) = sessionID s"
  by (simp_all add: observeGroupResult_def fold_frame cancelFECGroupTimer_def recv_frame)

lemma setWindow_frame [recv_frame]:
  "emitDedupe (setWindow lane w s) = emitDedupe s" "rxWindows (setWindow lane w s) = (rxWindows s)(lane \<mapsto> w)"
  "rclosed (setWindow lane w s) = rclosed s" "sessionID (setWindow lane w s) = sessionID s"
  by (simp_all add: setWindow_def)

lemma windowFor_frame [recv_frame]:
  "emitDedupe (fst (windowFor D lane s)) = emitDedupe s"
  "rclosed (fst (windowFor D lane s)) = rclosed s" "sessionID (fst (windowFor D lane s)) = sessionID s"
  "rxWindows (fst (windowFor D lane s)) = (rxWindows s)(lane \<mapsto> snd (windowFor D lane s))"
  by (auto simp: windowFor_def Let_def fun_upd_idem split: option.split)

lemma markEmit_frame [recv_frame]:
  "rxWindows (fst (markEmit D lane i s)) = rxWindows s"
  "rclosed (fst (markEmit D lane i s)) = rclosed s" "sessionID (fst (markEmit D lane i s)) = sessionID s"
  "fecTimers (fst (markEmit D lane i s)) = fecTimers s"
  by (auto simp: markEmit_def emitDedupeFor_def Let_def split: option.split prod.split)

end
