(* ===== verification/RecvOnce.thy ===== *)
theory RecvOnce
  imports Recv "HOL-Library.Sublist"
begin

text \<open>
  Properties of the receive engine (\<open>Recv\<close>) over whole runs: what it emits, that it emits an identity
  once, that it never panics, and that a closed session is silent.
\<close>

section \<open>The identity windows\<close>

definition dedupeOf :: "('g, 'c, 'b, 'e, 'q) deps \<Rightarrow> ('g, 'c, 'b, 'q) recvState \<Rightarrow> u8 \<Rightarrow> 'b dataIDDedupe" where
  "dedupeOf D s lane = (case emitDedupe s lane of None \<Rightarrow> newDataIDDedupe (bits D) 0 | Some d \<Rightarrow> d)"

text \<open>A critical section on state \<open>p\<close> makes exactly the calls of \<open>mark\<close> that it logs.\<close>

definition logs ::
  "('g, 'c, 'b, 'e, 'q) deps \<Rightarrow> nat \<Rightarrow> ('g, 'c, 'b, 'q) recvState \<Rightarrow> revent list \<Rightarrow> ('g, 'c, 'b, 'q) recvState \<Rightarrow> bool" where
  "logs D p s lg s' \<longleftrightarrow> (\<forall>lane. marks (bits D) (dedupeOf D s lane) (map fst (marked p lane lg))
     = (dedupeOf D s' lane, map snd (marked p lane lg)))"

lemma marks_append: "marks B d (xs @ ys) =
    (case marks B d xs of (d, rs) \<Rightarrow> case marks B d ys of (d, ss) \<Rightarrow> (d, rs @ ss))"
  by (induction xs arbitrary: d) (auto split: prod.split)

lemma logs_append: "logs D p s lg s' \<Longrightarrow> logs D p s' lg' s'' \<Longrightarrow> logs D p s (lg @ lg') s''"
  by (simp add: logs_def marks_append)

lemma logs_same: "emitDedupe s = emitDedupe s' \<Longrightarrow> (\<And>lane. marked p lane lg = []) \<Longrightarrow> logs D p s lg s'"
  by (simp add: logs_def dedupeOf_def)

lemma logs_marked: "logs D p s lg s' \<Longrightarrow> (\<And>l. marked p l lg' = marked p l lg) \<Longrightarrow> logs D p s lg' s'"
  by (simp add: logs_def)

lemma markEmit_logs: "markEmit D lane i s = (s', fresh) \<Longrightarrow> logs D p s [Marked p lane i fresh] s'"
  by (auto simp: logs_def dedupeOf_def markEmit_def emitDedupeFor_def Let_def split: option.splits prod.splits)

lemma logs_cong: "emitDedupe s = emitDedupe t \<Longrightarrow> emitDedupe s' = emitDedupe t' \<Longrightarrow> logs D p s lg s' = logs D p t lg t'"
  by (simp add: logs_def dedupeOf_def)

lemma recoverLoop_logs:
  "recoverLoop D p lane r shards js acc s = (s', lg, res) \<Longrightarrow>
    logs D p s lg s' \<and> rxWindows s' = rxWindows s \<and> rclosed s' = rclosed s \<and> sessionID s' = sessionID s
    \<and> emitted q l lg = [] \<and> (q \<noteq> p \<or> l \<noteq> lane \<longrightarrow> marked q l lg = [])
    \<and> (\<forall>ps b m. res = Some (ps, b, m) \<longrightarrow>
        map fst ps = map fst (fst acc) @ map fst (filter snd (marked p lane lg)))"
proof (induction js arbitrary: acc s s' lg res)
  case (Cons j js)
  show ?case
  proof (cases "missingMask r AND push_bit j 1 = 0")
    case True
    then show ?thesis using Cons by simp
  next
    case False
    let ?i = "laneDataID (groupID (rec_group r)) (of_nat j)"
    show ?thesis
    proof (cases "recoveredIPv4Packet (sbytes (shards ! j))")
      case None
      then show ?thesis using Cons.prems False by (auto intro: logs_same)
    next
      case (Some payload)
      obtain s1 fresh where m: "markEmit D lane ?i s = (s1, fresh)" by fastforce
      obtain ps b mx where acc: "acc = (ps, b, mx)" by (cases acc) auto
      define acc2 where "acc2 = (if fresh then (ps @ [(?i, payload)], b + of_nat (length payload),
          if of_nat (length payload) > mx then of_nat (length payload) else mx) else acc)"
      define s2 where "s2 = (if fresh then onEstimator D lane (q_recovered (est D) ?i) s1 else s1)"
      obtain s3 lg3 res3 where rest: "recoverLoop D p lane r shards js acc2 s2 = (s3, lg3, res3)" by (metis prod_cases3)
      have out: "s' = s3" "lg = Marked p lane ?i fresh # lg3" "res = res3"
        using Cons.prems False Some m rest acc by (auto simp: acc2_def s2_def Let_def split: if_splits)
      have frame: "emitDedupe s2 = emitDedupe s1" "rxWindows s2 = rxWindows s" "rclosed s2 = rclosed s" "sessionID s2 = sessionID s"
        using markEmit_frame [of D lane ?i s] m by (auto simp: s2_def recv_frame)
      have "logs D p s [Marked p lane ?i fresh] s2"
        using markEmit_logs [OF m, of p] frame(1) by (simp cong: logs_cong)
      then show ?thesis
        using Cons.IH [OF rest] frame out logs_append [of D p s "[Marked p lane ?i fresh]" s2 lg3 s3]
        by (auto simp: acc2_def acc)
    qed
  qed
qed (auto intro: logs_same)

lemma recoverPackets_logs:
  assumes "recoverPackets D tm p lane r co s = Some (s', lg, packets)"
  shows "logs D p s lg s'" "rclosed s' = rclosed s" "sessionID s' = sessionID s" "emitted q l lg = []"
    "q \<noteq> p \<or> l \<noteq> lane \<Longrightarrow> marked q l lg = []" "prefix (map fst packets) (map fst (filter snd (marked p lane lg)))"
proof -
  have "logs D p s lg s' \<and> rclosed s' = rclosed s \<and> sessionID s' = sessionID s \<and> emitted q l lg = []
    \<and> (q \<noteq> p \<or> l \<noteq> lane \<longrightarrow> marked q l lg = []) \<and> prefix (map fst packets) (map fst (filter snd (marked p lane lg)))"
  proof (cases "s' = s \<and> lg = [] \<and> packets = []")
    case True
    then show ?thesis by (simp add: logs_same)
  next
    case False
    obtain w shards keys shards' s1 res where w: "\<not> rclosed s" "rxWindows s lane = Some w"
        "buildShardsLocked (trees D) w r = Some (shards, keys)"
        "Reconstruct (gal D) (reeds D) (Some co) shards keys = Some (Inr shards')"
        "recoverLoop D p lane r shards' [0..<nat (sourceSpan (rec_group r))] ([], 0, 0) s = (s1, lg, res)"
      using assms False unfolding recoverPackets_def
      by (auto simp del: recoverLoop.simps split: if_splits option.splits prod.splits sum.splits)
    note loop = recoverLoop_logs [OF w(5), of q l]
    show ?thesis
    proof (cases res)
      case None
      then show ?thesis using assms w loop by (simp add: recoverPackets_def)
    next
      case (Some x)
      obtain ps b m where x: "x = (ps, b, m)" by (cases x) auto
      obtain w' result where f: "finishRecovery (trees D) w r b m = (w', result)" by fastforce
      have out: "s' = observeGroupResult D lane result tm (setWindow lane w' s1)" "packets = ps"
        using assms w Some x f by (simp_all add: recoverPackets_def)
      have "emitDedupe s' = emitDedupe s1" "rclosed s' = rclosed s1" "sessionID s' = sessionID s1"
        using out by (simp_all add: recv_frame)
      then show ?thesis using loop Some x out by (simp cong: logs_cong)
    qed
  qed
  then show "logs D p s lg s'" "rclosed s' = rclosed s" "sessionID s' = sessionID s" "emitted q l lg = []"
    "q \<noteq> p \<or> l \<noteq> lane \<Longrightarrow> marked q l lg = []" "prefix (map fst packets) (map fst (filter snd (marked p lane lg)))"
    by auto
qed

section \<open>The critical sections\<close>

lemma dataSection_cases:
  assumes "dataSection D v k lane gid index packet s = Some (s', res)"
  obtains (duplicate) s1 where "markEmit D lane (laneDataID gid index) (fst (windowFor D lane s)) = (s1, False)" "res = None"
      "s' = onEstimator D lane (q_late (est D) (laneDataID gid index) k (length packet) (now v)) s1"
  | (fresh) s1 w result acc where "markEmit D lane (laneDataID gid index) (fst (windowFor D lane s)) = (s1, True)"
      "addData (trees D) (snd (windowFor D lane s1)) gid index packet = Some (w, result, acc)" "res = Some result"
      "emitDedupe s' = emitDedupe s1" "rxWindows s' = (rxWindows s1)(lane \<mapsto> w)" "rclosed s' = rclosed s1" "sessionID s' = sessionID s1"
proof (cases "markEmit D lane (laneDataID gid index) (fst (windowFor D lane s))")
  case (Pair s1 b)
  show ?thesis
  proof (cases b)
    case False
    then show ?thesis using assms Pair by (intro duplicate [of s1]) (simp_all add: dataSection_def)
  next
    case True
    obtain w result acc where a: "addData (trees D) (snd (windowFor D lane s1)) gid index packet = Some (w, result, acc)"
      using assms Pair True by (auto simp: dataSection_def split: option.splits)
    then have s': "s' = observeGroupResult D lane result (now v) (onEstimator D lane (q_original (est D) k (length packet) (now v))
        (if acc then trackFECGroup v lane gid (setWindow lane w s1) else setWindow lane w s1))" "res = Some result"
      using assms Pair True by (auto simp: dataSection_def Let_def)
    show ?thesis using Pair True a by (intro fresh [OF _ a]) (simp_all add: s' recv_frame)
  qed
qed

lemma repairSection_cases:
  assumes "repairSection D v k lane gid rkey n c symbol s = (s', result)"
  obtains w acc where "addRepair (trees D) (snd (windowFor D lane s)) gid rkey (int (unat n)) symbol = (w, result, acc)"
    "emitDedupe s' = emitDedupe s" "rxWindows s' = (rxWindows s)(lane \<mapsto> w)" "rclosed s' = rclosed s" "sessionID s' = sessionID s"
proof (cases "addRepair (trees D) (snd (windowFor D lane s)) gid rkey (int (unat n)) symbol")
  case (fields w res acc)
  let ?s = "setWindow lane w (onEstimator D lane (q_repair_bytes (est D) k (length symbol) (now v)) (fst (windowFor D lane s)))"
  have "s' = observeGroupResult D lane res (now v) (if acc then onEstimator D lane
      (q_repair_group (est D) \<lparr>groupID = gid, sourceSpan = int (unat n)\<rparr> k c) (trackFECGroup v lane gid ?s) else ?s)" "result = res"
    using assms fields by (auto simp: repairSection_def Let_def split: prod.splits if_splits)
  then show ?thesis using fields by (intro that [of w acc]) (simp_all add: recv_frame)
qed

lemma expireSection_cases:
  assumes "expireSection D v lane gid s = (s', result)"
  obtains (none) "rxWindows s lane = None" "result = no_result" "emitDedupe s' = emitDedupe s" "rxWindows s' = rxWindows s"
      "rclosed s' = rclosed s" "sessionID s' = sessionID s"
  | (some) w w' where "rxWindows s lane = Some w" "expireGroup (trees D) w gid = (w', result)" "emitDedupe s' = emitDedupe s"
      "rxWindows s' = (rxWindows s)(lane \<mapsto> w')" "rclosed s' = rclosed s" "sessionID s' = sessionID s"
proof (cases "rxWindows s lane")
  case None
  then show ?thesis using assms by (intro none) (auto simp: expireSection_def)
next
  case (Some w)
  then show ?thesis using assms
    by (cases "expireGroup (trees D) w gid") (intro some [of w], auto simp: expireSection_def recv_frame)
qed

lemma dataSection_logs:
  assumes "dataSection D v k lane gid index packet s = Some (s', res)"
  shows "logs D p s [Marked p lane (laneDataID gid index) (res \<noteq> None)] s'" "rclosed s' = rclosed s" "sessionID s' = sessionID s"
proof -
  have "logs D p (fst (windowFor D lane s)) [Marked p lane (laneDataID gid index) (res \<noteq> None)] s'
      \<and> rclosed s' = rclosed s \<and> sessionID s' = sessionID s"
    using assms
  proof (cases rule: dataSection_cases)
    case (duplicate s1)
    have "logs D p (fst (windowFor D lane s)) [Marked p lane (laneDataID gid index) (res \<noteq> None)] s1"
      using markEmit_logs [OF duplicate(1), of p] by (simp add: duplicate(2))
    then show ?thesis using duplicate markEmit_frame [of D lane "laneDataID gid index" "fst (windowFor D lane s)"]
      by (simp add: recv_frame cong: logs_cong)
  next
    case (fresh s1)
    have "logs D p (fst (windowFor D lane s)) [Marked p lane (laneDataID gid index) (res \<noteq> None)] s1"
      using markEmit_logs [OF fresh(1), of p] by (simp add: fresh(3))
    then show ?thesis using fresh markEmit_frame [of D lane "laneDataID gid index" "fst (windowFor D lane s)"]
      by (simp add: recv_frame cong: logs_cong)
  qed
  then show "logs D p s [Marked p lane (laneDataID gid index) (res \<noteq> None)] s'" "rclosed s' = rclosed s" "sessionID s' = sessionID s"
    by (simp_all add: windowFor_frame cong: logs_cong)
qed

lemma put_simps [simp]:
  "length (rstates (putState p s rv)) = length (rstates rv)" "states (putState p s rv) = states rv"
  "smanager (putState p s rv) = smanager rv" "handler (putState p s rv) = handler rv"
  "onQoS (putState p s rv) = onQoS rv" "rcodecs (putState p s rv) = rcodecs rv"
  "p < length (rstates rv) \<Longrightarrow> rstates (putState p s rv) ! p = s"
  "q \<noteq> p \<Longrightarrow> rstates (putState p s rv) ! q = rstates rv ! q"
  "putState p s (putState p s' rv) = putState p s rv"
  by (simp_all add: putState_def)

text \<open>Either \<open>maybeRecover\<close> does nothing, or it is \<open>recoverPackets\<close> followed by the sends.\<close>

lemma maybeRecover_cases:
  assumes "maybeRecover D v n lane p r rv = Some (rv', lg, e)"
  obtains "rv' = rv" "lg = []" "e = None"
  | co s lg1 packets where "recvCodecFor (sourceSpan (rec_group r)) (int (countMissing (missingMask r) (sourceSpan (rec_group r)))) rv = Some co"
      "recoverPackets D (now v) p lane r co (rstates rv ! p) = Some (s, lg1, packets)"
      "rv' = putState p s rv" "lg = lg1 @ map (\<lambda>(i, b). Emit p lane i b) (take n packets)"
      "e = (if n < length packets then Some RecvContext else None)"
proof (cases "recvCodecFor (sourceSpan (rec_group r)) (int (countMissing (missingMask r) (sourceSpan (rec_group r)))) rv")
  case None
  then show ?thesis using assms that(1) by (simp add: maybeRecover_def Let_def split: if_splits)
next
  case codec: (Some co)
  show ?thesis
  proof (cases "countMissing (missingMask r) (sourceSpan (rec_group r)) = 0")
    case True
    then show ?thesis using assms that(1) by (simp add: maybeRecover_def)
  next
    case False
    then obtain s lg1 packets where rp: "recoverPackets D (now v) p lane r co (rstates rv ! p) = Some (s, lg1, packets)"
      using assms codec by (auto simp: maybeRecover_def Let_def split: option.splits)
    have "rv' = putState p s rv \<and> lg = lg1 @ map (\<lambda>(i, b). Emit p lane i b) (take n packets)
        \<and> e = (if n < length packets then Some RecvContext else None)"
      using assms [unfolded maybeRecover_def Let_def if_not_P [OF False] codec option.case rp emitAll_def] by simp
    then show ?thesis by (intro that(2) [OF codec rp]) simp_all
  qed
qed

section \<open>The moves of a receiver\<close>

text \<open>
  Every call of the receiver is a sequence of atomic moves, one per critical section. \<open>G\<close> is a property
  of the DATA and REPAIR frames that arrive.
\<close>

definition routed :: "u64 \<Rightarrow> nat \<Rightarrow> ('g, 'c, 'b, 'q) recv \<Rightarrow> bool" where
  "routed i p rv \<longleftrightarrow> (\<exists>r. Get True (smanager rv) i = (Some r, True) \<and> states rv r = Some p)"

definition note_event :: "revent \<Rightarrow> bool" where
  "note_event e \<longleftrightarrow> (case e of Marked _ _ _ _ \<Rightarrow> False | Emit _ _ _ _ \<Rightarrow> False | _ \<Rightarrow> True)"

inductive rmove ::
  "('g, 'c, 'b, 'e, 'q) deps \<Rightarrow> (frame \<Rightarrow> bool) \<Rightarrow> ('g, 'c, 'b, 'q) recv \<Rightarrow> revent list \<Rightarrow> ('g, 'c, 'b, 'q) recv \<Rightarrow> bool"
  for D :: "('g, 'c, 'b, 'e, 'q) deps" and G :: "frame \<Rightarrow> bool" where
  create: "Get True (smanager rv) i = (Some r, True) \<Longrightarrow> states rv r = None \<Longrightarrow>
    rmove D G rv [] (rv\<lparr>states := (states rv)(r \<mapsto> length (rstates rv)), rstates := rstates rv @ [newState i]\<rparr>)"
| data: "G f \<Longrightarrow> f_body f = Some (DataBody gid index packet) \<Longrightarrow> routed (f_session f) p rv \<Longrightarrow> \<not> rclosed (rstates rv ! p) \<Longrightarrow>
    dataSection D v k (f_lane f) gid index packet (rstates rv ! p) = Some (s, res) \<Longrightarrow>
    lg = [] \<or> res \<noteq> None \<and> lg = [Emit p (f_lane f) (laneDataID gid index) packet] \<Longrightarrow>
    rmove D G rv (Marked p (f_lane f) (laneDataID gid index) (res \<noteq> None) # lg) (putState p s rv)"
| repair: "G f \<Longrightarrow> f_body f = Some (RepairBody gid rk n c symbol) \<Longrightarrow> routed (f_session f) p rv \<Longrightarrow> \<not> rclosed (rstates rv ! p) \<Longrightarrow>
    repairSection D v k (f_lane f) gid rk n c symbol (rstates rv ! p) = (s, result) \<Longrightarrow>
    rmove D G rv [] (putState p s rv)"
| expire: "p < length (rstates rv) \<Longrightarrow> \<not> rclosed (rstates rv ! p) \<Longrightarrow> expireSection D v lane gid (rstates rv ! p) = (s, result) \<Longrightarrow>
    rmove D G rv [] (putState p s rv)"
| recover: "p < length (rstates rv) \<Longrightarrow> \<not> rclosed (rstates rv ! p) \<Longrightarrow>
    recvCodecFor (sourceSpan (rec_group r)) (int (countMissing (missingMask r) (sourceSpan (rec_group r)))) rv = Some co \<Longrightarrow>
    recoverPackets D tm p lane r co (rstates rv ! p) = Some (s, lg, packets) \<Longrightarrow>
    rmove D G rv (lg @ map (\<lambda>(i, b). Emit p lane i b) (take n packets)) (putState p s rv)"
| hint: "p < length (rstates rv) \<Longrightarrow> \<not> rclosed (rstates rv ! p) \<Longrightarrow> rmove D G rv [] (putState p ((rstates rv ! p)\<lparr>rqos := q\<rparr>) rv)"
| log: "\<forall>e \<in> set lg. note_event e \<Longrightarrow> rmove D G rv lg rv"
| close: "states rv r = Some p \<Longrightarrow>
    rmove D G rv [] (putState p (closeState D (rstates rv ! p)) (rv\<lparr>states := (states rv)(r := None)\<rparr>))"
| handled: "handler rv = Some h \<Longrightarrow> rmove D G rv [] (rv\<lparr>smanager := fst (h src f (smanager rv))\<rparr>)"
| deleted: "rmove D G rv [] (rv\<lparr>smanager := Session.Delete True (smanager rv) i\<rparr>)"

inductive rmoves ::
  "('g, 'c, 'b, 'e, 'q) deps \<Rightarrow> (frame \<Rightarrow> bool) \<Rightarrow> ('g, 'c, 'b, 'q) recv \<Rightarrow> revent list \<Rightarrow> ('g, 'c, 'b, 'q) recv \<Rightarrow> bool"
  for D :: "('g, 'c, 'b, 'e, 'q) deps" and G :: "frame \<Rightarrow> bool" where
  none: "rmoves D G rv [] rv"
| more: "rmove D G rv lg rv' \<Longrightarrow> rmoves D G rv' lg' rv'' \<Longrightarrow> rmoves D G rv (lg @ lg') rv''"

lemma rmoves_one: "rmove D G rv lg rv' \<Longrightarrow> rmoves D G rv lg rv'"
  using rmoves.more [OF _ rmoves.none] by fastforce

lemma rmoves_trans: "rmoves D G rv lg rv' \<Longrightarrow> rmoves D G rv' lg' rv'' \<Longrightarrow> rmoves D G rv (lg @ lg') rv''"
  by (induction rule: rmoves.induct) (auto intro: rmoves.more)

text \<open>States are referred to by one session at most.\<close>

definition refs_ok :: "('g, 'c, 'b, 'q) recv \<Rightarrow> bool" where
  "refs_ok rv \<longleftrightarrow> (\<forall>r p. states rv r = Some p \<longrightarrow> p < length (rstates rv))
    \<and> (\<forall>r r' p. states rv r = Some p \<longrightarrow> states rv r' = Some p \<longrightarrow> r = r')"

lemma rmove_refs: "rmove D G rv lg rv' \<Longrightarrow> refs_ok rv \<Longrightarrow> refs_ok rv' \<and> length (rstates rv) \<le> length (rstates rv')"
proof (induction rule: rmove.induct)
  case (create rv i r)
  then show ?case by (fastforce simp: refs_ok_def split: if_splits)
qed (auto simp: refs_ok_def putState_def split: if_splits)

lemma rmoves_refs: "rmoves D G rv lg rv' \<Longrightarrow> refs_ok rv \<Longrightarrow> refs_ok rv' \<and> length (rstates rv) \<le> length (rstates rv')"
  by (induction rule: rmoves.induct) (auto dest: rmove_refs)

lemma routed_lt: "refs_ok rv \<Longrightarrow> routed i p rv \<Longrightarrow> p < length (rstates rv)"
  by (auto simp: refs_ok_def routed_def)

section \<open>Every call is a sequence of moves\<close>

lemma recvStateFor_moves:
  assumes ok: "refs_ok rv" and out: "recvStateFor i rv = (rv', po)"
  shows "rmoves D G rv [] rv' \<and> (\<forall>p. po = Some p \<longrightarrow> routed i p rv')"
proof (cases "sessions (smanager rv) i")
  case None
  then show ?thesis using out by (simp add: recvStateFor_def lookupState_def Get_def rmoves.none)
next
  case (Some r)
  then have get: "Get True (smanager rv) i = (Some r, True)" by (simp add: Get_def)
  show ?thesis
  proof (cases "states rv r")
    case None
    then have "rv' = rv\<lparr>states := (states rv)(r \<mapsto> length (rstates rv)), rstates := rstates rv @ [newState i]\<rparr>"
      "po = Some (length (rstates rv))"
      using out get by (auto simp: recvStateFor_def lookupState_def Let_def)
    then show ?thesis using rmoves_one [OF rmove.create [OF get None]] get by (auto simp: routed_def)
  next
    case (Some p)
    then have "rv' = rv" "po = Some p" using out get by (auto simp: recvStateFor_def lookupState_def)
    then show ?thesis using get Some by (auto simp: routed_def intro: rmoves.none)
  qed
qed

lemma maybeRecover_moves:
  assumes p: "p < length (rstates rv)" and out: "maybeRecover D v n lane p r rv = Some (rv', lg, e)"
  shows "rmoves D G rv lg rv'"
  using out
proof (cases rule: maybeRecover_cases)
  case 1
  then show ?thesis by (simp add: rmoves.none)
next
  case (2 co s lg1 packets)
  show ?thesis
  proof (cases "rclosed (rstates rv ! p)")
    case True
    then have "rv' = rv" "lg = []" using 2 by (auto simp: recoverPackets_def putState_def)
    then show ?thesis by (simp add: rmoves.none)
  next
    case False
    then show ?thesis using rmoves_one [OF rmove.recover [OF p False 2(1,2)]] 2(3,4) by simp
  qed
qed

lemma recoverFirst_moves:
  "p < length (rstates rv) \<Longrightarrow> recoverFirst D v n lane p result rv = Some (rv', lg, e) \<Longrightarrow> rmoves D G rv lg rv'"
  by (cases "recoverable result") (auto simp: recoverFirst_def rmoves.none intro: maybeRecover_moves)

lemma handleDATA_moves:
  assumes ok: "refs_ok rv" and G: "G f" and out: "handleDATA D v from f rv = Some (rv', lg, e, consumed)"
  shows "rmoves D G rv lg rv'"
proof (cases "\<exists>gid index packet. f_body f = Some (DataBody gid index packet)")
  case False
  then have "rv' = rv \<and> lg = []" using out by (auto simp: handleDATA_def split: option.splits body.splits)
  then show ?thesis by (simp add: rmoves.none)
next
  case True
  then obtain gid index packet where body: "f_body f = Some (DataBody gid index packet)" by blast
  obtain rv1 po where st: "recvStateFor (f_session f) rv = (rv1, po)" by fastforce
  have st_moves: "rmoves D G rv [] rv1" and ok1: "refs_ok rv1"
    using recvStateFor_moves [OF ok st] rmoves_refs [of D G rv "[]" rv1] ok by auto
  have "rmoves D G rv1 lg rv'"
  proof (cases "po = None \<or> rclosed (rstates rv1 ! the po)")
    case True
    then have "rv' = rv1 \<and> lg = []" using out body st by (auto simp: handleDATA_def split: option.splits)
    then show ?thesis by (simp add: rmoves.none)
  next
    case False
    then obtain p where p: "po = Some p" "\<not> rclosed (rstates rv1 ! p)" by auto
    then have route: "routed (f_session f) p rv1" using recvStateFor_moves [OF ok st] by blast
    let ?id = "laneDataID gid index" and ?lane = "f_lane f"
    obtain s res where sec: "dataSection D v (Kind from) ?lane gid index packet (rstates rv1 ! p) = Some (s, res)"
      using out body st p by (auto simp: handleDATA_def Let_def split: option.splits)
    note move = rmoves_one [OF rmove.data [of G, OF G body route p(2) sec]]
    show ?thesis
    proof (cases "res = None \<or> room v = 0")
      case True
      then have "rv' = putState p s rv1 \<and> lg = [Marked p ?lane ?id (res \<noteq> None)]"
        using out [unfolded handleDATA_def body option.case body.case st prod.case p(1) if_not_P [OF p(2)] Let_def sec]
        by (auto split: option.splits)
      then show ?thesis using move [of "[]"] by simp
    next
      case False
      then obtain result where res: "res = Some result" by auto
      have room: "room v \<noteq> 0" using False by simp
      obtain lg1 e1 where rf: "recoverFirst D v (room v - 1) ?lane p result (putState p s rv1) = Some (rv', lg1, e1)"
          and lg: "lg = [Marked p ?lane ?id True, Emit p ?lane ?id packet] @ lg1"
        using out [unfolded handleDATA_def body option.case body.case st prod.case p(1) if_not_P [OF p(2)] Let_def sec res if_not_P [OF room]]
        by (auto split: option.splits)
      have "rmoves D G (putState p s rv1) lg1 rv'"
        by (rule recoverFirst_moves [OF _ rf]) (use routed_lt [OF ok1 route] in simp)
      from rmoves_trans [OF move [of "[Emit p ?lane ?id packet]"] this] show ?thesis by (simp add: lg res)
    qed
  qed
  then show ?thesis using rmoves_trans [OF st_moves] by fastforce
qed

lemma handleREPAIR_moves:
  assumes ok: "refs_ok rv" and G: "G f" and out: "handleREPAIR D v from f rv = Some (rv', lg, e)"
  shows "rmoves D G rv lg rv'"
proof (cases "\<exists>gid k n c symbol. f_body f = Some (RepairBody gid k n c symbol) \<and> \<not> (n = 0 \<or> n > 4)")
  case False
  then have "rv' = rv \<and> lg = []" using out by (auto simp: handleREPAIR_def split: option.splits body.splits if_splits)
  then show ?thesis by (simp add: rmoves.none)
next
  case True
  then obtain gid k n c symbol where body: "f_body f = Some (RepairBody gid k n c symbol)" and n: "\<not> (n = 0 \<or> n > 4)" by blast
  obtain rv1 po where st: "recvStateFor (f_session f) rv = (rv1, po)" by fastforce
  have st_moves: "rmoves D G rv [] rv1" and ok1: "refs_ok rv1"
    using recvStateFor_moves [OF ok st] rmoves_refs [of D G rv "[]" rv1] ok by auto
  note out = out [unfolded handleREPAIR_def body option.case body.case if_not_P [OF n] st prod.case]
  have "rmoves D G rv1 lg rv'"
  proof (cases "po = None \<or> rclosed (rstates rv1 ! the po)")
    case True
    then have "rv' = rv1 \<and> lg = []" using out by (auto split: option.splits)
    then show ?thesis by (simp add: rmoves.none)
  next
    case False
    then obtain p where p: "po = Some p" "\<not> rclosed (rstates rv1 ! p)" by auto
    then have route: "routed (f_session f) p rv1" using recvStateFor_moves [OF ok st] by blast
    obtain s result where sec: "repairSection D v (Kind from) (f_lane f) gid k n c symbol (rstates rv1 ! p) = (s, result)" by fastforce
    have rf: "recoverFirst D v (room v) (f_lane f) p result (putState p s rv1) = Some (rv', lg, e)"
      using out [unfolded p(1) option.case if_not_P [OF p(2)] sec prod.case] .
    have "rmoves D G (putState p s rv1) lg rv'"
      by (rule recoverFirst_moves [OF _ rf]) (use routed_lt [OF ok1 route] in simp)
    then show ?thesis using rmoves_trans [OF rmoves_one [OF rmove.repair [of G, OF G body route p(2) sec]]] by fastforce
  qed
  then show ?thesis using rmoves_trans [OF st_moves] by fastforce
qed

lemma expireFECGroup_moves:
  assumes p: "p < length (rstates rv)" and out: "expireFECGroup D v p lane gid t rv = Some (rv', lg)"
  shows "rmoves D G rv lg rv'"
proof (cases "rclosed (rstates rv ! p) \<or> fecTimers (rstates rv ! p) (lane, gid) \<noteq> Some t")
  case True
  then have "rv' = rv \<and> lg = []" using out by (auto simp: expireFECGroup_def)
  then show ?thesis by (simp add: rmoves.none)
next
  case False
  obtain s result where sec: "expireSection D v lane gid (rstates rv ! p) = (s, result)" by fastforce
  obtain e where rf: "recoverFirst D v 4 lane p result (putState p s rv) = Some (rv', lg, e)"
    using out [unfolded expireFECGroup_def Let_def if_not_P [OF False] sec prod.case] by auto
  have "rmoves D G (putState p s rv) lg rv'"
    by (rule recoverFirst_moves [OF _ rf]) (use p in simp)
  then show ?thesis using rmoves_trans [OF rmoves_one [OF rmove.expire [OF p _ sec]]] False by fastforce
qed

lemma closeRecvState_moves: "rmoves D G rv [] (closeRecvState D i session rv)"
proof -
  obtain m so where m: "(case session of None \<Rightarrow> (case GetOrDelete True (smanager rv) i of (m, r, ok) \<Rightarrow> (m, r))
       | Some r \<Rightarrow> (Session.Delete True (smanager rv) i, Some r)) = (m, so)" by fastforce
  then have "m = Session.Delete True (smanager rv) i"
    by (auto simp: GetOrDelete_def Session.Delete_def fun_upd_idem split: option.splits)
  then have man: "rmoves D G rv [] (rv\<lparr>smanager := m\<rparr>)" using rmoves_one [OF rmove.deleted] by simp
  let ?rv = "rv\<lparr>smanager := m\<rparr>"
  have "rmoves D G ?rv [] (closeRecvState D i session rv)"
  proof (cases "so = None \<or> states rv (the so) = None")
    case True
    then have "closeRecvState D i session rv = ?rv"
      unfolding closeRecvState_def m prod.case Let_def by (auto simp: fun_upd_idem split: option.splits)
    then show ?thesis by (simp add: rmoves.none)
  next
    case False
    then obtain r p where r: "so = Some r" "states rv r = Some p" by auto
    then show ?thesis using rmoves_one [OF rmove.close [of ?rv r p D G]]
      unfolding closeRecvState_def m prod.case Let_def by simp
  qed
  from rmoves_trans [OF man this] show ?thesis by simp
qed

lemma observeBandwidthProbe_moves:
  assumes ok: "refs_ok rv" and out: "observeBandwidthProbe D i lane ob rv = (rv', lg)"
  shows "rmoves D G rv lg rv'"
proof (cases "knownQoSTransport (bo_Primary ob)")
  case False
  then show ?thesis using out by (simp add: observeBandwidthProbe_def rmoves.none)
next
  case True
  obtain rv1 po where st: "recvStateFor i rv = (rv1, po)" by fastforce
  have st_moves: "rmoves D G rv [] rv1" and ok1: "refs_ok rv1"
    using recvStateFor_moves [OF ok st] rmoves_refs [of D G rv "[]" rv1] ok by auto
  show ?thesis
  proof (cases "po = None \<or> rclosed (rstates rv1 ! the po)")
    case True
    then have "rv' = rv1 \<and> lg = []"
      using out \<open>knownQoSTransport _\<close> st by (auto simp: observeBandwidthProbe_def split: option.splits)
    then show ?thesis using st_moves by simp
  next
    case False
    then obtain p where p: "po = Some p" "\<not> rclosed (rstates rv1 ! p)" by auto
    then have lt: "p < length (rstates rv1)" using recvStateFor_moves [OF ok st] routed_lt [OF ok1] by blast
    obtain s q where q: "qosFor D lane (rstates rv1 ! p) = (s, q)" by fastforce
    obtain q' xs where h: "q_hint (est D) ob q = (q', xs)" by fastforce
    have res: "rv' = putState p (s\<lparr>rqos := (rqos s)(lane \<mapsto> q')\<rparr>) rv1" "lg = reportQoS (onQoS rv1) i lane xs"
      using out [unfolded observeBandwidthProbe_def] \<open>knownQoSTransport _\<close> st p q h by simp_all
    have "s\<lparr>rqos := (rqos s)(lane \<mapsto> q')\<rparr> = (rstates rv1 ! p)\<lparr>rqos := (rqos s)(lane \<mapsto> q')\<rparr>"
      using q by (auto simp: qosFor_def Let_def split: option.splits)
    then have move: "rmoves D G rv1 [] rv'" unfolding res using rmoves_one [OF rmove.hint [OF lt p(2)]] by metis
    have "\<forall>e \<in> set (reportQoS h i lane xs). note_event e" for h
      by (induction h i lane xs rule: reportQoS.induct) (auto simp: note_event_def Let_def)
    then have "rmoves D G rv' lg rv'" unfolding res by (intro rmoves_one rmove.log) blast
    from rmoves_trans [OF st_moves rmoves_trans [OF move this]] show ?thesis by simp
  qed
qed

lemma handleControl_moves:
  assumes ok: "refs_ok rv" and out: "handleControl D from f rv = (rv', lg, e)"
  shows "rmoves D G rv lg rv'"
proof (cases "handler rv")
  case None
  then show ?thesis using assms by (auto simp: handleControl_def rmoves.none split: if_splits)
next
  case (Some h)
  obtain m res where h: "h from f (smanager rv) = (m, res)" by fastforce
  have ok1: "refs_ok (rv\<lparr>smanager := m\<rparr>)" using ok by (simp add: refs_ok_def)
  have "rmove D G rv [] (rv\<lparr>smanager := m\<rparr>)" using rmove.handled [OF Some, of D G "from" f] h by simp
  then have man: "rmoves D G rv [Control f] (rv\<lparr>smanager := m\<rparr>)"
    using rmoves_trans [OF rmoves_one rmoves_one [OF rmove.log [of "[Control f]"]]] by (fastforce simp: note_event_def)
  have "rv' = rv \<and> lg = [] \<or> rv' = rv\<lparr>smanager := m\<rparr> \<and> lg = [Control f]
    \<or> (\<exists>ob lg1. observeBandwidthProbe D (f_session f) (f_lane f) ob (rv\<lparr>smanager := m\<rparr>) = (rv', lg1) \<and> lg = Control f # lg1)"
    using out [unfolded handleControl_def Some option.case h prod.case Let_def]
    by (auto split: if_splits sum.splits prod.splits)
  then show ?thesis
    using man rmoves_trans [OF man observeBandwidthProbe_moves [OF ok1]] by (auto intro: rmoves.none)
qed

lemma handleCLOSE_moves:
  assumes out: "handleCLOSE D from f rv = (rv', lg, e)"
  shows "rmoves D G rv lg rv'"
proof (cases "\<exists>scope reason. f_body f = Some (CloseBody scope reason)")
  case False
  then have "rv' = rv \<and> lg = []" using out by (auto simp: handleCLOSE_def split: option.splits body.splits)
  then show ?thesis by (simp add: rmoves.none)
next
  case True
  then obtain scope reason where body: "f_body f = Some (CloseBody scope reason)" by blast
  obtain rv1 lg1 e1 where h: "(case handler rv of None \<Rightarrow> (rv, [], None)
      | Some h \<Rightarrow> (case h from f (smanager rv) of (m, res) \<Rightarrow>
           (rv\<lparr>smanager := m\<rparr>, [Control f], (case res of Inl e \<Rightarrow> Some (RecvHandler e) | Inr _ \<Rightarrow> None)))) = (rv1, lg1, e1)"
    by (metis prod_cases3)
  have 1: "rmoves D G rv lg1 rv1"
  proof (cases "handler rv")
    case None
    then show ?thesis using h by (auto intro: rmoves.none)
  next
    case (Some hh)
    then have "rv1 = rv\<lparr>smanager := fst (hh from f (smanager rv))\<rparr>" "lg1 = [Control f]"
      using h by (auto split: prod.splits)
    then show ?thesis
      using rmoves_trans [OF rmoves_one [OF rmove.handled [OF Some]] rmoves_one [OF rmove.log [of "[Control f]"]]]
      by (fastforce simp: note_event_def)
  qed
  have "lg = lg1 \<and> (rv' = rv1 \<or> (\<exists>session. rv' = closeRecvState D (f_session f) session rv1))"
    using out [unfolded handleCLOSE_def body option.case body.case Let_def h prod.case] by (auto split: if_splits)
  then show ?thesis using 1 rmoves_trans [OF 1 closeRecvState_moves] by auto
qed

text \<open>The frames that arrive in a run.\<close>

definition arrives :: "rx_op \<Rightarrow> frame \<Rightarrow> bool" where
  "arrives x f \<longleftrightarrow> (case x of Arrive v src payload \<Rightarrow> decode payload = Inr f | _ \<Rightarrow> False)"

lemma rx_step_moves:
  assumes ok: "refs_ok rv" and G: "\<And>f. arrives x f \<Longrightarrow> G f" and out: "rx_step D x rv = Some (rv', lg)"
  shows "rmoves D G rv lg rv'"
proof (cases x)
  case (Fire v p lane gid t)
  then show ?thesis using out expireFECGroup_moves by (auto simp: rmoves.none split: if_splits)
next
  case (Arrive v src payload)
  obtain e n where w: "recvWriteTo D v src payload rv = Some (rv', lg, e, n)" using out Arrive by auto
  show ?thesis
  proof (cases "decode payload")
    case (Inl e)
    then show ?thesis using w by (simp add: recvWriteTo_def rmoves.none)
  next
    case (Inr f)
    then have "G f" using G Arrive by (simp add: arrives_def)
    note w = w [unfolded recvWriteTo_def Inr sum.case]
    have "(rv' = rv \<and> lg = []) \<or> (\<exists>c. handleDATA D v src f rv = Some (rv', lg, e, c))
        \<or> handleREPAIR D v src f rv = Some (rv', lg, e) \<or> handleCLOSE D src f rv = (rv', lg, e)
        \<or> handleControl D src f rv = (rv', lg, e)"
      using w by (auto split: if_splits prod.splits)
    then show ?thesis
      using handleDATA_moves [where G = G, OF ok \<open>G f\<close>] handleREPAIR_moves [where G = G, OF ok \<open>G f\<close>] handleCLOSE_moves handleControl_moves [OF ok]
      by (auto simp: rmoves.none)
  qed
qed

lemma rx_run_moves:
  "refs_ok rv \<Longrightarrow> (\<And>x f. x \<in> set xs \<Longrightarrow> arrives x f \<Longrightarrow> G f) \<Longrightarrow> rx_run D xs rv = Some (rv', lg) \<Longrightarrow> rmoves D G rv lg rv'"
proof (induction xs arbitrary: rv lg)
  case (Cons x xs)
  obtain rv1 lg1 lg2 where x: "rx_step D x rv = Some (rv1, lg1)" "rx_run D xs rv1 = Some (rv', lg2)" "lg = lg1 @ lg2"
    using Cons.prems(3) by (auto split: option.splits prod.splits)
  have 1: "rmoves D G rv lg1 rv1" by (rule rx_step_moves [OF Cons.prems(1) _ x(1)]) (use Cons.prems(2) in auto)
  then have "refs_ok rv1" using rmoves_refs Cons.prems(1) by blast
  then have "rmoves D G rv1 lg2 rv'" by (intro Cons.IH [OF _ _ x(2)]) (use Cons.prems(2) in auto)
  from rmoves_trans [OF 1 this] show ?case by (simp add: x(3))
qed (simp add: rmoves.none)

section \<open>What the moves log\<close>

text \<open>A state that is not there yet will start as a new one.\<close>

definition stateAt :: "('g, 'c, 'b, 'q) recv \<Rightarrow> nat \<Rightarrow> ('g, 'c, 'b, 'q) recvState" where
  "stateAt rv p = (if p < length (rstates rv) then rstates rv ! p else newState 0)"

definition ext ::
  "('g, 'c, 'b, 'e, 'q) deps \<Rightarrow> ('g, 'c, 'b, 'q) recv \<Rightarrow> revent list \<Rightarrow> ('g, 'c, 'b, 'q) recv \<Rightarrow> bool" where
  "ext D rv lg rv' \<longleftrightarrow> (\<forall>p. logs D p (stateAt rv p) lg (stateAt rv' p))
    \<and> (\<forall>p l. subseq (emitted p l lg) (map fst (filter snd (marked p l lg))))"

lemma ext_trans: "ext D rv lg rv' \<Longrightarrow> ext D rv' lg' rv'' \<Longrightarrow> ext D rv (lg @ lg') rv''"
  by (auto simp: ext_def intro: logs_append list_emb_append_mono)

lemma ext_silent:
  assumes "\<And>p. emitDedupe (stateAt rv p) = emitDedupe (stateAt rv' p)" "\<And>p l. marked p l lg = [] \<and> emitted p l lg = []"
  shows "ext D rv lg rv'"
  using assms by (auto simp: ext_def intro: logs_same)

lemma ext_put:
  assumes "p < length (rstates rv)" "logs D p (rstates rv ! p) lg s"
    and "\<And>q l. q \<noteq> p \<Longrightarrow> marked q l lg = []" "\<And>q l. subseq (emitted q l lg) (map fst (filter snd (marked q l lg)))"
  shows "ext D rv lg (putState p s rv)"
proof -
  have "logs D q (stateAt rv q) lg (stateAt (putState p s rv) q)" for q
    using assms(1,2,3) by (cases "q = p") (auto simp: stateAt_def intro!: logs_same)
  then show ?thesis using assms(4) by (auto simp: ext_def)
qed

lemma emits_log:
  "marked q l (map (\<lambda>(i, b). Emit p lane i b) ps) = []"
  "emitted q l (map (\<lambda>(i, b). Emit p lane i b) ps) = (if q = p \<and> l = lane then map fst ps else [])"
  by (induction ps) auto

lemma notes_log: "\<forall>e \<in> set lg. note_event e \<Longrightarrow> marked p l lg = [] \<and> emitted p l lg = []"
proof (induction lg)
  case (Cons e lg)
  then show ?case by (cases e) (auto simp: note_event_def)
qed simp

lemma rmove_ext: "rmove D G rv lg rv' \<Longrightarrow> refs_ok rv \<Longrightarrow> ext D rv lg rv'"
proof (induction rule: rmove.induct)
  case (create rv i r)
  show ?case by (rule ext_silent) (auto simp: stateAt_def nth_append newState_def less_Suc_eq)
next
  case (data f gid index packet p rv v k s res lg)
  then have lt: "p < length (rstates rv)" by (simp add: routed_lt)
  have "logs D p (rstates rv ! p) (Marked p (f_lane f) (laneDataID gid index) (res \<noteq> None) # lg) s"
    by (rule logs_marked [OF dataSection_logs(1) [OF data(5)]]) (use data(6) in auto)
  then show ?case by (rule ext_put [OF lt]) (use data(6) in auto)
next
  case (repair f gid rk n c symbol p rv v k s result)
  then have lt: "p < length (rstates rv)" by (simp add: routed_lt)
  have "emitDedupe s = emitDedupe (rstates rv ! p)" using repair(5) by (cases rule: repairSection_cases)
  then show ?case by (intro ext_put lt) (auto intro: logs_same)
next
  case (expire p rv v lane gid s result)
  have "emitDedupe s = emitDedupe (rstates rv ! p)" using expire(3) by (cases rule: expireSection_cases) auto
  then show ?case by (intro ext_put expire) (auto intro: logs_same)
next
  case (recover p rv r co tm lane s lg packets n)
  note rp = recoverPackets_logs [OF recover(4)]
  have "subseq (emitted q l (lg @ map (\<lambda>(i, b). Emit p lane i b) (take n packets)))
      (map fst (filter snd (marked q l (lg @ map (\<lambda>(i, b). Emit p lane i b) (take n packets)))))" for q l
  proof (cases "q = p \<and> l = lane")
    case True
    have "prefix (map fst (take n packets)) (map fst packets)" by (simp add: take_is_prefix map_mono_prefix)
    then have "subseq (map fst (take n packets)) (map fst (filter snd (marked p lane lg)))"
      using rp(6) by (meson prefix_imp_subseq prefix_order.trans)
    then show ?thesis using True rp(4) by (simp add: emits_log)
  qed (use rp(4,5) in \<open>auto simp: emits_log\<close>)
  then show ?case
    by (intro ext_put recover) (use rp(1,5) in \<open>auto simp: logs_def emits_log\<close>)
next
  case (hint p rv q)
  then show ?case by (intro ext_put) (auto intro: logs_same)
next
  case (log lg rv)
  then show ?case by (intro ext_silent) (auto simp: notes_log)
next
  case (close rv r p)
  then have lt: "p < length (rstates rv)" by (auto simp: refs_ok_def)
  show ?case by (rule ext_silent) (use lt in \<open>auto simp: stateAt_def putState_def closeState_def nth_list_update\<close>)
qed (auto intro!: ext_silent simp: stateAt_def)

lemma rmoves_ext: "rmoves D G rv lg rv' \<Longrightarrow> refs_ok rv \<Longrightarrow> ext D rv lg rv'"
proof (induction rule: rmoves.induct)
  case (more rv lg rv' lg' rv'')
  then show ?case using ext_trans rmove_ext rmove_refs by blast
qed (auto intro: ext_silent)

lemma newRecv_ok: "refs_ok (newRecv h m q)"
  by (simp add: refs_ok_def newRecv_def)

lemma stateAt_new: "stateAt (newRecv h m q) p = newState 0"
  by (simp add: stateAt_def newRecv_def)

text \<open>From the start of the receiver, every identity window is the fold of \<open>mark\<close> over its log.\<close>

lemma run_marks:
  assumes "rx_run D xs (newRecv h m q) = Some (rv, lg)"
  shows "snd (marks (bits D) (newDataIDDedupe (bits D) 0) (map fst (marked p lane lg))) = map snd (marked p lane lg)"
    and "subseq (emitted p lane lg) (map fst (filter snd (marked p lane lg)))"
  using rmoves_ext [OF rx_run_moves [where G = "\<lambda>_. True", OF newRecv_ok TrueI assms] newRecv_ok]
  by (simp_all add: ext_def logs_def stateAt_new dedupeOf_def newState_def)

lemma first_occurrences_distinct:
  assumes "length rs = length ns" "\<forall>k < length ns. rs ! k \<longrightarrow> ns ! k \<notin> set (take k ns)"
  shows "distinct (map fst (filter snd (zip ns rs)))"
proof -
  have "zip ns rs = map (\<lambda>k. (ns ! k, rs ! k)) [0..<length ns]"
    using assms(1) by (intro nth_equalityI) auto
  then have eq: "map fst (filter snd (zip ns rs)) = map ((!) ns) (filter ((!) rs) [0..<length ns])"
    by (simp add: filter_map comp_def)
  have "ns ! i \<noteq> ns ! j" if "i < j" "j < length ns" "rs ! j" for i j
  proof -
    have "ns ! i \<in> set (take j ns)" using that by (auto simp: in_set_conv_nth)
    then show ?thesis using assms(2) that by auto
  qed
  then have "inj_on ((!) ns) (set (filter ((!) rs) [0..<length ns]))"
    by (auto simp: inj_on_def) (metis linorder_neqE_nat)
  then show ?thesis by (simp add: eq distinct_map)
qed

lemma subseq_map_inverse: "subseq xs (map f ys) \<Longrightarrow> \<exists>zs. subseq zs ys \<and> xs = map f zs"
  by (auto simp: subseq_conv_nths nths_map)

section \<open>Properties\<close>

text \<open> C33: Exactly-once emission. In any run of the receiver from its start, over any arriving bytes
  and timers, take the identities a session state decides on for one lane, as the unwrapped counters of
  the sender, each within half the 32-bit range of the newest. The decision is fresh exactly for an
  identity not seen before and less than 65536 behind the newest, and what is emitted on the lane,
  recovered packets included, is a subsequence of the fresh identities without a repetition. \<close>

theorem recv_exactly_once:
  assumes "bitset_laws (bits D)"
    and "rx_run D xs (newRecv h m q) = Some (rv, lg)"
    and "map fst (marked p lane lg) = map word_of_int ns"
    and "\<forall>k < length ns. near 65536 (set (take k ns)) (ns ! k)"
  shows "(\<forall>k < length ns. snd (marked p lane lg ! k) \<longleftrightarrow>
      ns ! k \<notin> set (take k ns) \<and> (\<forall>i \<in> set (take k ns). i - 65536 < ns ! k))
    \<and> (\<exists>es. emitted p lane lg = map word_of_int es \<and> subseq es ns \<and> distinct es)"
proof -
  let ?rs = "map snd (marked p lane lg)"
  obtain d where marks: "marks (bits D) (newDataIDDedupe (bits D) 0) (map word_of_int ns) = (d, ?rs)"
    using run_marks(1) [OF assms(2), of p lane] assms(3) by (metis prod.collapse)
  have span: "dataIDDedupe.span (newDataIDDedupe (bits D) 0) = 65536" by (simp add: newDataIDDedupe_def Let_def)
  have once: "length ?rs = length ns \<and> (\<forall>k < length ns. ?rs ! k \<longleftrightarrow>
      ns ! k \<notin> set (take k ns) \<and> (\<forall>i \<in> set (take k ns). i - 65536 < ns ! k))"
    using bitset_laws.marks_tracks [OF assms(1) new_tracks [OF assms(1)], of 0 ns] assms(4) marks
    by (auto simp: span dvd_def)
  have "marked p lane lg = zip (map word_of_int ns) ?rs"
    unfolding assms(3) [symmetric] by (rule zip_map_fst_snd [symmetric])
  then have "map fst (filter snd (marked p lane lg)) = map fst (filter snd (zip (map word_of_int ns) ?rs))" by simp
  also have "\<dots> = map word_of_int (map fst (filter snd (zip ns ?rs)))"
    by (simp add: zip_map1 filter_map comp_def case_prod_unfold)
  finally obtain es where es: "subseq es (map fst (filter snd (zip ns ?rs)))" "emitted p lane lg = map word_of_int es"
    using run_marks(2) [OF assms(2), of p lane] subseq_map_inverse by metis
  have "distinct (map fst (filter snd (zip ns ?rs)))" by (rule first_occurrences_distinct) (use once in auto)
  then have "distinct es" using es(1) by (auto simp: subseq_conv_nths intro: distinct_nthsI)
  moreover have "subseq es ns"
  proof -
    have "subseq (map fst (filter snd (zip ns ?rs))) (map fst (zip ns ?rs))" by (intro subseq_map subseq_filter_left)
    also have "map fst (zip ns ?rs) = ns" using once by simp
    finally show ?thesis using es(1) subseq_order.trans by blast
  qed
  ultimately show ?thesis using once es(2) by auto
qed

text \<open>A group arrives in a window that has room: nothing is pruned.\<close>

definition roomy :: "('g, 'c) trees \<Rightarrow> ('g, 'c) rxGroupWindow \<Rightarrow> bool" where
  "roomy F w \<longleftrightarrow> maxGroups w = 8192 \<and> maxClosed w = 32768
    \<and> t_size (gt F) (groups w) < 8192 \<and> t_size (ct F) (rxGroupWindow.closed w) \<le> 32768"

context window
begin

lemma prune_id: "roomy F w \<Longrightarrow> prune F w = (w, no_result)"
proof -
  assume r: "roomy F w"
  have "pruneClosed F n w = w" for n using r by (cases n) (simp_all add: roomy_def)
  then show ?thesis using r by (simp add: prune_def pruneGroups_id roomy_def no_result_def)
qed

end

definition unit_qos :: "unit qos_ops" where
  "unit_qos = \<lparr>q_new = (\<lambda>_ _. ()), q_original = (\<lambda>_ _ _ q. q), q_late = (\<lambda>_ _ _ _ q. q), q_recovered = (\<lambda>_ q. q),
     q_done = (\<lambda>_ _ q. q), q_repair_bytes = (\<lambda>_ _ _ q. q), q_repair_group = (\<lambda>_ _ _ q. q), q_hint = (\<lambda>_ q. (q, [])),
     q_close = (\<lambda>q. q)\<rparr>"

definition demo_deps :: "((u32, rxGroup) rbt, (u32, unit) rbt, nat, nat \<times> bytes list, unit) deps" where
  "demo_deps = \<lparr>trees = rbt_trees, bits = nat_bitset, gal = gf_galois, reeds = gf_rs, est = unit_qos\<rparr>"

definition demo_store :: store where
  "demo_store = \<lparr>heap = [newSession 7], sessions = [7 \<mapsto> 0]\<rparr>"

definition demo_env :: env where
  "demo_env = \<lparr>now = 0, running = (\<lambda>_. True), room = 5\<rparr>"

text \<open>A DATA frame of session 7, lane 1, group 0, index 0, with a one-byte packet.\<close>

definition demo_data :: bytes where
  "demo_data = [37, 0, 0, 0, 0, 0, 0, 0, 7, 1, 0, 0, 0, 0, 96]"

lemma demo_decode: "decode demo_data = Inr \<lparr>f_version = 2, f_type = 5, f_session = 7, f_lane = 1, f_body = Some (DataBody 0 0 [96])\<rparr>"
  by code_simp

lemma demo_data:
  "\<exists>rv. rx_run demo_deps [Arrive demo_env noRef demo_data, Arrive demo_env noRef demo_data] (newRecv None demo_store None)
    = Some (rv, [Marked 0 1 0 True, Emit 0 1 0 [96], Marked 0 1 0 False]) \<and> routed 7 0 rv \<and> smanager rv = demo_store"
proof -
  let ?F = "rbt_trees"
  let ?g = "(newGroup 0 0)\<lparr>data := [Some [96], None, None, None]\<rparr>"
  let ?w = "putGroup ?F 0 ?g (putGroup ?F 0 (newGroup 0 0) (newRxGroupWindow ?F))"
  have get: "t_get (gt ?F) (groups ?w) = [0 \<mapsto> ?g]" "t_get (ct ?F) (rxGroupWindow.closed ?w) = Map.empty"
    by (simp_all add: putGroup_def newRxGroupWindow_def)
  have "roomy ?F ?w"
    unfolding roomy_def rxw.g.size_card rxw.c.size_card get by (simp add: putGroup_def newRxGroupWindow_def)
  then have add: "addData ?F (newRxGroupWindow ?F) 0 0 [96] = Some (?w, no_result, True)"
    by (simp add: addData_def addDataTo_def andPrune_def rxw.prune_id newGroup_def newRxGroupWindow_def add_result_def no_result_def
      numeral_eq_Suc)
  define d where "d = newDataIDDedupe nat_bitset 0"
  have d: "tracks nat_bitset d {}" "dataIDDedupe.span d = 65536"
    using new_tracks [of nat_bitset 0] nat_bits.bitset_laws_axioms by (simp_all add: d_def newDataIDDedupe_def Let_def)
  obtain d1 where d1: "mark nat_bitset d 0 = (d1, True)" "tracks nat_bitset d1 {0}" "dataIDDedupe.span d1 = 65536"
    using nat_bits.mark_tracks_first [OF d(1), of 0] d(2) by (auto simp: dvd_def)
  obtain d2 where d2: "mark nat_bitset d1 0 = (d2, False)"
    using nat_bits.mark_tracks_next [OF d1(2), of 0] d1(3) by (auto simp: dvd_def near_def)
  obtain s where s: "dataSection demo_deps demo_env 0 1 0 0 [96] (newState 7) = Some (s, Some no_result)"
      "\<not> rclosed s" "emitDedupe s = [1 \<mapsto> d1]"
    using d1(1) add
    by (simp add: dataSection_def windowFor_def newState_def demo_deps_def markEmit_def emitDedupeFor_def d_def laneDataID_def
      recv_frame Let_def)
  obtain s2 where s2: "dataSection demo_deps demo_env 0 1 0 0 [96] s = Some (s2, None)"
    using d2 s(3)
    by (simp add: dataSection_def demo_deps_def markEmit_def emitDedupeFor_def laneDataID_def recv_frame Let_def)
  show ?thesis
    using s s2
    by (simp add: recvWriteTo_def demo_decode handleDATA_def recvStateFor_def lookupState_def Get_def newRecv_def
      demo_store_def putState_def recoverFirst_def routed_def no_result_def noRef_def Let_def) (simp add: demo_env_def newState_def laneDataID_def)
qed

lemma recv_exactly_once_witness:
  "\<exists>rv lg. rx_run demo_deps [Arrive demo_env noRef demo_data, Arrive demo_env noRef demo_data] (newRecv None demo_store None) = Some (rv, lg)
    \<and> map snd (marked 0 1 lg) = [True, False] \<and> emitted 0 1 lg = [0]
    \<and> snd (marked 0 1 lg ! 0) \<and> \<not> snd (marked 0 1 lg ! 1)"
proof -
  let ?lg = "[Marked 0 1 0 True, Emit 0 1 0 [96], Marked 0 1 0 False]" and ?ns = "[0, 0] :: int list"
  obtain rv where run: "rx_run demo_deps [Arrive demo_env noRef demo_data, Arrive demo_env noRef demo_data] (newRecv None demo_store None)
      = Some (rv, ?lg)" using demo_data by blast
  have laws: "bitset_laws (bits demo_deps)" by (simp add: demo_deps_def nat_bits.bitset_laws_axioms)
  have near: "\<forall>k < length ?ns. near 65536 (set (take k ?ns)) (?ns ! k)"
    by (auto simp: near_def less_Suc_eq)
  have "\<forall>k < length ?ns. snd (marked 0 1 ?lg ! k) \<longleftrightarrow>
      ?ns ! k \<notin> set (take k ?ns) \<and> (\<forall>i \<in> set (take k ?ns). i - 65536 < ?ns ! k)"
    by (rule conjunct1 [OF recv_exactly_once [OF laws run _ near]]) simp
  then have "snd (marked 0 1 ?lg ! 0)" "\<not> snd (marked 0 1 ?lg ! 1)" by (auto simp: numeral_2_eq_2 All_less_Suc)
  then show ?thesis using run by simp
qed


section \<open>Closed sessions\<close>

text \<open>A closed state that no session refers to.\<close>

definition dead :: "('g, 'c, 'b, 'q) recv \<Rightarrow> nat \<Rightarrow> bool" where
  "dead rv p \<longleftrightarrow> p < length (rstates rv) \<and> rclosed (rstates rv ! p) \<and> p \<notin> ran (states rv)"

lemma rmove_dead:
  "rmove D G rv lg rv' \<Longrightarrow> refs_ok rv \<Longrightarrow> dead rv p \<Longrightarrow>
    dead rv' p \<and> rstates rv' ! p = rstates rv ! p \<and> marked p l lg = [] \<and> emitted p l lg = []"
proof (induction rule: rmove.induct)
  case (create rv i r)
  then show ?case by (auto simp: dead_def ran_def nth_append)
next
  case (data f gid index packet q rv v k s res lg)
  then have "q \<noteq> p" by (auto simp: dead_def)
  then show ?case using data by (auto simp: dead_def)
next
  case (repair f gid rk n c symbol q rv v k s result)
  then have "q \<noteq> p" by (auto simp: dead_def)
  then show ?case using repair by (auto simp: dead_def)
next
  case (expire q rv v lane gid s result)
  then have "q \<noteq> p" by (auto simp: dead_def)
  then show ?case using expire by (auto simp: dead_def)
next
  case (recover q rv r co tm lane s lg packets n)
  then have "q \<noteq> p" by (auto simp: dead_def)
  then show ?case using recover recoverPackets_logs(4,5) [OF recover(4)] by (auto simp: dead_def emits_log)
next
  case (hint q rv x)
  then have "q \<noteq> p" by (auto simp: dead_def)
  then show ?case using hint by (auto simp: dead_def)
next
  case (log lg rv)
  then show ?case by (simp add: notes_log)
next
  case (close rv r q)
  then have "q \<noteq> p" by (auto simp: dead_def ran_def)
  then show ?case using close by (auto simp: dead_def ran_def)
qed (auto simp: dead_def)

lemma rmoves_dead:
  "rmoves D G rv lg rv' \<Longrightarrow> refs_ok rv \<Longrightarrow> dead rv p \<Longrightarrow>
    dead rv' p \<and> rstates rv' ! p = rstates rv ! p \<and> marked p l lg = [] \<and> emitted p l lg = []"
proof (induction rule: rmoves.induct)
  case (more rv lg rv' lg' rv'')
  then show ?case using rmove_dead [of D G rv lg rv' p l] rmove_refs [of D G rv lg rv'] by auto
qed simp

lemma rmoves_handler: "rmoves D G rv lg rv' \<Longrightarrow> handler rv' = handler rv"
  by (induction rule: rmoves.induct) (auto elim: rmove.cases)

text \<open> C34: Closing a session. When a CLOSE of session scope arrives for a session with state \<open>p\<close> and the
  handler accepts it, the session leaves the table, the state is closed, its FEC timers are stopped and
  its windows are empty; whatever arrives or fires afterwards, also for the same session id or from a
  timer that had already been started, leaves that state as it is and emits nothing for it. \<close>

theorem recv_close_silences:
  assumes laws: "window (trees D)"
    and run: "rx_run D xs (newRecv h m q) = Some (rv, lg0)"
    and route: "routed (f_session f) p rv"
    and frame: "decode payload = Inr f" "f_type f = TypeCLOSE" "f_body f = Some (CloseBody CloseScopeSession reason)"
    and accepts: "case h of None \<Rightarrow> True | Some hh \<Rightarrow> \<not> isl (snd (hh src f (smanager rv)))"
    and close: "rx_step D (Arrive v src payload) rv = Some (rv1, lg1)"
    and later: "rx_run D ys rv1 = Some (rv2, lg2)"
  shows "Get True (smanager rv1) (f_session f) = (None, False)
    \<and> rclosed (rstates rv2 ! p) \<and> fecTimers (rstates rv2 ! p) = Map.empty
    \<and> (\<forall>lane w. rxWindows (rstates rv2 ! p) lane = Some w \<longrightarrow> t_get (gt (trees D)) (groups w) = Map.empty)
    \<and> rstates rv2 ! p = rstates rv1 ! p \<and> marked p lane lg2 = [] \<and> emitted p lane lg2 = []"
proof -
  note moves = rx_run_moves [where G = "\<lambda>_. True", OF newRecv_ok TrueI run]
  have ok: "refs_ok rv" and hd: "handler rv = h"
    using rmoves_refs [OF moves newRecv_ok] rmoves_handler [OF moves] by (simp_all add: newRecv_def)
  obtain r where r: "Get True (smanager rv) (f_session f) = (Some r, True)" "states rv r = Some p"
    using route by (auto simp: routed_def)
  define rvh where "rvh = (case h of None \<Rightarrow> rv | Some hh \<Rightarrow> rv\<lparr>smanager := fst (hh src f (smanager rv))\<rparr>)"
  have rvh: "states rvh = states rv" "rstates rvh = rstates rv" by (simp_all add: rvh_def split: option.split)
  have "rv1 = closeRecvState D (f_session f) (Some r) rvh"
    using close accepts frame r(1) hd
    by (auto simp: recvWriteTo_def handleCLOSE_def rvh_def Let_def isl_def split: option.splits prod.splits sum.splits)
  then have rv1: "rv1 = putState p (closeState D (rstates rv ! p))
      (rvh\<lparr>smanager := Session.Delete True (smanager rvh) (f_session f), states := (states rv)(r := None)\<rparr>)"
    using r(2) by (simp add: closeRecvState_def Let_def rvh)
  have lt: "p < length (rstates rv)" using ok r(2) by (simp add: refs_ok_def)
  have dead: "dead rv1 p" using lt ok r(2) by (auto simp: dead_def rv1 rvh closeState_def refs_ok_def ran_def)
  have ok1: "refs_ok rv1"
    using rmoves_refs [OF rx_step_moves [where G = "\<lambda>_. True", OF ok TrueI close] ok] by blast
  have d: "rstates rv2 ! p = rstates rv1 ! p" "marked p lane lg2 = []" "emitted p lane lg2 = []"
    using rmoves_dead [OF rx_run_moves [where G = "\<lambda>_. True", OF ok1 TrueI later] ok1 dead] by auto
  have st: "rstates rv1 ! p = closeState D (rstates rv ! p)" using lt by (simp add: rv1 rvh)
  have "t_get (gt (trees D)) (groups w) = Map.empty" if "rxWindows (closeState D (rstates rv ! p)) lane = Some w" for lane w
    using that window.dropAll_empty [OF laws] by (auto simp: closeState_def releaseAll_def)
  moreover have "Get True (smanager rv1) (f_session f) = (None, False)"
    by (simp add: rv1 Get_def Session.Delete_def)
  ultimately show ?thesis using d by (simp add: st) (simp add: closeState_def)
qed

definition demo_close :: bytes where
  "demo_close = [39, 0, 0, 0, 0, 0, 0, 0, 7, 255, 2, 1]"

lemma demo_close_decode: "decode demo_close = Inr \<lparr>f_version = 2, f_type = 7, f_session = 7, f_lane = 255, f_body = Some (CloseBody 2 1)\<rparr>"
  by code_simp

lemma recv_close_silences_witness:
  "\<exists>rv rv1 rv2. rx_run demo_deps [Arrive demo_env noRef demo_data, Arrive demo_env noRef demo_data] (newRecv None demo_store None)
      = Some (rv, [Marked 0 1 0 True, Emit 0 1 0 [96], Marked 0 1 0 False])
    \<and> rx_step demo_deps (Arrive demo_env noRef demo_close) rv = Some (rv1, [])
    \<and> rx_run demo_deps [Arrive demo_env noRef demo_data] rv1 = Some (rv2, [])
    \<and> Get True (smanager rv1) 7 = (None, False) \<and> rclosed (rstates rv2 ! 0)"
proof -
  let ?f = "\<lparr>f_version = 2, f_type = 7, f_session = 7, f_lane = 255, f_body = Some (CloseBody 2 1)\<rparr> :: frame"
  let ?xs = "[Arrive demo_env noRef demo_data, Arrive demo_env noRef demo_data]"
  let ?lg = "[Marked 0 1 0 True, Emit 0 1 0 [96], Marked 0 1 0 False]"
  obtain rv where run: "rx_run demo_deps ?xs (newRecv None demo_store None) = Some (rv, ?lg)" and route: "routed (f_session ?f) 0 rv"
    using demo_data by auto
  obtain rv1 where close: "rx_step demo_deps (Arrive demo_env noRef demo_close) rv = Some (rv1, [])"
    using run rmoves_handler [OF rx_run_moves [where G = "\<lambda>_. True", OF newRecv_ok TrueI run]]
    by (simp add: recvWriteTo_def demo_close_decode handleCLOSE_def Let_def newRecv_def)
  have laws: "window (trees demo_deps)" by (simp add: demo_deps_def rxw.window_axioms)
  note c = recv_close_silences [OF laws run route demo_close_decode _ _ _ close]
  have "Get True (smanager rv1) 7 = (None, False)"
    using c [of 1 "[]" rv1 "[]"] by simp
  then have "rx_run demo_deps [Arrive demo_env noRef demo_data] rv1 = Some (rv1, [])"
    by (simp add: recvWriteTo_def demo_decode handleDATA_def recvStateFor_def lookupState_def)
  then show ?thesis using run close c [of 1 "[Arrive demo_env noRef demo_data]" rv1 "[]"] by auto
qed

section \<open>Windows stay sound\<close>

context window
begin

lemma good_sound: "sound F w \<Longrightarrow> good w i w' out \<Longrightarrow> sound F w'"
  by (auto simp: good_def sound_def window_inv_but)

lemma sound_inv: "sound F w \<Longrightarrow> inv_but {} w"
  by (simp add: sound_def window_inv_but)

lemma addData_sound: "sound F w \<Longrightarrow> addData F w i j p = Some (w', out, acc) \<Longrightarrow> sound F w'"
  using addData_good [OF sound_inv] good_sound by blast

lemma addRepair_sound: "sound F w \<Longrightarrow> addRepair F w i k n y = (w', out, acc) \<Longrightarrow> sound F w'"
  using addRepair_good [OF sound_inv] good_sound by blast

lemma finishRecovery_sound: "sound F w \<Longrightarrow> finishRecovery F w r b m = (w', out) \<Longrightarrow> sound F w'"
  using finishRecovery_good(1) [OF sound_inv] good_sound by blast

lemma expireGroup_sound: "sound F w \<Longrightarrow> expireGroup F w i = (w', out) \<Longrightarrow> sound F w'"
  using expireGroup_good(1) [OF sound_inv] good_sound by blast

lemma releaseAll_sound: "sound F w \<Longrightarrow> sound F (releaseAll F w)"
  using releaseAll_inv [of w] by (simp add: sound_def window_inv_but)

end

definition windows_ok :: "('g, 'c, 'b, 'e, 'q) deps \<Rightarrow> ('g, 'c, 'b, 'q) recvState \<Rightarrow> bool" where
  "windows_ok D s \<longleftrightarrow> (\<forall>lane w. rxWindows s lane = Some w \<longrightarrow> sound (trees D) w)"

lemma windows_ok_upd: "windows_ok D s \<Longrightarrow> sound (trees D) w \<Longrightarrow> rxWindows s' = (rxWindows s)(lane \<mapsto> w) \<Longrightarrow> windows_ok D s'"
  by (auto simp: windows_ok_def)

lemma windowFor_sound:
  assumes "window (trees D)" "windows_ok D s"
  shows "sound (trees D) (snd (windowFor D lane s))" "windows_ok D (fst (windowFor D lane s))"
proof -
  show 1: "sound (trees D) (snd (windowFor D lane s))"
    using assms window.new_sound by (auto simp: windowFor_def windows_ok_def Let_def split: option.split)
  show "windows_ok D (fst (windowFor D lane s))"
    by (rule windows_ok_upd [OF assms(2) 1]) (simp add: windowFor_frame)
qed

lemma recoverPackets_windows:
  assumes "recoverPackets D tm p lane r co s = Some (s', lg, packets)"
  shows "rxWindows s' = rxWindows s \<or> (\<exists>w b m w' out. rxWindows s lane = Some w
    \<and> finishRecovery (trees D) w r b m = (w', out) \<and> rxWindows s' = (rxWindows s)(lane \<mapsto> w'))"
proof (cases "rclosed s \<or> rxWindows s lane = None")
  case True
  then show ?thesis using assms by (cases "rclosed s") (simp_all add: recoverPackets_def)
next
  case False
  then obtain w where w: "\<not> rclosed s" "rxWindows s lane = Some w" by auto
  note out = assms [unfolded recoverPackets_def if_not_P [OF w(1)] w(2) option.case]
  show ?thesis
  proof (cases "\<exists>shards keys shards'. buildShardsLocked (trees D) w r = Some (shards, keys)
      \<and> Reconstruct (gal D) (reeds D) (Some co) shards keys = Some (Inr shards')")
    case False
    then have "s' = s" using out by (auto split: option.splits prod.splits sum.splits)
    then show ?thesis by simp
  next
    case True
    then obtain shards keys shards' where b: "buildShardsLocked (trees D) w r = Some (shards, keys)"
      "Reconstruct (gal D) (reeds D) (Some co) shards keys = Some (Inr shards')" by blast
    obtain s1 lg1 res where loop: "recoverLoop D p lane r shards' [0..<nat (sourceSpan (rec_group r))] ([], 0, 0) s = (s1, lg1, res)"
      by (metis prod_cases3)
    have s1: "rxWindows s1 = rxWindows s" using recoverLoop_logs [OF loop] by blast
    note out = out [unfolded b option.case prod.case sum.case loop]
    show ?thesis
    proof (cases res)
      case None
      then show ?thesis using out s1 by simp
    next
      case (Some x)
      obtain ps bsum m where x: "x = (ps, bsum, m)" by (cases x) auto
      obtain w' result where f: "finishRecovery (trees D) w r bsum m = (w', result)" by fastforce
      have "s' = observeGroupResult D lane result tm (setWindow lane w' s1)"
        using out [unfolded Some x option.case prod.case f] by simp
      then have "rxWindows s' = (rxWindows s)(lane \<mapsto> w')" by (simp add: recv_frame s1)
      then show ?thesis using w(2) f by blast
    qed
  qed
qed

text \<open>The receiver's states and codec table.\<close>

definition rv_ok :: "('g, 'c, 'b, 'e, 'q) deps \<Rightarrow> ('g, 'c, 'b, 'q) recv \<Rightarrow> bool" where
  "rv_ok D rv \<longleftrightarrow> (\<forall>s \<in> set (rstates rv). windows_ok D s)
    \<and> (\<forall>d r c. rcodecs rv d r = Some c \<longrightarrow> dataShards c = d \<and> repairShards c = r)"

lemma rv_ok_put: "rv_ok D rv \<Longrightarrow> windows_ok D s \<Longrightarrow> rv_ok D (putState p s rv)"
  unfolding rv_ok_def putState_def using set_update_subset_insert [of "rstates rv" p s] by auto

lemma rv_ok_nth: "rv_ok D rv \<Longrightarrow> p < length (rstates rv) \<Longrightarrow> windows_ok D (rstates rv ! p)"
  by (simp add: rv_ok_def)

lemma newRecv_windows: "rv_ok D (newRecv h m q)"
  by (auto simp: rv_ok_def newRecv_def NewCodec_def split: if_splits)

lemma rmove_windows:
  assumes laws: "window (trees D)"
  shows "rmove D G rv lg rv' \<Longrightarrow> refs_ok rv \<Longrightarrow> rv_ok D rv \<Longrightarrow> rv_ok D rv'"
proof (induction rule: rmove.induct)
  case (create rv i r)
  then show ?case by (auto simp: rv_ok_def windows_ok_def newState_def)
next
  case (data f gid index packet p rv v k s res lg)
  then have ok: "windows_ok D (rstates rv ! p)" using rv_ok_nth routed_lt by blast
  have "windows_ok D s" using data(5)
  proof (cases rule: dataSection_cases)
    case (duplicate s1)
    then show ?thesis
      using windowFor_sound(2) [OF laws ok] markEmit_frame [of D "f_lane f" "laneDataID gid index" "fst (windowFor D (f_lane f) (rstates rv ! p))"]
      by (simp add: windows_ok_def recv_frame)
  next
    case (fresh s1 w result acc)
    have "windows_ok D s1"
      using windowFor_sound(2) [OF laws ok] markEmit_frame [of D "f_lane f" "laneDataID gid index" "fst (windowFor D (f_lane f) (rstates rv ! p))"] fresh(1)
      by (simp add: windows_ok_def)
    then show ?thesis
      using windows_ok_upd window.addData_sound [OF laws _ fresh(2)] windowFor_sound(1) [OF laws] fresh(5) by blast
  qed
  then show ?case using data by (simp add: rv_ok_put)
next
  case (repair f gid rk n c symbol p rv v k s result)
  then have ok: "windows_ok D (rstates rv ! p)" using rv_ok_nth routed_lt by blast
  have "windows_ok D s" using repair(5)
    by (cases rule: repairSection_cases)
      (use ok windows_ok_upd window.addRepair_sound [OF laws] windowFor_sound(1) [OF laws] in blast)
  then show ?case using repair by (simp add: rv_ok_put)
next
  case (expire p rv v lane gid s result)
  then have ok: "windows_ok D (rstates rv ! p)" using rv_ok_nth by blast
  have "windows_ok D s" using expire(3)
  proof (cases rule: expireSection_cases)
    case none
    then show ?thesis using ok by (simp add: windows_ok_def)
  next
    case (some w w')
    then have "sound (trees D) w'" using ok window.expireGroup_sound [OF laws _ some(2)] by (simp add: windows_ok_def)
    then show ?thesis by (rule windows_ok_upd [OF ok _ some(4)])
  qed
  then show ?case using expire by (simp add: rv_ok_put)
next
  case (recover p rv r co tm lane s lg packets n)
  then have ok: "windows_ok D (rstates rv ! p)" using rv_ok_nth by blast
  from recoverPackets_windows [OF recover(4)] have "windows_ok D s"
  proof (elim disjE exE conjE)
    fix w b m w' out
    assume f: "rxWindows (rstates rv ! p) lane = Some w" "finishRecovery (trees D) w r b m = (w', out)"
      and s: "rxWindows s = (rxWindows (rstates rv ! p))(lane \<mapsto> w')"
    then have "sound (trees D) w'" using ok window.finishRecovery_sound [OF laws _ f(2)] by (simp add: windows_ok_def)
    then show ?thesis by (rule windows_ok_upd [OF ok _ s])
  qed (use ok in \<open>simp add: windows_ok_def\<close>)
  then show ?case using recover by (simp add: rv_ok_put)
next
  case (hint p rv q)
  then have "windows_ok D (rstates rv ! p)" using rv_ok_nth by blast
  then show ?case using hint by (intro rv_ok_put) (simp_all add: windows_ok_def)
next
  case (close rv r p)
  then have "p < length (rstates rv)" by (auto simp: refs_ok_def)
  then have "windows_ok D (rstates rv ! p)" using close rv_ok_nth by blast
  then have "windows_ok D (closeState D (rstates rv ! p))"
    using window.releaseAll_sound [OF laws] by (auto simp: windows_ok_def closeState_def)
  then show ?case using close by (intro rv_ok_put) (simp_all add: rv_ok_def)
qed (simp_all add: rv_ok_def)

lemma rmoves_windows:
  assumes laws: "window (trees D)"
  shows "rmoves D G rv lg rv' \<Longrightarrow> refs_ok rv \<Longrightarrow> rv_ok D rv \<Longrightarrow> rv_ok D rv'"
  by (induction rule: rmoves.induct) (auto dest: rmove_windows [OF laws] rmove_refs)

section \<open>No panic\<close>

lemma codingMatrix_None: "codingMatrix d keys = None \<Longrightarrow> \<exists>k \<in> set keys. codingCoefficients k d = None"
  by (induction keys) (auto split: option.splits)

lemma Reconstruct_None:
  "Reconstruct G R (Some c) shards keys = None \<Longrightarrow> \<exists>k. codingCoefficients k (nat (dataShards c)) = None"
  unfolding Reconstruct_def reconstructSingle_def encoder_def Let_def
  by (auto split: if_splits option.splits sum.splits prod.splits dest: codingMatrix_None)

text \<open>The search for a coefficient of some key never ends.\<close>

definition endless_search :: bool where
  "endless_search \<longleftrightarrow> (\<exists>k n. n \<le> 4 \<and> codingCoefficients k n = None)"

lemma recoverFirst_total:
  assumes ok: "rv_ok D rv" and none: "recoverFirst D v n lane p result rv = None"
  shows endless_search
proof -
  obtain r where mr: "maybeRecover D v n lane p r rv = None"
    using none by (auto simp: recoverFirst_def split: list.splits)
  let ?n = "sourceSpan (rec_group r)"
  obtain co where co: "recvCodecFor ?n (int (countMissing (missingMask r) ?n)) rv = Some co"
      and rp: "recoverPackets D (now v) p lane r co (rstates rv ! p) = None"
    using mr by (auto simp: maybeRecover_def Let_def split: if_splits option.splits prod.splits)
  have d: "nat (dataShards co) \<le> 4"
    using co ok by (auto simp: recvCodecFor_def rv_ok_def split: if_splits)
  obtain shards keys where "Reconstruct (gal D) (reeds D) (Some co) shards keys = None"
    using rp unfolding recoverPackets_def by (auto split: if_splits option.splits prod.splits sum.splits)
  from Reconstruct_None [OF this] show ?thesis using d by (auto simp: endless_search_def)
qed

lemma dataSection_total:
  assumes laws: "window (trees D)" and ok: "windows_ok D s" and i: "index < 4"
  shows "dataSection D v k lane gid index packet s \<noteq> None"
proof -
  obtain s1 b where m: "markEmit D lane (laneDataID gid index) (fst (windowFor D lane s)) = (s1, b)" by fastforce
  have "windows_ok D s1"
    using windowFor_sound(2) [OF laws ok] markEmit_frame [of D lane "laneDataID gid index" "fst (windowFor D lane s)"] m
    by (simp add: windows_ok_def)
  then have "addData (trees D) (snd (windowFor D lane s1)) gid index packet \<noteq> None"
    by (intro window.addData_total laws i window.sound_inv windowFor_sound(1))
  then show ?thesis using m by (cases b) (auto simp: dataSection_def Let_def)
qed


lemma decode_index:
  assumes "decode payload = Inr f" "f_body f = Some (DataBody gid index packet)" shows "index < 4"
proof -
  have "decodeBody (f_type f) (drop 10 payload) = Inr (DataBody gid index packet)"
    using assms by (auto simp: decode_def Let_def split: if_splits sum.splits)
  from decodeBody_fits(1) [OF this] have "(ucast index :: u32) \<le> 3" by simp
  moreover have "unat (ucast index :: u32) = unat index"
    using unsigned_less [of index, where ?'a = nat] by (simp add: unsigned_ucast_eq take_bit_nat_eq_self)
  ultimately have "unat index \<le> 3" by (simp add: word_le_nat_alt)
  then show ?thesis by (simp add: word_less_nat_alt)
qed

lemma rx_step_total:
  assumes laws: "window (trees D)" and refs: "refs_ok rv" and ok: "rv_ok D rv" and none: "rx_step D x rv = None"
  shows endless_search
proof (cases x)
  case (Fire v p lane gid t)
  then have p: "p < length (rstates rv)" "expireFECGroup D v p lane gid t rv = None" using none by (auto split: if_splits)
  obtain s result where sec: "expireSection D v lane gid (rstates rv ! p) = (s, result)" by fastforce
  have rf: "recoverFirst D v 4 lane p result (putState p s rv) = None"
    and opn: "\<not> rclosed (rstates rv ! p)"
    using p(2) sec by (auto simp: expireFECGroup_def Let_def split: if_splits)
  have "rv_ok D (putState p s rv)"
    using rmove_windows [OF laws rmove.expire [OF p(1) opn sec] refs ok] .
  from recoverFirst_total [OF this rf] show ?thesis .
next
  case (Arrive v src payload)
  then have w: "recvWriteTo D v src payload rv = None" using none by simp
  then obtain f where f: "decode payload = Inr f"
      and call: "handleDATA D v src f rv = None \<or> handleREPAIR D v src f rv = None"
    unfolding recvWriteTo_def by (auto split: sum.splits if_splits prod.splits)
  obtain rv1 po where st: "recvStateFor (f_session f) rv = (rv1, po)" by fastforce
  have moves: "rmoves D (\<lambda>_. True) rv [] rv1" using recvStateFor_moves [OF refs st] by blast
  have ok1: "rv_ok D rv1" "refs_ok rv1"
    using rmoves_windows [OF laws moves refs ok] rmoves_refs [OF moves refs] by auto
  from call show ?thesis
  proof
    assume call: "handleDATA D v src f rv = None"
    then obtain gid index packet where body: "f_body f = Some (DataBody gid index packet)"
      by (auto simp: handleDATA_def split: option.splits body.splits)
    obtain p where p: "po = Some p" "\<not> rclosed (rstates rv1 ! p)"
      using call body st by (auto simp: handleDATA_def split: option.splits if_splits)
    then have lt: "p < length (rstates rv1)" and route: "routed (f_session f) p rv1"
      using recvStateFor_moves [OF refs st] routed_lt [OF ok1(2)] by blast+
    have "index < 4" using decode_index [OF f body] .
    then obtain s res where sec: "dataSection D v (Kind src) (f_lane f) gid index packet (rstates rv1 ! p) = Some (s, res)"
      using dataSection_total [OF laws rv_ok_nth [OF ok1(1) lt]] by (metis not_None_eq prod.collapse)
    obtain result where rf: "recoverFirst D v (room v - 1) (f_lane f) p result (putState p s rv1) = None"
      using call [unfolded handleDATA_def body option.case body.case st prod.case p(1) if_not_P [OF p(2)] Let_def sec]
      by (auto split: option.splits if_splits prod.splits)
    have "rv_ok D (putState p s rv1)"
      using rmove_windows [OF laws rmove.data [of "\<lambda>_. True", OF TrueI body route p(2) sec] ok1(2,1)] by blast
    from recoverFirst_total [OF this rf] show ?thesis .
  next
    assume call: "handleREPAIR D v src f rv = None"
    then obtain gid k n c symbol where body: "f_body f = Some (RepairBody gid k n c symbol)" and n: "\<not> (n = 0 \<or> n > 4)"
      by (auto simp: handleREPAIR_def split: option.splits body.splits if_splits)
    obtain p where p: "po = Some p" "\<not> rclosed (rstates rv1 ! p)"
      using call body st n by (auto simp: handleREPAIR_def split: option.splits if_splits)
    then have route: "routed (f_session f) p rv1" using recvStateFor_moves [OF refs st] by blast
    obtain s result where sec: "repairSection D v (Kind src) (f_lane f) gid k n c symbol (rstates rv1 ! p) = (s, result)" by fastforce
    have rf: "recoverFirst D v (room v) (f_lane f) p result (putState p s rv1) = None"
      using call [unfolded handleREPAIR_def body option.case body.case if_not_P [OF n] st prod.case p(1) if_not_P [OF p(2)] sec] .
    have "rv_ok D (putState p s rv1)"
      using rmove_windows [OF laws rmove.repair [of "\<lambda>_. True", OF TrueI body route p(2) sec] ok1(2,1)] by blast
    from recoverFirst_total [OF this rf] show ?thesis .
  qed
qed

lemma rx_run_total:
  assumes laws: "window (trees D)"
  shows "refs_ok rv \<Longrightarrow> rv_ok D rv \<Longrightarrow> rx_run D xs rv = None \<Longrightarrow> endless_search"
proof (induction xs arbitrary: rv)
  case (Cons x xs)
  show ?case
  proof (cases "rx_step D x rv")
    case None
    then show ?thesis using rx_step_total [OF laws Cons.prems(1,2)] by blast
  next
    case (Some y)
    then obtain rv1 lg1 where x: "rx_step D x rv = Some (rv1, lg1)" by (cases y) simp
    note moves = rx_step_moves [where G = "\<lambda>_. True", OF Cons.prems(1) TrueI x]
    have "rx_run D xs rv1 = None" using Cons.prems(3) x by simp
    then show ?thesis
      using Cons.IH rmoves_refs [OF moves Cons.prems(1)] rmoves_windows [OF laws moves Cons.prems(1,2)] by blast
  qed
qed simp


end
