(* ===== verification/RecvFec.thy ===== *)
theory RecvFec
  imports RecvOnce
begin

text \<open>
  The content of what the receive engine emits. \<open>sent i lane g\<close> are the packets of group \<open>g\<close> that the
  sender of session \<open>i\<close> numbered on a lane. When every DATA and REPAIR frame that arrives is one the
  sender made of these groups, lost, repeated or out of order as the network likes, every packet that is
  emitted, recovered ones included, is one of them (\<open>recv_integrity\<close>).
\<close>

section \<open>Repair symbols\<close>

text \<open>The symbol of a key over the packets of a group, as the codec computes it.\<close>

definition symbol_of :: "(u8 \<Rightarrow> u8 \<Rightarrow> u8) \<Rightarrow> bytes list \<Rightarrow> u16 \<Rightarrow> bytes option" where
  "symbol_of mul ps k =
    (let n = maxShardLen (map Some ps) in
     map_option (parity mul n (padded n (map Some ps))) (codingCoefficients k (length ps)))"

lemma shard_le: "p \<in> set ps \<Longrightarrow> length p \<le> maxShardLen (map Some ps)"
  using maxShardLen_ge [of "Some p" "map Some ps"] by simp

lemma dot_padded:
  assumes "galois_laws G mul" "length row = length ps" "\<forall>p \<in> set ps. length p \<le> n" "k < n"
  shows "dot mul k (zip row (map Some (padded n (map Some ps)))) = dot mul k (zip row (map Some ps))"
  using assms(2,3)
proof (induction row ps rule: list_induct2)
  case (Cons c row p ps)
  have "cterm mul k c (paddedShard p n) = cterm mul k c p"
    using Cons.prems assms(4) galois_laws.mul_0 [OF assms(1)] by (auto simp: cterm_def paddedShard_nth)
  then show ?case using Cons by (simp add: padded_def)
qed (simp add: padded_def)

lemma single_out:
  assumes G: "galois_laws G mul" and co: "codingCoefficients k (length ps) = Some coeffs"
  shows "fold (\<lambda>(k, s) out. xorPrefix G k (sbytes s) out) (zip coeffs (map Some ps)) (replicate (maxShardLen (map Some ps)) 0)
    = parity mul (maxShardLen (map Some ps)) (padded (maxShardLen (map Some ps)) (map Some ps)) coeffs"
proof -
  let ?n = "maxShardLen (map Some ps)"
  have fit: "\<forall>(c, s) \<in> set (zip coeffs (map Some ps)). slen s \<le> length (replicate ?n (0 :: u8))"
    by (auto dest!: set_zip_rightD simp: shard_le)
  have len: "length coeffs = length ps" using codingCoefficients_props [OF co] by simp
  have le: "\<forall>p \<in> set ps. length p \<le> ?n" by (simp add: shard_le)
  show ?thesis
    using galois_laws.fold_xorPrefix [OF G fit] dot_padded [OF G len le]
    by (intro nth_equalityI) (auto simp: parity_def)
qed

lemma Encode_symbols:
  assumes G: "galois_laws G mul" and R: "rs_laws R mul"
    and enc: "Encode G R (Some \<lparr>dataShards = int (length ps), repairShards = r\<rparr>) (map Some ps @ replicate (nat r) None) keys
      = Some (Inr shards)"
    and j: "j < nat r"
  shows "\<exists>y. symbol_of mul ps (keys ! j) = Some y \<and> shards ! (length ps + j) = Some y"
proof -
  let ?c = "\<lparr>dataShards = int (length ps), repairShards = r\<rparr>"
  let ?n = "maxShardLen (map Some ps)"
  have v: "validate (Some ?c) (map Some ps @ replicate (nat r) None) keys"
    using enc by (auto simp: Encode_def split: if_splits)
  have ps: "take (length ps) (map Some ps @ replicate (nat r) None) = map Some ps" by simp
  show ?thesis
  proof (cases "r = 1")
    case True
    then have single: "encodeSingle G ?c (map Some ps @ replicate (nat r) None) (keys ! 0) = Some (Inr shards)"
      using enc v by (simp add: Encode_def)
    obtain coeffs where co: "codingCoefficients (keys ! 0) (length ps) = Some coeffs"
      "shards = (map Some ps @ replicate (nat r) None)[length ps :=
          Some (fold (\<lambda>(k, s) out. xorPrefix G k (sbytes s) out) (zip coeffs (map Some ps)) (replicate ?n 0))]"
      using encodeSingle_ok [OF single] by auto
    then show ?thesis using True j single_out [OF G co(1)] by (simp add: symbol_of_def Let_def)
  next
    case False
    then obtain M e where M: "codingMatrix (length ps) keys = Some M"
      "shards = map Some ps @ map Some (map (parity mul ?n (padded ?n (map Some ps))) M)"
      using rs_laws.Encode_multi [OF R enc] by auto
    have lk: "length keys = nat r" using v by (auto simp: validate_Some)
    have "codingCoefficients (keys ! j) d = Some (M ! j)" if "codingMatrix d keys = Some M" "j < length keys" for d
      using that
    proof (induction keys arbitrary: M j)
      case (Cons k keys)
      then show ?case by (cases j) (auto split: option.splits)
    qed simp
    then have "codingCoefficients (keys ! j) (length ps) = Some (M ! j)" using M(1) j lk by simp
    moreover have "j < length M" using codingMatrix_props [OF M(1)] lk j by simp
    ultimately show ?thesis using M(2) by (simp add: symbol_of_def Let_def nth_append)
  qed
qed

lemma codingMatrix_symbols:
  assumes "list_all2 (\<lambda>k y. symbol_of mul ps k = Some y) keys ys"
  shows "\<exists>M. codingMatrix (length ps) keys = Some M
    \<and> ys = map (parity mul (maxShardLen (map Some ps)) (padded (maxShardLen (map Some ps)) (map Some ps))) M"
  using assms
proof (induction rule: list_all2_induct)
  case (Cons k keys y ys)
  then show ?case by (auto simp: symbol_of_def Let_def)
qed simp

text \<open>So any choice of repair symbols of a group is an encoding of the group.\<close>

lemma Encode_of_symbols:
  assumes G: "galois_laws G mul" and R: "rs_laws R mul" and ps: "ps \<noteq> []" "length ps \<le> 4" "\<forall>p \<in> set ps. p \<noteq> []"
    and sym: "list_all2 (\<lambda>k y. symbol_of mul ps k = Some y) keys ys" and m: "1 \<le> length keys" "length keys \<le> 4"
  shows "Encode G R (Some \<lparr>dataShards = int (length ps), repairShards = int (length keys)\<rparr>)
      (map Some ps @ replicate (length keys) None) keys = Some (Inr (map Some ps @ map Some ys))"
proof -
  let ?c = "\<lparr>dataShards = int (length ps), repairShards = int (length keys)\<rparr>"
  let ?n = "maxShardLen (map Some ps)" and ?shards = "map Some ps @ replicate (length keys) None"
  obtain M where M: "codingMatrix (length ps) keys = Some M" "ys = map (parity mul ?n (padded ?n (map Some ps))) M"
    using codingMatrix_symbols [OF sym] by blast
  have v: "validate (Some ?c) ?shards keys" using ps m by (auto simp: validate_Some)
  have n: "0 < ?n" using ps(1,3) maxShardLen_0 [of "map Some ps"] by (cases ps) auto
  have none: "\<not> (\<exists>s \<in> set (map Some ps). s = None)" by auto
  show ?thesis
  proof (cases "length keys = 1")
    case True
    then obtain k where k: "keys = [k]" by (auto simp: length_Suc_conv)
    then obtain coeffs where co: "codingCoefficients k (length ps) = Some coeffs" "M = [coeffs]"
      using M(1) by (auto split: option.splits)
    show ?thesis
      using v n co single_out [OF G co(1)] M(2) k none
      by (simp add: Encode_def encodeSingle_def Let_def list_update_append)
  next
    case False
    have lM: "length M = length keys" "\<forall>row \<in> set M. length row = length ps"
      using codingMatrix_props [OF M(1)] by auto
    have "\<exists>e. rs_new R (int (length ps)) (int (length keys)) M = Inr e"
      by (rule rs_laws.new_ok [OF R]) (use ps m lM in auto)
    then obtain e where e: "rs_new R (int (length ps)) (int (length keys)) M = Inr e" by blast
    let ?data = "padded ?n (map Some ps)"
    have "rs_encode R e (?data @ replicate (nat (int (length keys))) (replicate ?n 0)) = Inr (encoded_set mul ?n M ?data)"
      by (rule rs_laws.encode_ok [OF R e n]) (auto simp: padded_def)
    then have enc: "rs_encode R e (map (\<lambda>s. paddedShard (sbytes s) ?n) (map Some ps) @ replicate (length keys) (replicate ?n 0))
        = Inr (encoded_set mul ?n M ?data)" by (simp add: padded_def)
    have "drop (length ps) (encoded_set mul ?n M ?data) = map (parity mul ?n ?data) M"
      by (simp add: encoded_set_def padded_def)
    then show ?thesis
      using v n False e enc M none
      by (simp add: Encode_def encoder_def Let_def)
  qed
qed

section \<open>Reconstruction at the receiver\<close>

text \<open>
  The receiver asks the codec for as many repairs as packets are missing. What it gets back in the place
  of a missing packet is that packet, padded; with one packet missing it does get it back.
\<close>

lemma Reconstruct_group:
  assumes G: "galois_laws G mul" and R: "rs_laws R mul" and ps: "ps \<noteq> []" "length ps \<le> 4" "\<forall>p \<in> set ps. p \<noteq> []"
    and reps: "\<forall>(k, y) \<in> set reps. symbol_of mul ps k = Some y" and m: "1 \<le> length reps" "length reps \<le> 4"
    and count: "length (filter gone [0..<length ps]) = length reps"
  defines "shards \<equiv> map (\<lambda>i. if gone i then None else Some (ps ! i)) [0..<length ps] @ map (\<lambda>x. Some (snd x)) reps"
  defines "co \<equiv> \<lparr>dataShards = int (length ps), repairShards = int (length reps)\<rparr>"
  shows "Reconstruct G R (Some co) shards (map fst reps) = Some (Inr out) \<Longrightarrow> i < length ps \<Longrightarrow> gone i \<Longrightarrow>
      out ! i = Some (paddedShard (ps ! i) (maxShardLen (map Some ps)))"
    and "length reps = 1 \<Longrightarrow> \<exists>out. Reconstruct G R (Some co) shards (map fst reps) = Some (Inr out)"
proof -
  let ?n = "maxShardLen (map Some ps)" and ?full = "map Some ps @ map Some (map snd reps)"
  have sym: "list_all2 (\<lambda>k y. symbol_of mul ps k = Some y) (map fst reps) (map snd reps)"
    using reps by (auto simp: list_all2_conv_all_nth case_prod_unfold)
  have enc: "Encode G R (Some co) (map Some ps @ replicate (length reps) None) (map fst reps) = Some (Inr ?full)"
    using Encode_of_symbols [OF G R ps sym] m by (simp add: co_def)
  have part: "map (\<lambda>i. if gone i then None else Some (ps ! i)) [0..<length ps] ! i = (if gone i then None else Some (ps ! i))"
    if "i < length ps" for i using that by simp
  have main: "(length reps = 1 \<longrightarrow> (\<exists>out. Reconstruct G R (Some co) shards (map fst reps) = Some (Inr out)))
    \<and> (\<forall>out i. Reconstruct G R (Some co) shards (map fst reps) = Some (Inr out) \<longrightarrow> i < length ps \<longrightarrow> gone i \<longrightarrow>
        out ! i = Some (paddedShard (ps ! i) ?n))"
  proof (cases "length reps = 1")
    case True
    then obtain k y where r: "reps = [(k, y)]" by (cases reps) auto
    obtain a where a: "filter gone [0..<length ps] = [a]" using count True by (auto simp: length_Suc_conv)
    have "{i. i < length ps \<and> gone i} = {a}" using arg_cong [OF a, of set] by (simp add: set_eq_iff)
    then have lost: "a < length ps" "gone a" "\<forall>i < length ps. gone i \<longrightarrow> i = a" by auto
    have "map (\<lambda>i. if gone i then None else Some (ps ! i)) [0..<length ps] = (map Some ps)[a := None]"
    proof (rule nth_equalityI)
      fix i assume "i < length (map (\<lambda>i. if gone i then None else Some (ps ! i)) [0..<length ps])"
      then have i: "i < length ps" by simp
      have "gone i = (i = a)" using i lost by blast
      show "map (\<lambda>i. if gone i then None else Some (ps ! i)) [0..<length ps] ! i = (map Some ps)[a := None] ! i"
        using i \<open>gone i = (i = a)\<close> by (simp add: nth_list_update)
    qed simp
    then have shards: "shards = ?full[a := None]"
      unfolding shards_def using lost(1) by (simp add: list_update_append)
    have single: "encodeSingle G co (map Some ps @ [None]) k = Some (Inr ?full)"
      using enc r by (simp add: Encode_def co_def split: if_splits)
    have "reconstructSingle G co (?full[a := None]) k
      = Some (Inr (?full[a := Some (paddedShard (sbytes ((map Some ps @ [None]) ! a)) (maxShardLen (take (nat (dataShards co)) (map Some ps @ [None]))))]))"
      by (rule galois_laws.reconstructSingle_lost [OF G single]) (use lost(1) ps(3) in \<open>auto simp: co_def nth_append\<close>)
    then have "Reconstruct G R (Some co) shards (map fst reps) = Some (Inr (?full[a := Some (paddedShard (ps ! a) ?n)]))"
      using r lost(1) ps(1) by (simp add: Reconstruct_def validate_Some shards co_def nth_append)
    moreover have "(?full[a := Some (paddedShard (ps ! a) ?n)]) ! i = Some (paddedShard (ps ! i) ?n)" if "i < length ps" "gone i" for i
      using lost that by (metis length_append length_map nth_list_update_eq trans_less_add1)
    ultimately show ?thesis by simp
  next
    case False
    have recv: "received shards ?full"
      unfolding received_def shards_def
      by (rule list_all2_appendI) (auto simp: list_all2_conv_all_nth)
    obtain k y where ky: "(k, y) \<in> set reps" using m by (cases reps) auto
    then have "length y = ?n" using reps by (auto simp: symbol_of_def Let_def parity_def)
    moreover have n: "0 < ?n" using ps(1,3) maxShardLen_0 [of "map Some ps"] by (cases ps) auto
    ultimately have left: "\<exists>s \<in> set (drop (nat (dataShards co)) shards). slen s \<noteq> 0"
      using ky by (auto simp: shards_def co_def intro!: bexI [of _ "(k, y)"])
    have multi: "repairShards co \<noteq> 1" using False by (simp add: co_def)
    have "out ! i = Some (paddedShard (ps ! i) ?n)"
      if "Reconstruct G R (Some co) shards (map fst reps) = Some (Inr out)" "i < length ps" "gone i" for out i
      using rs_laws.Reconstruct_multi(1) [OF R enc multi recv left that(1)] that(2,3)
      by (simp add: co_def shards_def nth_append padded_def)
    then show ?thesis using False by blast
  qed
  show "Reconstruct G R (Some co) shards (map fst reps) = Some (Inr out) \<Longrightarrow> i < length ps \<Longrightarrow> gone i \<Longrightarrow>
      out ! i = Some (paddedShard (ps ! i) (maxShardLen (map Some ps)))"
    and "length reps = 1 \<Longrightarrow> \<exists>out. Reconstruct G R (Some co) shards (map fst reps) = Some (Inr out)"
    using main by blast+
qed

text \<open>A well-formed IPv4 packet, as the packet itself says how long it is.\<close>

definition ipv4 :: "bytes \<Rightarrow> bool" where
  "ipv4 p \<longleftrightarrow> recoveredIPv4Packet p = Some p"

lemma ipv4_padded:
  assumes "ipv4 p" "length p \<le> n"
  shows "recoveredIPv4Packet (paddedShard p n) = Some p"
proof -
  have len: "20 \<le> length p" and tot: "push_bit 8 (unat (p ! 2)) OR unat (p ! 3) = length p"
    and rest: "drop_bit 4 (p ! 0) = 4" "\<not> unat (p ! 0 AND 15) * 4 < 20" "\<not> length p < unat (p ! 0 AND 15) * 4"
    using assms(1) by (auto simp: ipv4_def recoveredIPv4Packet_def Let_def split: if_splits dest!: arg_cong [where f = length])
  have nth: "paddedShard p n ! k = p ! k" if "k < 20" for k
    using that len assms(2) by (simp add: paddedShard_nth)
  have "take (length p) (paddedShard p n) = p"
    using assms(2) len by (intro nth_equalityI) (auto simp: paddedShard_nth)
  then show ?thesis
    using len tot rest assms(2) by (simp add: recoveredIPv4Packet_def Let_def nth)
qed

section \<open>Properties of the groups of a window\<close>

text \<open>A property of groups that survives each change of a group survives every operation of the window.\<close>

definition all_groups :: "('g, 'c) trees \<Rightarrow> (u32 \<Rightarrow> rxGroup \<Rightarrow> bool) \<Rightarrow> ('g, 'c) rxGroupWindow \<Rightarrow> bool" where
  "all_groups F P w \<longleftrightarrow> (\<forall>i g. t_get (gt F) (groups w) i = Some g \<longrightarrow> P i g)"

context window
begin

lemma all_drop [simp]: "all_groups F P w \<Longrightarrow> all_groups F P (dropGroup F i w)"
  by (auto simp: all_groups_def dropGroup_def split: if_splits)

lemma all_close [simp]: "all_groups F P (closeGroup F i w) = all_groups F P w"
  by (simp add: all_groups_def closeGroup_def)

lemma all_put: "all_groups F P w \<Longrightarrow> P i g \<Longrightarrow> all_groups F P (putGroup F i g w)"
  by (auto simp: all_groups_def putGroup_def)

lemma all_pruneGroups: "all_groups F P w \<Longrightarrow> pruneGroups F n w out = (w', out') \<Longrightarrow> all_groups F P w'"
proof (induction n arbitrary: w out)
  case (Suc n)
  show ?case using Suc.prems
    by (auto simp: Let_def split: if_splits option.splits dest!: Suc.IH [rotated])
qed simp

lemma all_pruneClosed: "all_groups F P w \<Longrightarrow> all_groups F P (pruneClosed F n w)"
proof (induction n arbitrary: w)
  case (Suc n)
  have "all_groups F P (w\<lparr>closed := x\<rparr>) = all_groups F P w" for x by (simp add: all_groups_def)
  then show ?case using Suc by (auto split: option.split)
qed simp

lemma all_prune: "all_groups F P w \<Longrightarrow> prune F w = (w', out) \<Longrightarrow> all_groups F P w'"
  by (auto simp: prune_def split: prod.splits intro: all_pruneClosed dest: all_pruneGroups)

lemma all_andPrune: "all_groups F P w \<Longrightarrow> andPrune F (w, out) = (w', out') \<Longrightarrow> all_groups F P w'"
  by (auto simp: andPrune_def split: prod.splits dest: all_prune)

lemma all_check: "all_groups F P w \<Longrightarrow> checkGroup F g w = (w', out) \<Longrightarrow> all_groups F P w'"
  by (auto simp: checkGroup_def Let_def split: if_splits)

lemma all_addDataTo:
  assumes "all_groups F P w" "P i (g\<lparr>data := (data g)[unat idx := Some p]\<rparr>)" "addDataTo F w i g idx p = Some (w', out, acc)"
  shows "all_groups F P w'"
proof -
  let ?g = "g\<lparr>data := (data g)[unat idx := Some p]\<rparr>" and ?w = "putGroup F i (g\<lparr>data := (data g)[unat idx := Some p]\<rparr>) w"
  note put = all_put [OF assms(1,2)]
  show ?thesis
  proof (cases "sourceSpan (key g) > 0 \<and> int (unat idx) \<ge> sourceSpan (key g)")
    case True
    then show ?thesis using assms(1,3) by (auto simp: addDataTo_def split: prod.splits dest: all_prune)
  next
    case False
    obtain w1 out1 where 1: "(if sourceSpan (key ?g) > 0 then checkGroup F ?g ?w else (?w, no_result)) = (w1, out1)" by fastforce
    then have "all_groups F P w1" using put by (auto split: if_splits dest: all_check)
    moreover have "andPrune F (w1, out1) = (w', out)"
      using assms(3) [unfolded addDataTo_def Let_def if_not_P [OF False] 1] by (auto split: if_splits prod.splits)
    ultimately show ?thesis by (rule all_andPrune)
  qed
qed

lemma all_addData:
  assumes all: "all_groups F P w" and new: "P i (newGroup i 0)" and upd: "\<And>g. P i g \<Longrightarrow> P i (g\<lparr>data := (data g)[unat idx := Some p]\<rparr>)"
    and out: "addData F w i idx p = Some (w', out, acc)"
  shows "all_groups F P w'"
proof (cases "t_get (gt F) (groups w) i")
  case None
  then show ?thesis
    using out all all_addDataTo [OF all_put [OF all new] upd [OF new]]
    by (auto simp: addData_def split: if_splits)
next
  case (Some g)
  then have "P i g" using all by (simp add: all_groups_def)
  then show ?thesis using Some out all_addDataTo [OF all upd] by (simp add: addData_def)
qed

lemma all_addRepairTo:
  assumes all: "all_groups F P w" and upd: "P i (g\<lparr>repairs := repairs g @ [(k, y)]\<rparr>)"
    and out: "addRepairTo F w i g k y = (w', out, acc)"
  shows "all_groups F P w'"
proof (cases "hasRepair g k")
  case True
  then show ?thesis using out all by (auto simp: addRepairTo_def split: prod.splits dest: all_prune)
next
  case False
  let ?g = "g\<lparr>repairs := repairs g @ [(k, y)]\<rparr>"
  obtain w1 out1 where 1: "checkGroup F ?g (putGroup F i ?g w) = (w1, out1)" by fastforce
  have "all_groups F P w1" by (rule all_check [OF all_put [OF all upd] 1])
  moreover have "andPrune F (w1, out1) = (w', out)"
    using out [unfolded addRepairTo_def Let_def if_not_P [OF False] 1] by (auto split: prod.splits)
  ultimately show ?thesis by (rule all_andPrune)
qed

lemma all_addRepair:
  assumes all: "all_groups F P w" and new: "P i (newGroup i n)"
    and span: "\<And>g. P i g \<Longrightarrow> sourceSpan (key g) = 0 \<Longrightarrow> acceptsSourceSpan g n \<Longrightarrow> P i (g\<lparr>key := (key g)\<lparr>sourceSpan := n\<rparr>\<rparr>)"
    and upd: "\<And>g. P i g \<Longrightarrow> P i (g\<lparr>repairs := repairs g @ [(k, y)]\<rparr>)"
    and out: "addRepair F w i k n y = (w', out, acc)"
  shows "all_groups F P w'"
proof (cases "n \<le> 0 \<or> n > 4")
  case True
  then show ?thesis using out all by (simp add: addRepair_def)
next
  case False
  show ?thesis
  proof (cases "t_get (gt F) (groups w) i")
    case None
    then show ?thesis
      using out False all all_addRepairTo [OF all_put [OF all new] upd [OF new]]
      by (auto simp: addRepair_def split: if_splits)
  next
    case (Some g)
    then have g: "P i g" using all by (simp add: all_groups_def)
    show ?thesis
    proof (cases "acceptsSourceSpan g n")
      case True
      let ?g = "if sourceSpan (key g) = 0 then g\<lparr>key := (key g)\<lparr>sourceSpan := n\<rparr>\<rparr> else g"
      have "P i ?g" using g span [OF g] True by simp
      then show ?thesis
        using out False Some True all_addRepairTo [OF all_put [OF all \<open>P i ?g\<close>] upd [OF \<open>P i ?g\<close>]]
        by (simp add: addRepair_def Let_def)
    next
      case False
      then show ?thesis using out Some all \<open>\<not> (n \<le> 0 \<or> n > 4)\<close>
        by (auto simp: addRepair_def split: prod.splits dest: all_prune)
    qed
  qed
qed

lemma all_finishRecovery:
  assumes all: "all_groups F P w" and upd: "\<And>i g. P i g \<Longrightarrow> P i (g\<lparr>recovered := True\<rparr>)"
    and out: "finishRecovery F w r b m = (w', out)"
  shows "all_groups F P w'"
proof (cases "t_get (gt F) (groups w) (groupID (rec_group r))")
  case None
  then show ?thesis using out all by (auto simp: finishRecovery_def dest: all_prune)
next
  case (Some g)
  then have "P (groupID (rec_group r)) g" using all by (simp add: all_groups_def)
  then show ?thesis
    using out Some all by (auto simp: finishRecovery_def Let_def intro!: all_drop all_put upd dest!: all_andPrune [rotated])
qed

lemma all_expireGroup:
  assumes all: "all_groups F P w" and out: "expireGroup F w i = (w', out)"
  shows "all_groups F P w'"
proof (cases "t_get (gt F) (groups w) i")
  case None
  then show ?thesis using out all by (auto simp: expireGroup_def dest: all_prune)
next
  case (Some g)
  obtain w1 out1 where c: "checkGroup F g w = (w1, out1)" by fastforce
  have 1: "all_groups F P w1" by (rule all_check [OF all c])
  have 2: "all_groups F P (dropGroup F i (closeGroup F i w1))" "all_groups F P (dropGroup F i (closeGroup F i w))"
    using 1 all by simp_all
  show ?thesis
    using out Some 1 2 c
    by (auto simp: expireGroup_def split: if_splits prod.splits dest!: all_andPrune [rotated] all_prune [rotated])
qed

end

section \<open>What the receiver stores and emits\<close>

text \<open>
  A packet of the sender is not empty and, if it claims to be IPv4, is well formed. (The receiver cuts
  a recovered packet to the length its header states, and drops one that is not IPv4.)
\<close>

definition packet_ok :: "bytes \<Rightarrow> bool" where
  "packet_ok p \<longleftrightarrow> p \<noteq> [] \<and> (ipv4 p \<or> drop_bit 4 (p ! 0) \<noteq> 4)"

definition groups_ok :: "(u64 \<Rightarrow> u8 \<Rightarrow> u32 \<Rightarrow> bytes list) \<Rightarrow> bool" where
  "groups_ok sent \<longleftrightarrow> (\<forall>i lane g. length (sent i lane g) \<le> 4 \<and> (\<forall>p \<in> set (sent i lane g). packet_ok p))"

text \<open>A frame the sender makes of its groups: a packet of a group, or a symbol its codec computed over one.\<close>

definition from_sender ::
  "('g, 'c, 'b, 'e, 'q) deps \<Rightarrow> (u64 \<Rightarrow> u8 \<Rightarrow> u32 \<Rightarrow> bytes list) \<Rightarrow> frame \<Rightarrow> bool" where
  "from_sender D sent f \<longleftrightarrow>
    (case f_body f of
       Some (DataBody g j p) \<Rightarrow>
         let ps = sent (f_session f) (f_lane f) g in unat j < length ps \<and> p = ps ! unat j
     | Some (RepairBody g k n c y) \<Rightarrow>
         let ps = sent (f_session f) (f_lane f) g in unat n = length ps \<and>
           (\<exists>r keys shards j. Encode (gal D) (reeds D) (Some \<lparr>dataShards = int (length ps), repairShards = r\<rparr>)
                (map Some ps @ replicate (nat r) None) keys = Some (Inr shards)
              \<and> j < nat r \<and> k = keys ! j \<and> shards ! (length ps + j) = Some y)
     | _ \<Rightarrow> True)"

definition content_ok :: "(u8 \<Rightarrow> u8 \<Rightarrow> u8) \<Rightarrow> bytes list \<Rightarrow> rxGroup \<Rightarrow> bool" where
  "content_ok mul ps g \<longleftrightarrow> length (data g) = 4
    \<and> (\<forall>j < 4. \<forall>b. data g ! j = Some b \<longrightarrow> j < length ps \<and> b = ps ! j)
    \<and> (\<forall>(k, y) \<in> set (repairs g). symbol_of mul ps k = Some y)
    \<and> (sourceSpan (key g) = 0 \<or> sourceSpan (key g) = int (length ps))"

lemma content_changes:
  "content_ok mul ps (newGroup i 0)"
  "n = int (length ps) \<Longrightarrow> content_ok mul ps (newGroup i n)"
  "content_ok mul ps g \<Longrightarrow> n = int (length ps) \<Longrightarrow> content_ok mul ps (g\<lparr>key := (key g)\<lparr>sourceSpan := n\<rparr>\<rparr>)"
  "content_ok mul ps g \<Longrightarrow> symbol_of mul ps k = Some y \<Longrightarrow> content_ok mul ps (g\<lparr>repairs := repairs g @ [(k, y)]\<rparr>)"
  "content_ok mul ps g \<Longrightarrow> content_ok mul ps (g\<lparr>recovered := True\<rparr>)"
  by (auto simp: content_ok_def newGroup_def nth_list_update split: if_splits)

lemma content_data:
  assumes "content_ok mul ps g" "j < length ps"
  shows "content_ok mul ps (g\<lparr>data := (data g)[j := Some (ps ! j)]\<rparr>)"
proof -
  have "(data g)[j := Some (ps ! j)] ! i = Some b \<Longrightarrow> i < 4 \<Longrightarrow> i < length ps \<and> b = ps ! i" for i b
    using assms by (cases "i = j") (auto simp: content_ok_def)
  then show ?thesis using assms(1) by (simp add: content_ok_def)
qed

lemma packet_ok_padded:
  assumes "packet_ok p" "length p \<le> n" "recoveredIPv4Packet (paddedShard p n) = Some b"
  shows "b = p"
proof (cases "ipv4 p")
  case True
  then show ?thesis using ipv4_padded assms(2,3) by simp
next
  case False
  then have "p \<noteq> []" "drop_bit 4 (p ! 0) \<noteq> 4" using assms(1) by (simp_all add: packet_ok_def)
  then have "paddedShard p n ! 0 = p ! 0" using assms(2) by (cases n) (simp_all add: paddedShard_nth)
  then show ?thesis using assms(3) \<open>drop_bit 4 (p ! 0) \<noteq> 4\<close> by (simp add: recoveredIPv4Packet_def)
qed

lemma recoverLoop_packets:
  "recoverLoop D p lane r shards js acc s = (s', lg, Some (ps, b, m)) \<Longrightarrow>
    set ps \<subseteq> set (fst acc) \<union> {(laneDataID (groupID (rec_group r)) (of_nat i), x) |i x.
      i \<in> set js \<and> missingMask r AND push_bit i 1 \<noteq> 0 \<and> recoveredIPv4Packet (sbytes (shards ! i)) = Some x}"
proof (induction js arbitrary: acc s s' lg)
  case (Cons j js)
  show ?case
  proof (cases "missingMask r AND push_bit j 1 = 0")
    case True
    then show ?thesis using Cons by fastforce
  next
    case False
    obtain x where x: "recoveredIPv4Packet (sbytes (shards ! j)) = Some x"
      using Cons.prems False by (cases "recoveredIPv4Packet (sbytes (shards ! j))") auto
    let ?id = "laneDataID (groupID (rec_group r)) (of_nat j)"
    obtain s1 fresh where m: "markEmit D lane ?id s = (s1, fresh)" by fastforce
    obtain acc2 s2 s3 lg3 where step: "fst acc2 = (if fresh then fst acc @ [(?id, x)] else fst acc)"
        "recoverLoop D p lane r shards js acc2 s2 = (s3, lg3, Some (ps, b, m))"
    proof (cases fresh)
      case True
      then show thesis using Cons.prems False x m that
        by (cases acc) (auto simp: Let_def split: prod.splits)
    next
      case False
      then show thesis using Cons.prems \<open>missingMask r AND push_bit j 1 \<noteq> 0\<close> x m that [of acc s1]
        by (auto simp: Let_def split: prod.splits)
    qed
    let ?S = "\<lambda>js. {(laneDataID (groupID (rec_group r)) (of_nat i), x) |i x.
      i \<in> set js \<and> missingMask r AND push_bit i 1 \<noteq> 0 \<and> recoveredIPv4Packet (sbytes (shards ! i)) = Some x}"
    have "(?id, x) \<in> ?S [j]" using x False by fastforce
    then have "set (fst acc2) \<subseteq> set (fst acc) \<union> ?S [j]" using step(1) by (cases fresh) auto
    moreover have "?S [j] \<subseteq> ?S (j # js)" "?S js \<subseteq> ?S (j # js)" by auto
    moreover have "set ps \<subseteq> set (fst acc2) \<union> ?S js" by (rule Cons.IH [OF step(2)])
    ultimately show ?thesis by (meson Un_mono order_trans subset_refl le_supI le_supI1 le_supI2)
  qed
qed simp

lemma recoverPackets_content:
  assumes G: "galois_laws (gal D) mul" and R: "rs_laws (reeds D) mul"
    and ps: "length ps \<le> 4" "\<forall>p \<in> set ps. packet_ok p"
    and content: "\<And>w g. rxWindows s lane = Some w \<Longrightarrow> t_get (gt (trees D)) (groups w) (groupID (rec_group r)) = Some g \<Longrightarrow> content_ok mul ps g"
    and co: "dataShards co = sourceSpan (rec_group r)" "repairShards co = int (countMissing (missingMask r) (sourceSpan (rec_group r)))"
      "0 < sourceSpan (rec_group r)" "0 < countMissing (missingMask r) (sourceSpan (rec_group r))"
    and out: "recoverPackets D tm p lane r co s = Some (s', lg, packets)" and b: "(i, b) \<in> set packets"
  shows "\<exists>j < length ps. i = laneDataID (groupID (rec_group r)) (of_nat j) \<and> b = ps ! j"
proof -
  have "packets \<noteq> []" using b by auto
  then obtain w where w: "\<not> rclosed s" "rxWindows s lane = Some w"
    using out by (cases "rclosed s"; cases "rxWindows s lane") (simp_all add: recoverPackets_def)
  note out = out [unfolded recoverPackets_def if_not_P [OF w(1)] w(2) option.case]
  obtain shards keys where bs: "buildShardsLocked (trees D) w r = Some (shards, keys)"
    using out \<open>packets \<noteq> []\<close> by (auto split: option.splits)
  note out = out [unfolded bs option.case prod.case]
  obtain shards' where rec: "Reconstruct (gal D) (reeds D) (Some co) shards keys = Some (Inr shards')"
    using out \<open>packets \<noteq> []\<close> by (auto split: option.splits sum.splits)
  let ?n = "sourceSpan (rec_group r)" and ?gone = "\<lambda>i. missingMask r AND push_bit i 1 \<noteq> 0"
  let ?m = "countMissing (missingMask r) ?n"
  obtain s1 lg1 bsum m where loop: "recoverLoop D p lane r shards' [0..<nat ?n] ([], 0, 0) s = (s1, lg1, Some (packets, bsum, m))"
    using out [unfolded rec option.case sum.case] \<open>packets \<noteq> []\<close> by (auto split: prod.splits option.splits)
  obtain g where g: "t_get (gt (trees D)) (groups w) (groupID (rec_group r)) = Some g" "sourceSpan (key g) = ?n"
      "\<not> length (repairs g) < ?m" "\<not> (\<exists>i \<in> set [0..<nat ?n]. missingMask r AND push_bit i 1 = 0 \<and> data g ! i = None)"
      "shards = map (\<lambda>i. if ?gone i then None else data g ! i) [0..<nat ?n] @ map (\<lambda>x. Some (snd x)) (take ?m (repairs g))"
      "keys = map fst (take ?m (repairs g))"
    using bs by (auto simp: buildShardsLocked_def Let_def split: if_splits option.splits)
  note c = content [OF w(2) g(1)]
  have n: "nat ?n = length ps" "?n = int (length ps)" using c co(3) g(2) by (auto simp: content_ok_def)
  have ne: "ps \<noteq> []" "\<forall>p \<in> set ps. p \<noteq> []" using n co(3) ps(2) by (auto simp: packet_ok_def)
  have "data g ! i = Some (ps ! i)" if "i < length ps" "\<not> ?gone i" for i
    using g(4) c that n ps(1) by (auto simp: content_ok_def)
  then have sh: "shards = map (\<lambda>i. if ?gone i then None else Some (ps ! i)) [0..<length ps] @ map (\<lambda>x. Some (snd x)) (take ?m (repairs g))"
    unfolding g(5) n(1) by (auto intro!: map_cong)
  have count: "length (filter ?gone [0..<length ps]) = ?m" by (simp add: countMissing_def n(1))
  have m4: "?m \<le> 4" using count length_filter_le [of ?gone "[0..<length ps]"] ps(1) by simp
  have lt: "length (take ?m (repairs g)) = ?m" using g(3) by simp
  have reps: "\<forall>(k, y) \<in> set (take ?m (repairs g)). symbol_of mul ps k = Some y"
    using c by (auto simp: content_ok_def dest: in_set_takeD)
  have coeq: "co = \<lparr>dataShards = int (length ps), repairShards = int ?m\<rparr>" using co(1,2) n(2) by simp
  obtain j where j: "i = laneDataID (groupID (rec_group r)) (of_nat j)" "j < length ps" "?gone j"
      "recoveredIPv4Packet (sbytes (shards' ! j)) = Some b"
    using recoverLoop_packets [OF loop] b n(1) by auto
  have "shards' ! j = Some (paddedShard (ps ! j) (maxShardLen (map Some ps)))"
  proof (rule Reconstruct_group(1) [OF G R ne(1) ps(1) ne(2) reps])
    show "1 \<le> length (take ?m (repairs g))" "length (take ?m (repairs g)) \<le> 4" using lt co(4) m4 by simp_all
    show "length (filter ?gone [0..<length ps]) = length (take ?m (repairs g))" using count lt by simp
    show "Reconstruct (gal D) (reeds D) (Some \<lparr>dataShards = int (length ps), repairShards = int (length (take ?m (repairs g)))\<rparr>)
        (map (\<lambda>i. if ?gone i then None else Some (ps ! i)) [0..<length ps] @ map (\<lambda>x. Some (snd x)) (take ?m (repairs g)))
        (map fst (take ?m (repairs g))) = Some (Inr shards')"
      using rec unfolding sh g(6) coeq lt .
  qed (use j in auto)
  then have "recoveredIPv4Packet (paddedShard (ps ! j) (maxShardLen (map Some ps))) = Some b" using j(4) by simp
  then have "b = ps ! j" using packet_ok_padded ps(2) j(2) shard_le by (meson nth_mem)
  then show ?thesis using j by blast
qed

section \<open>Integrity\<close>

text \<open>A handler keeps the session table consistent: a session object keeps its id.\<close>

definition handler_ok :: "handler option \<Rightarrow> bool" where
  "handler_ok ho \<longleftrightarrow> (\<forall>h src f m. ho = Some h \<longrightarrow> table_ok m \<longrightarrow>
     table_ok (fst (h src f m)) \<and> length (heap m) \<le> length (heap (fst (h src f m)))
     \<and> (\<forall>r < length (heap m). sid (heap (fst (h src f m)) ! r) = sid (heap m ! r)))"

definition sessions_ok :: "('g, 'c, 'b, 'q) recv \<Rightarrow> bool" where
  "sessions_ok rv \<longleftrightarrow> table_ok (smanager rv) \<and> handler_ok (handler rv)
    \<and> (\<forall>r p. states rv r = Some p \<longrightarrow> r < length (heap (smanager rv)) \<and> sessionID (rstates rv ! p) = sid (heap (smanager rv) ! r))"

definition contents_ok ::
  "('g, 'c, 'b, 'e, 'q) deps \<Rightarrow> (u8 \<Rightarrow> u8 \<Rightarrow> u8) \<Rightarrow> (u64 \<Rightarrow> u8 \<Rightarrow> u32 \<Rightarrow> bytes list) \<Rightarrow> ('g, 'c, 'b, 'q) recvState \<Rightarrow> bool" where
  "contents_ok D mul sent s \<longleftrightarrow> (\<forall>lane w. rxWindows s lane = Some w \<longrightarrow>
     all_groups (trees D) (\<lambda>g. content_ok mul (sent (sessionID s) lane g)) w)"

definition emits_sent :: "(u64 \<Rightarrow> u8 \<Rightarrow> u32 \<Rightarrow> bytes list) \<Rightarrow> ('g, 'c, 'b, 'q) recv \<Rightarrow> revent list \<Rightarrow> bool" where
  "emits_sent sent rv lg \<longleftrightarrow> (\<forall>p lane i b. Emit p lane i b \<in> set lg \<longrightarrow> p < length (rstates rv) \<and>
     (\<exists>g j. j < length (sent (sessionID (rstates rv ! p)) lane g) \<and> i = laneDataID g (of_nat j)
        \<and> b = sent (sessionID (rstates rv ! p)) lane g ! j))"

definition integrity ::
  "('g, 'c, 'b, 'e, 'q) deps \<Rightarrow> (u8 \<Rightarrow> u8 \<Rightarrow> u8) \<Rightarrow> (u64 \<Rightarrow> u8 \<Rightarrow> u32 \<Rightarrow> bytes list) \<Rightarrow> ('g, 'c, 'b, 'q) recv \<Rightarrow> bool" where
  "integrity D mul sent rv \<longleftrightarrow> refs_ok rv \<and> rv_ok D rv \<and> sessions_ok rv \<and> (\<forall>s \<in> set (rstates rv). contents_ok D mul sent s)"

lemma routed_session:
  "sessions_ok rv \<Longrightarrow> routed i p rv \<Longrightarrow> sessionID (rstates rv ! p) = i"
  by (auto simp: sessions_ok_def routed_def Get_def table_ok_def)

lemma new_contents: "window F \<Longrightarrow> all_groups F P (newRxGroupWindow F)"
  by (simp add: all_groups_def newRxGroupWindow_def window_def tree_laws_def)

lemma windowFor_contents:
  assumes "window (trees D)" "contents_ok D mul sent s"
  shows "all_groups (trees D) (\<lambda>g. content_ok mul (sent (sessionID s) lane g)) (snd (windowFor D lane s))"
  using assms new_contents [OF assms(1)] by (auto simp: windowFor_def contents_ok_def Let_def split: option.split)

lemma contents_upd:
  assumes "contents_ok D mul sent s" "all_groups (trees D) (\<lambda>g. content_ok mul (sent (sessionID s) lane g)) w"
    and "rxWindows s' = (rxWindows s)(lane \<mapsto> w)" "sessionID s' = sessionID s"
  shows "contents_ok D mul sent s'"
  using assms by (auto simp: contents_ok_def)

lemma integrity_put:
  assumes "integrity D mul sent rv" "p < length (rstates rv)" "contents_ok D mul sent s" "sessionID s = sessionID (rstates rv ! p)"
  shows "(\<forall>s \<in> set (rstates (putState p s rv)). contents_ok D mul sent s) \<and> sessions_ok (putState p s rv)"
proof -
  have "sessionID (rstates (putState p s rv) ! q) = sessionID (rstates rv ! q)" for q
    using assms(2,4) by (cases "q = p") simp_all
  then show ?thesis
    using assms(1,3) set_update_subset_insert [of "rstates rv" p s]
    by (auto simp: integrity_def sessions_ok_def putState_def)
qed

lemma emits_sent_one:
  "emits_sent sent rv lg \<Longrightarrow> \<forall>q < length (rstates rv). q < length (rstates rv') \<and> sessionID (rstates rv' ! q) = sessionID (rstates rv ! q) \<Longrightarrow>
    emits_sent sent rv' lg"
  by (auto simp: emits_sent_def)

lemma no_emits: "(\<And>p l i b. Emit p l i b \<notin> set lg) \<Longrightarrow> emits_sent sent rv lg"
  by (simp add: emits_sent_def)

lemma rmove_sessions:
  "rmove D G rv lg rv' \<Longrightarrow> refs_ok rv \<Longrightarrow> q < length (rstates rv) \<Longrightarrow>
    q < length (rstates rv') \<and> sessionID (rstates rv' ! q) = sessionID (rstates rv ! q)"
proof (induction rule: rmove.induct)
  case (data f gid index packet p rv v k s res lg)
  then show ?case using dataSection_logs(3) [OF data(5)] by (cases "q = p") auto
next
  case (repair f gid rk n c symbol p rv v k s result)
  have "sessionID s = sessionID (rstates rv ! p)" using repair(5) by (cases rule: repairSection_cases)
  then show ?case using repair by (cases "q = p") auto
next
  case (expire p rv v lane gid s result)
  have "sessionID s = sessionID (rstates rv ! p)" using expire(3) by (cases rule: expireSection_cases) auto
  then show ?case using expire by (cases "q = p") auto
next
  case (recover p rv r co tm lane s lg packets n)
  then show ?case using recoverPackets_logs(3) [OF recover(4)] by (cases "q = p") auto
next
  case (hint p rv x)
  then show ?case by (cases "q = p") auto
next
  case (close rv r p)
  then show ?case by (cases "q = p") (auto simp: closeState_def)
qed (auto simp: nth_append)

lemma dataSection_contents:
  assumes laws: "window (trees D)" and c: "contents_ok D mul sent s"
    and p: "unat index < length (sent (sessionID s) lane gid)" "packet = sent (sessionID s) lane gid ! unat index"
    and out: "dataSection D v k lane gid index packet s = Some (s', res)"
  shows "contents_ok D mul sent s'"
  using out
proof (cases rule: dataSection_cases)
  let ?ps = "\<lambda>g. sent (sessionID s) lane g"
  note w = windowFor_contents [OF laws c, of lane]
  note fr = markEmit_frame [of D lane "laneDataID gid index" "fst (windowFor D lane s)"]
  {
    case (duplicate s1)
    have "contents_ok D mul sent (fst (windowFor D lane s))"
      by (rule contents_upd [OF c w]) (simp_all add: windowFor_frame)
    then show ?thesis using duplicate fr by (simp add: contents_ok_def recv_frame)
  next
    case (fresh s1 w' result acc)
    have s1: "rxWindows s1 = (rxWindows s)(lane \<mapsto> snd (windowFor D lane s))" "sessionID s1 = sessionID s"
      using fr fresh(1) by (simp_all add: windowFor_frame)
    then have "snd (windowFor D lane s1) = snd (windowFor D lane s)" by (simp add: windowFor_def)
    then have add: "addData (trees D) (snd (windowFor D lane s)) gid index packet = Some (w', result, acc)" using fresh(2) by simp
    have "all_groups (trees D) (\<lambda>g. content_ok mul (?ps g)) w'"
      by (rule window.all_addData [OF laws w _ _ add]) (simp_all add: content_changes content_data p)
    then show ?thesis by (rule contents_upd [OF c]) (use fresh s1 in simp_all)
  }
qed

lemma repairSection_contents:
  assumes laws: "window (trees D)" and c: "contents_ok D mul sent s"
    and n: "unat n = length (sent (sessionID s) lane gid)" and y: "symbol_of mul (sent (sessionID s) lane gid) rk = Some y"
    and out: "repairSection D v k lane gid rk n c y s = (s', result)"
  shows "contents_ok D mul sent s'"
  using out
proof (cases rule: repairSection_cases)
  case (1 w acc)
  have "all_groups (trees D) (\<lambda>g. content_ok mul (sent (sessionID s) lane g)) w"
    by (rule window.all_addRepair [OF laws windowFor_contents [OF laws c] _ _ _ 1(1)])
      (use n y in \<open>simp_all add: content_changes\<close>)
  then show ?thesis by (rule contents_upd [OF assms(2)]) (use 1 in simp_all)
qed

lemma expireSection_contents:
  assumes laws: "window (trees D)" and c: "contents_ok D mul sent s" and out: "expireSection D v lane gid s = (s', result)"
  shows "contents_ok D mul sent s'"
  using out
proof (cases rule: expireSection_cases)
  case none
  then show ?thesis using c by (simp add: contents_ok_def)
next
  case (some w w')
  then have "all_groups (trees D) (\<lambda>g. content_ok mul (sent (sessionID s) lane g)) w'"
    using c window.all_expireGroup [OF laws _ some(2)] by (simp add: contents_ok_def)
  then show ?thesis by (rule contents_upd [OF c]) (use some in simp_all)
qed

lemma recoverPackets_contents:
  assumes laws: "window (trees D)" and c: "contents_ok D mul sent s" and out: "recoverPackets D tm p lane r co s = Some (s', lg, packets)"
  shows "contents_ok D mul sent s'"
  using recoverPackets_windows [OF out]
proof (elim disjE exE conjE)
  assume "rxWindows s' = rxWindows s"
  then show ?thesis using c recoverPackets_logs(3) [OF out] by (simp add: contents_ok_def)
next
  fix w b m w' res
  assume f: "rxWindows s lane = Some w" "finishRecovery (trees D) w r b m = (w', res)" "rxWindows s' = (rxWindows s)(lane \<mapsto> w')"
  have "all_groups (trees D) (\<lambda>g. content_ok mul (sent (sessionID s) lane g)) w'"
    by (rule window.all_finishRecovery [OF laws _ _ f(2)]) (use c f(1) in \<open>auto simp: contents_ok_def content_changes\<close>)
  then show ?thesis by (rule contents_upd [OF c _ f(3) recoverPackets_logs(3) [OF out]])
qed

lemma releaseAll_contents: "window F \<Longrightarrow> all_groups F P (releaseAll F w)"
  using window.dropAll_empty [of F w "t_size (gt F) (groups w)"] by (simp add: all_groups_def releaseAll_def)

lemma rmove_integrity:
  assumes laws: "window (trees D)" "galois_laws (gal D) mul" "rs_laws (reeds D) mul" and groups: "groups_ok sent"
  shows "rmove D (from_sender D sent) rv lg rv' \<Longrightarrow> integrity D mul sent rv \<Longrightarrow> integrity D mul sent rv' \<and> emits_sent sent rv' lg"
proof -
  assume move: "rmove D (from_sender D sent) rv lg rv'" and inv: "integrity D mul sent rv"
  have refs: "refs_ok rv" and ok: "rv_ok D rv" and sess: "sessions_ok rv"
    and cont: "\<And>p. p < length (rstates rv) \<Longrightarrow> contents_ok D mul sent (rstates rv ! p)"
    using inv by (auto simp: integrity_def)
  have "(\<forall>s \<in> set (rstates rv'). contents_ok D mul sent s) \<and> sessions_ok rv' \<and> emits_sent sent rv' lg"
    using move
  proof (cases rule: rmove.cases)
    case (create i r)
    then have "sessions (smanager rv) i = Some r" by (simp add: Get_def)
    then have "r < length (heap (smanager rv)) \<and> sid (heap (smanager rv) ! r) = i" using sess by (simp add: sessions_ok_def table_ok_def)
    then have "sessions_ok rv'" using sess refs create by (auto simp: sessions_ok_def refs_ok_def nth_append newState_def)
    then show ?thesis using inv create by (auto simp: integrity_def contents_ok_def newState_def emits_sent_def)
  next
    case (data f gid index packet p v k s res lg0)
    have lt: "p < length (rstates rv)" using routed_lt [OF refs data(5)] .
    have sid: "sessionID (rstates rv ! p) = f_session f" using routed_session [OF sess data(5)] .
    have pk: "unat index < length (sent (f_session f) (f_lane f) gid)" "packet = sent (f_session f) (f_lane f) gid ! unat index"
      using data(3,4) by (simp_all add: from_sender_def Let_def)
    have "contents_ok D mul sent s"
      by (rule dataSection_contents [OF laws(1) cont [OF lt] _ _ data(7)]) (use pk sid in simp_all)
    moreover have "sessionID s = sessionID (rstates rv ! p)" using dataSection_logs(3) [OF data(7)] .
    moreover have "emits_sent sent (putState p s rv) lg"
      unfolding emits_sent_def
    proof (intro allI impI)
      fix q lane i b assume "Emit q lane i b \<in> set lg"
      then have e: "q = p" "lane = f_lane f" "i = laneDataID gid index" "b = packet" using data(1,8) by auto
      have "i = laneDataID gid (of_nat (unat index))" using e by simp
      then show "q < length (rstates (putState p s rv)) \<and> (\<exists>g j. j < length (sent (sessionID (rstates (putState p s rv) ! q)) lane g)
          \<and> i = laneDataID g (of_nat j) \<and> b = sent (sessionID (rstates (putState p s rv) ! q)) lane g ! j)"
        using e lt pk sid \<open>sessionID s = _\<close> by (intro conjI exI [of _ gid] exI [of _ "unat index"]) simp_all
    qed
    ultimately show ?thesis using integrity_put [OF inv lt] data(2) by simp
  next
    case (repair f gid rk n c y p v k s result)
    have lt: "p < length (rstates rv)" using routed_lt [OF refs repair(5)] .
    have sid: "sessionID (rstates rv ! p) = f_session f" using routed_session [OF sess repair(5)] .
    let ?ps = "sent (f_session f) (f_lane f) gid"
    obtain r keys shards j where e: "unat n = length ?ps"
      "Encode (gal D) (reeds D) (Some \<lparr>dataShards = int (length ?ps), repairShards = r\<rparr>)
        (map Some ?ps @ replicate (nat r) None) keys = Some (Inr shards)"
      "j < nat r" "rk = keys ! j" "shards ! (length ?ps + j) = Some y"
      using repair(3,4) by (auto simp: from_sender_def Let_def)
    have "symbol_of mul ?ps rk = Some y" using Encode_symbols [OF laws(2,3) e(2,3)] e(4,5) by simp
    then have "contents_ok D mul sent s"
      by (intro repairSection_contents [OF laws(1) cont [OF lt] _ _ repair(7)]) (use e(1) sid in simp_all)
    moreover have "sessionID s = sessionID (rstates rv ! p)" using repair(7) by (cases rule: repairSection_cases)
    ultimately show ?thesis using integrity_put [OF inv lt] repair(1,2) by (simp add: emits_sent_def)
  next
    case (expire p v lane gid s result)
    have "sessionID s = sessionID (rstates rv ! p)" using expire(5) by (cases rule: expireSection_cases) auto
    then show ?thesis
      using integrity_put [OF inv expire(3) expireSection_contents [OF laws(1) cont [OF expire(3)] expire(5)]] expire(1,2)
      by (simp add: emits_sent_def)
  next
    case (recover p r co tm lane s lg0 packets n)
    let ?sid = "sessionID (rstates rv ! p)"
    note sid = recoverPackets_logs(3) [OF recover(6)]
    have "emits_sent sent (putState p s rv) lg"
      unfolding emits_sent_def
    proof (intro allI impI)
      fix q l i b assume "Emit q l i b \<in> set lg"
      then have "Emit q l i b \<in> set (map (\<lambda>(i, b). Emit p lane i b) (take n packets))"
        using recover(1) recoverPackets_logs(4) [OF recover(6), of q l]
        by (auto simp: emitted_def split: if_splits)
      then have e: "q = p" "l = lane" "(i, b) \<in> set packets" by (auto dest: in_set_takeD)
      have codec: "dataShards co = sourceSpan (rec_group r)" "repairShards co = int (countMissing (missingMask r) (sourceSpan (rec_group r)))"
          "0 < sourceSpan (rec_group r)" "0 < countMissing (missingMask r) (sourceSpan (rec_group r))"
        using recover(5) ok by (auto simp: recvCodecFor_def rv_ok_def split: if_splits)
      have "\<exists>j < length (sent ?sid lane (groupID (rec_group r))). i = laneDataID (groupID (rec_group r)) (of_nat j)
          \<and> b = sent ?sid lane (groupID (rec_group r)) ! j"
      proof (rule recoverPackets_content [OF laws(2,3) _ _ _ codec recover(6) e(3)])
        fix w g assume "rxWindows (rstates rv ! p) lane = Some w" "t_get (gt (trees D)) (groups w) (groupID (rec_group r)) = Some g"
        then show "content_ok mul (sent ?sid lane (groupID (rec_group r))) g"
          using cont [OF recover(3)] by (auto simp: contents_ok_def all_groups_def)
      qed (use groups in \<open>auto simp: groups_ok_def\<close>)
      then show "q < length (rstates (putState p s rv)) \<and> (\<exists>g j. j < length (sent (sessionID (rstates (putState p s rv) ! q)) l g)
          \<and> i = laneDataID g (of_nat j) \<and> b = sent (sessionID (rstates (putState p s rv) ! q)) l g ! j)"
        using e recover(3) sid by auto
    qed
    then show ?thesis
      using integrity_put [OF inv recover(3) recoverPackets_contents [OF laws(1) cont [OF recover(3)] recover(6)] sid] recover(2)
      by simp
  next
    case (hint p x)
    have "contents_ok D mul sent ((rstates rv ! p)\<lparr>rqos := x\<rparr>)" using cont [OF hint(3)] by (simp add: contents_ok_def)
    then show ?thesis using integrity_put [OF inv hint(3)] hint(1,2) by (simp add: emits_sent_def)
  next
    case log
    then show ?thesis using inv by (auto simp: integrity_def emits_sent_def note_event_def)
  next
    case (close r p)
    have lt: "p < length (rstates rv)" using refs close(3) by (auto simp: refs_ok_def)
    have inv2: "integrity D mul sent (rv\<lparr>states := (states rv)(r := None)\<rparr>)"
      using inv by (auto simp: integrity_def refs_ok_def rv_ok_def sessions_ok_def split: if_splits)
    have "contents_ok D mul sent (closeState D (rstates rv ! p))"
      using releaseAll_contents [OF laws(1)] by (auto simp: contents_ok_def closeState_def)
    then show ?thesis using integrity_put [OF inv2, of p] lt close(1,2) by (simp add: emits_sent_def closeState_def)
  next
    case (handled h src f)
    let ?m = "fst (h src f (smanager rv))"
    have m: "table_ok ?m" "length (heap (smanager rv)) \<le> length (heap ?m)"
        "\<forall>r < length (heap (smanager rv)). sid (heap ?m ! r) = sid (heap (smanager rv) ! r)"
      using sess handled(3) by (simp_all add: sessions_ok_def handler_ok_def)
    then have "sessions_ok rv'" using sess handled(2) by (fastforce simp: sessions_ok_def)
    then show ?thesis using inv handled by (auto simp: integrity_def emits_sent_def)
  next
    case (deleted i)
    then have "sessions_ok rv'" using sess by (auto simp: sessions_ok_def table_ok_def Session.Delete_def)
    then show ?thesis using inv deleted by (auto simp: integrity_def emits_sent_def)
  qed
  moreover have "refs_ok rv'" "rv_ok D rv'" using rmove_refs [OF move refs] rmove_windows [OF laws(1) move refs ok] by blast+
  ultimately show ?thesis by (simp add: integrity_def)
qed

lemma rmoves_integrity:
  assumes laws: "window (trees D)" "galois_laws (gal D) mul" "rs_laws (reeds D) mul" and groups: "groups_ok sent"
  shows "rmoves D (from_sender D sent) rv lg rv' \<Longrightarrow> integrity D mul sent rv \<Longrightarrow> integrity D mul sent rv' \<and> emits_sent sent rv' lg
    \<and> (\<forall>q < length (rstates rv). q < length (rstates rv') \<and> sessionID (rstates rv' ! q) = sessionID (rstates rv ! q))"
proof (induction rule: rmoves.induct)
  case (none rv)
  then show ?case by (simp add: emits_sent_def)
next
  case (more rv lg rv' lg' rv'')
  have 1: "integrity D mul sent rv'" "emits_sent sent rv' lg" using rmove_integrity [OF laws groups more(1,4)] by auto
  have keep: "q < length (rstates rv') \<and> sessionID (rstates rv' ! q) = sessionID (rstates rv ! q)" if "q < length (rstates rv)" for q
    using rmove_sessions [OF more(1) _ that] more(4) by (simp add: integrity_def)
  have "emits_sent sent rv'' lg" by (rule emits_sent_one [OF 1(2)]) (use more(3) [OF 1(1)] in blast)
  then show ?case using more(3) [OF 1(1)] keep by (auto simp: emits_sent_def)
qed

lemma newRecv_integrity: "table_ok m \<Longrightarrow> handler_ok h \<Longrightarrow> integrity D mul sent (newRecv h m q)"
  using newRecv_ok newRecv_windows by (auto simp: integrity_def sessions_ok_def newRecv_def)

text \<open>
  A recovery that fails half way: the first of two lost packets is IPv4, the second is not (an IPv6
  packet, say). The first identity has been marked as emitted when the loop gives up, and its packet is
  released with the rest, so that the original, should it still arrive, is dropped as a duplicate.
\<close>

lemma failed_recovery_burns_identity:
  assumes "missingMask r = 3" "recoveredIPv4Packet a = Some x" "recoveredIPv4Packet b = None"
    and "markEmit D lane (laneDataID (groupID (rec_group r)) 0) s = (s1, True)"
  shows "\<exists>s'. recoverLoop D p lane r [Some a, Some b, Some c] [0, 1] ([], 0, 0) s
    = (s', [Marked p lane (laneDataID (groupID (rec_group r)) 0) True], None)"
  using assms by (simp add: Let_def)

section \<open>Properties\<close>

text \<open> C36: Integrity end to end. Let every DATA and REPAIR frame that arrives be one the sender made of the
  packets of its groups, with the network losing, repeating and reordering frames as it likes, and let a
  packet that claims to be IPv4 be well formed. Then every packet the receiver emits, received or
  reconstructed, with whatever mixture of packets and repairs of the group, is exactly the packet the
  sender numbered with that identity on that lane of that session. \<close>

theorem recv_integrity:
  assumes laws: "window (trees D)" "galois_laws (gal D) mul" "rs_laws (reeds D) mul"
    and groups: "groups_ok sent"
    and start: "table_ok m" "handler_ok h"
    and frames: "\<forall>x \<in> set xs. \<forall>f. arrives x f \<longrightarrow> from_sender D sent f"
    and run: "rx_run D xs (newRecv h m q) = Some (rv, lg)"
    and emit: "Emit p lane i b \<in> set lg"
  shows "\<exists>g j. j < length (sent (sessionID (rstates rv ! p)) lane g) \<and> i = laneDataID g (of_nat j)
    \<and> b = sent (sessionID (rstates rv ! p)) lane g ! j"
proof -
  have "rmoves D (from_sender D sent) (newRecv h m q) lg rv"
    by (rule rx_run_moves [OF newRecv_ok _ run]) (use frames in blast)
  from rmoves_integrity [OF laws groups this newRecv_integrity [OF start]]
  have "emits_sent sent rv lg" by blast
  then show ?thesis using emit by (auto simp: emits_sent_def)
qed

definition demo_sent :: "u64 \<Rightarrow> u8 \<Rightarrow> u32 \<Rightarrow> bytes list" where
  "demo_sent i lane g = (if i = 7 \<and> lane = 1 \<and> g = 0 then [[96]] else [])"

lemma recv_integrity_witness:
  "\<exists>rv. rx_run demo_deps [Arrive demo_env noRef demo_data, Arrive demo_env noRef demo_data] (newRecv None demo_store None)
      = Some (rv, [Marked 0 1 0 True, Emit 0 1 0 [96], Marked 0 1 0 False])
    \<and> (\<exists>g j. j < length (demo_sent (sessionID (rstates rv ! 0)) 1 g) \<and> 0 = laneDataID g (of_nat j)
        \<and> [96] = demo_sent (sessionID (rstates rv ! 0)) 1 g ! j)"
proof -
  obtain rv where run: "rx_run demo_deps [Arrive demo_env noRef demo_data, Arrive demo_env noRef demo_data] (newRecv None demo_store None)
      = Some (rv, [Marked 0 1 0 True, Emit 0 1 0 [96], Marked 0 1 0 False])" using demo_data by blast
  have laws: "window (trees demo_deps)" "galois_laws (gal demo_deps) gf_mul" "rs_laws (reeds demo_deps) gf_mul"
    by (simp_all add: demo_deps_def rxw.window_axioms gf.galois_laws_axioms gfrs.rs_laws_axioms)
  have groups: "groups_ok demo_sent"
    by (simp add: groups_ok_def demo_sent_def packet_ok_def drop_bit_eq_div)
  have start: "table_ok demo_store" "handler_ok None"
    by (auto simp: table_ok_def demo_store_def newSession_def handler_ok_def split: if_splits)
  have frames: "\<forall>x \<in> set [Arrive demo_env noRef demo_data, Arrive demo_env noRef demo_data]. \<forall>f. arrives x f \<longrightarrow> from_sender demo_deps demo_sent f"
    by (auto simp: arrives_def demo_decode from_sender_def demo_sent_def)
  show ?thesis using run recv_integrity [OF laws groups start frames run, of 0 1 0 "[96]"] by auto
qed
end
