(* ===== verification/Bw.thy ===== *)
theory Bw
  imports Ping
begin

text \<open>
  \<open>internal/tunnel/v2/probe/bw/bw.go\<close>: bandwidth probing. This theory holds the values it exchanges, its
  pure rate computations and the passive side, \<open>Receive\<close>; \<open>BwTrain\<close> holds the active side. Rates and
  byte counts are 64-bit words. A ratio is a rational: Go's \<open>float64\<close> of a count below \<open>2 ^ 53\<close> is exact and
  only the quotient or product is rounded. The bit sets of \<open>github.com/bits-and-blooms/bitset\<close>, here of at
  most 64 bits, are the operation record \<open>mask_ops\<close>.
\<close>

section \<open>Values\<close>

record bw_probe =
  p_TrainID :: u64
  p_ID :: u64
  p_Seq :: u16
  p_Count :: u16
  p_SendMS :: u64
  p_TargetBps :: u64
  p_Remaining :: u64
  p_Bytes :: int

record bw_ack =
  a_ID :: u64
  a_Count :: u16
  a_Received :: u64
  a_FirstRXMS :: u64
  a_LastRXMS :: u64

record bw_sample =
  s_BandwidthBps :: u64
  s_Loss :: rat
  s_ReferenceBps :: u64
  s_TargetBps :: u64

section \<open>Rates\<close>

abbreviation (input) defaultMinRateBps :: u64 where "defaultMinRateBps \<equiv> 16000000"
abbreviation (input) additiveStepBps :: u64 where "additiveStepBps \<equiv> 10000000"
abbreviation (input) trainWindow :: int where "trainWindow \<equiv> 2000000000"
abbreviation (input) second :: int where "second \<equiv> 1000000000"

definition nextRate :: "u64 \<Rightarrow> u64 \<Rightarrow> bool \<Rightarrow> u64" where
  "nextRate rt cap growthStalled =
    (if cap > 0 \<and> rt \<ge> cap then cap
     else if cap = 0 then (if growthStalled then rt else rt + additiveStepBps)
     else let gap = cap - rt in
       if gap > rt then rt * 2
       else if gap > rt div 4 then
         let st = gap div 2; st = (if st < additiveStepBps then additiveStepBps else st); nxt = rt + st
         in if nxt > cap then cap else nxt
       else let nxt = rt + 5000000 in if nxt > cap then cap else nxt)"

definition plateau :: "u64 list \<Rightarrow> bool" where
  "plateau stepBps =
    (if length stepBps < 3 then False
     else let n = length stepBps; lastMax = stepBps ! (n - 1);
              lastMax = (if stepBps ! (n - 2) > lastMax then stepBps ! (n - 2) else lastMax);
              prev = stepBps ! (n - 3)
          in rat_of_nat (unat lastMax) < rat_of_nat (unat prev) * (21 / 20))"

definition startRate :: "u64 \<Rightarrow> u64 \<Rightarrow> u64" where
  "startRate cap minRate =
    (if cap = 0 then minRate
     else let st = cap div 4; st = (if st < minRate then minRate else st) in if st > cap then cap else st)"

definition effectiveRate :: "u64 \<Rightarrow> u64 \<Rightarrow> u64 \<Rightarrow> u64" where
  "effectiveRate rt cap minRate =
    (let rt = (if rt = 0 then minRate else rt) in if cap > 0 \<and> rt > cap then cap else rt)"

definition trainBudgetBytesFor :: "u64 \<Rightarrow> int \<Rightarrow> u64" where
  "trainBudgetBytesFor rt window =
    (let rt = (if rt = 0 then defaultMinRateBps else rt); window = (if window \<le> 0 then trainWindow else window)
     in rt * word_of_int window div word_of_int second div 8)"

definition trainBudgetRate :: "u64 \<Rightarrow> u64 \<Rightarrow> u64 \<Rightarrow> u64" where
  "trainBudgetRate refBps cap minRate = (if refBps > 0 then refBps else if cap > 0 then cap else minRate)"

definition stepFrameCount :: "u64 \<Rightarrow> int \<Rightarrow> int \<Rightarrow> u16" where
  "stepFrameCount rt stepWindow bytesPerProbe =
    (let bytesPerProbe = (if bytesPerProbe \<le> 0 then 1200 else bytesPerProbe);
         bytesPerStep = rt * word_of_int stepWindow div word_of_int second div 8;
         n = bytesPerStep div word_of_int bytesPerProbe;
         n = (if n < 2 then 2 else n); n = (if n > 64 then 64 else n)
     in ucast n)"

definition bandwidthBps :: "u64 \<Rightarrow> u64 \<Rightarrow> u64 \<Rightarrow> u64" where
  "bandwidthBps receivedBytes firstMS lastMS =
    (if receivedBytes = 0 \<or> lastMS \<le> firstMS then 0
     else let d = lastMS - firstMS; d = (if d = 0 then 1 else d) in receivedBytes * 8 * 1000 div d)"

definition payloadSize :: "int \<Rightarrow> int \<Rightarrow> u64 \<Rightarrow> u16 \<Rightarrow> int" where
  "payloadSize lo hi trainID sq =
    (if hi \<le> lo then lo
     else let spn = word_of_int (hi - lo + 1) :: u64;
              x = trainID * 0x9E3779B97F4A7C15 + ucast sq * 0xBF58476D1CE4E5B9;
              x = x XOR drop_bit 30 x; x = x * 0xBF58476D1CE4E5B9; x = x XOR drop_bit 27 x
          in lo + uint (x mod spn))"

definition capReached :: "u64 \<Rightarrow> u64 \<Rightarrow> bool" where
  "capReached measured cap = (if cap = 0 \<or> measured = 0 then False else measured \<ge> cap * 995 div 1000)"

definition aggregateLoss :: "u64 \<Rightarrow> u64 \<Rightarrow> rat" where
  "aggregateLoss sentFrames ackedFrames =
    (if sentFrames = 0 then 1
     else let acked = (if ackedFrames > sentFrames then sentFrames else ackedFrames)
          in rat_of_nat (unat (sentFrames - acked)) / rat_of_nat (unat sentFrames))"

lemma ratio_range: "b \<le> a \<Longrightarrow> 0 < a \<Longrightarrow> 0 \<le> rat_of_nat b / rat_of_nat a \<and> rat_of_nat b / rat_of_nat a \<le> 1"
  by simp

lemma aggregateLoss_range: "0 \<le> aggregateLoss s a \<and> aggregateLoss s a \<le> 1"
proof (cases "s = 0")
  case False
  let ?a = "if a > s then s else a"
  have "?a \<le> s" by auto
  then have "unat (s - ?a) \<le> unat s" by (simp add: unat_sub)
  moreover have "0 < unat s" using False by (simp add: unat_gt_0)
  ultimately show ?thesis unfolding aggregateLoss_def Let_def if_not_P [OF False] by (rule ratio_range)
qed (simp add: aggregateLoss_def)

section \<open>The climb of the rate\<close>

text \<open>The arithmetic of one step below a cap that fits 63 bits does not wrap.\<close>

lemma word_gap: "unat (c - r :: u64) = unat c - unat r" if "r \<le> c"
  using that by (simp add: unat_sub)

lemma unat_plus_small: "unat (a :: u64) + unat b < 2 ^ 64 \<Longrightarrow> unat (a + b) = unat a + unat b"
  by (simp add: unat_word_ariths)

lemma nextRate_nat:
  assumes cap: "0 < cap" "unat cap < 2 ^ 63" and r: "rt \<le> cap"
  shows "unat (nextRate rt cap st) =
    (let c = unat cap; r = unat rt; gap = c - r in
     if gap = 0 then c else if gap > r then 2 * r
     else if gap > r div 4 then min c (r + max (gap div 2) 10000000) else min c (r + 5000000))"
proof (cases "rt = cap")
  case False
  have lt: "unat rt < unat cap" using r False by (metis le_neq_trans word_less_nat_alt)
  note gap = word_gap [OF r]
  have capped: "unat (if rt + x > cap then cap else rt + x) = min (unat cap) (unat rt + unat x)"
    if "unat rt + unat x < 2 ^ 64" for x
    using unat_plus_small [OF that] by (simp add: word_less_nat_alt)
  have guard: "\<not> rt \<ge> cap" "cap \<noteq> 0" using cap lt by (auto simp: word_le_nat_alt)
  show ?thesis
  proof (cases "cap - rt > rt")
    case True
    then have "unat rt < unat cap - unat rt" by (simp add: word_less_nat_alt gap)
    moreover have "unat (rt * 2) = unat rt * 2" using calculation cap lt by (simp add: unat_word_ariths)
    ultimately show ?thesis using lt True guard by (simp add: nextRate_def Let_def)
  next
    case nbig: False
    then have n: "\<not> unat rt < unat cap - unat rt" by (simp add: word_less_nat_alt gap)
    show ?thesis
    proof (cases "cap - rt > rt div 4")
      case True
      then have t: "unat rt div 4 < unat cap - unat rt" by (simp add: word_less_nat_alt gap unat_div)
      let ?st = "if (cap - rt) div 2 < 10000000 then 10000000 else (cap - rt) div 2"
      have st: "unat ?st = max ((unat cap - unat rt) div 2) 10000000"
        by (simp add: word_less_nat_alt gap unat_div max_def)
      have "unat rt + unat ?st < 2 ^ 64" using lt cap st by auto
      from capped [OF this] have "unat (if rt + ?st > cap then cap else rt + ?st) =
        min (unat cap) (unat rt + max ((unat cap - unat rt) div 2) 10000000)" unfolding st .
      then show ?thesis using lt True nbig n t guard by (simp add: nextRate_def Let_def)
    next
      case False
      then have t: "\<not> unat rt div 4 < unat cap - unat rt" by (simp add: word_less_nat_alt gap unat_div)
      have "unat rt + unat (5000000 :: u64) < 2 ^ 64" using lt cap by simp
      from capped [OF this] have "unat (if rt + 5000000 > cap then cap else rt + 5000000) = min (unat cap) (unat rt + 5000000)" by simp
      then show ?thesis using lt False nbig n t guard by (simp add: nextRate_def Let_def)
    qed
  qed
qed (use cap in \<open>simp add: nextRate_def\<close>)

text \<open>The rate of the \<open>n\<close>-th step of a capped train, as \<open>run\<close> computes it.\<close>

fun trainRate :: "u64 \<Rightarrow> u64 \<Rightarrow> (nat \<Rightarrow> bool) \<Rightarrow> nat \<Rightarrow> u64" where
  "trainRate cap minRate stalled 0 = effectiveRate (startRate cap minRate) cap minRate"
| "trainRate cap minRate stalled (Suc n) =
    effectiveRate (nextRate (trainRate cap minRate stalled n) cap (stalled n)) cap minRate"

lemma effective_id: "0 < rt \<Longrightarrow> rt \<le> cap \<Longrightarrow> effectiveRate rt cap m = rt"
  by (auto simp: effectiveRate_def)



text \<open>The byte budget of a train is exact for rates up to \<open>9.2 * 10 ^ 9\<close> bits per second and wraps above.\<close>

lemma train_budget_exact:
  assumes "0 < rt" "unat rt \<le> 9223372036"
  shows "unat (trainBudgetBytesFor rt trainWindow) = unat rt div 4"
proof -
  have "unat (rt * 2000000000) = unat rt * 2000000000" using assms by (simp add: unat_word_ariths)
  then have "unat (rt * 2000000000 div 1000000000 div 8) = unat rt * 2000000000 div 1000000000 div 8"
    by (simp add: unat_div)
  then show ?thesis using assms by (simp add: trainBudgetBytesFor_def Let_def)
qed

lemma train_budget_wraps: "trainBudgetBytesFor 10000000000 trainWindow = 194156990 \<and> 10000000000 div 4 = (2500000000 :: nat)"
  by (simp add: trainBudgetBytesFor_def)

section \<open>Bit sets of a round\<close>

record 's mask_ops =
  mo_new :: "nat \<Rightarrow> 's"
  mo_set :: "'s \<Rightarrow> nat \<Rightarrow> 's"
  mo_test :: "'s \<Rightarrow> nat \<Rightarrow> bool"
  mo_count :: "'s \<Rightarrow> nat"
  mo_word :: "'s \<Rightarrow> u64"
  mo_from :: "nat \<Rightarrow> u64 \<Rightarrow> 's"
  mo_union :: "'s \<Rightarrow> 's \<Rightarrow> 's"

text \<open>\<open>mo_word\<close> is the first of the set's \<open>Words\<close>, zero when it has none.\<close>

locale mask_laws =
  fixes M :: "'s mask_ops"
  assumes mtest_new [simp]: "\<not> mo_test M (mo_new M n) i"
    and mtest_set [simp]: "i < 64 \<Longrightarrow> j < 64 \<Longrightarrow> mo_test M (mo_set M b i) j \<longleftrightarrow> i = j \<or> mo_test M b j"
    and mcount: "mo_count M b = card {i. i < 64 \<and> mo_test M b i}"
    and mword: "i < 64 \<Longrightarrow> bit (mo_word M b) i \<longleftrightarrow> mo_test M b i"
    and mtest_from: "n \<le> 64 \<Longrightarrow> unat w < 2 ^ n \<Longrightarrow> i < 64 \<Longrightarrow> mo_test M (mo_from M n w) i \<longleftrightarrow> bit w i"
    and mtest_union [simp]: "i < 64 \<Longrightarrow> mo_test M (mo_union M a b) i \<longleftrightarrow> mo_test M a i \<or> mo_test M b i"

definition word_mask :: "u64 mask_ops" where
  "word_mask = \<lparr>mo_new = (\<lambda>_. 0), mo_set = (\<lambda>b i. set_bit i b), mo_test = bit, mo_count = onesCount64,
     mo_word = id, mo_from = (\<lambda>_ w. w), mo_union = (\<lambda>a b. a OR b)\<rparr>"

interpretation wm: mask_laws word_mask
proof
  fix b :: u64
  have "{i. i < 64 \<and> bit b i} = set (filter (bit b) [0..<64])" by auto
  then have "card {i. i < 64 \<and> bit b i} = length (filter (bit b) [0..<64])" by (simp add: distinct_card del: set_filter)
  then show "mo_count word_mask b = card {i. i < 64 \<and> mo_test word_mask b i}"
    by (simp add: word_mask_def onesCount64_def)
qed (auto simp: word_mask_def bit_set_bit_iff bit_or_iff)

section \<open>The passive side\<close>

record 's passiveRound =
  r_count :: u16
  r_received :: 's
  r_firstRXMS :: u64
  r_lastRXMS :: u64
  r_bytes :: "int list"
  r_complete :: bool
  r_completedAt :: int

record passiveTrain =
  t_rounds :: "(u64 \<times> nat) list"
  t_targetBps :: u64
  t_complete :: bool
  t_completedAt :: int

text \<open>A round is shared by the table of rounds and its train, so both hold references into \<open>rheap\<close>.\<close>

record 's receive =
  ackEvery :: u16
  hasOnSample :: bool
  rheap :: "'s passiveRound list"
  rounds :: "(u64 \<times> nat) list"
  trains :: "(u64 \<times> passiveTrain) list"

definition NewReceive :: "u16 \<Rightarrow> bool \<Rightarrow> 's receive" where
  "NewReceive n cb = \<lparr>ackEvery = (if n = 0 then 16 else n), hasOnSample = cb, rheap = [], rounds = [], trains = []\<rparr>"

text \<open>A pruned round keeps its heap slot: a train may still refer to it.\<close>

definition pruneLocked :: "int \<Rightarrow> 's receive \<Rightarrow> 's receive" where
  "pruneLocked now r = r\<lparr>
     rounds := filter (\<lambda>(i, k). \<not> (r_complete (rheap r ! k) \<and> now - r_completedAt (rheap r ! k) > 2000000000)) (rounds r),
     trains := filter (\<lambda>(i, t). \<not> (t_complete t \<and> now - t_completedAt t > 2000000000)) (trains r)\<rparr>"

definition roundBytes :: "'s mask_ops \<Rightarrow> 's passiveRound \<Rightarrow> u64" where
  "roundBytes M d = fold (\<lambda>i acc. if r_bytes d ! i \<le> 0 \<or> \<not> mo_test M (r_received d) i then acc
     else acc + word_of_int (r_bytes d ! i)) [0..<length (r_bytes d)] 0"

definition trainSample :: "'s mask_ops \<Rightarrow> 's passiveRound list \<Rightarrow> passiveTrain \<Rightarrow> bw_sample" where
  "trainSample M h t =
    (case fold (\<lambda>(i, k) (best, expected, got).
        let d = h ! k in
        if r_count d = 0 then (best, expected, got)
        else let bps = bandwidthBps (roundBytes M d) (r_firstRXMS d) (r_lastRXMS d)
             in (if bps > best then bps else best, expected + ucast (r_count d), got + of_nat (mo_count M (r_received d))))
       (t_rounds t) (0, 0, 0) of
     (best, expected, got) \<Rightarrow> \<lparr>s_BandwidthBps = best, s_Loss = aggregateLoss expected got, s_ReferenceBps = 0, s_TargetBps = t_targetBps t\<rparr>)"

text \<open>The round of a probe, found or made, with the probe recorded in it.\<close>

definition takeRound :: "'s mask_ops \<Rightarrow> bw_probe \<Rightarrow> u64 \<Rightarrow> 's receive \<Rightarrow> 's receive \<times> nat" where
  "takeRound M p nowMS r =
    (case map_of (rounds r) (p_ID p) of
       Some k \<Rightarrow> if r_count (rheap r ! k) = p_Count p then (r, k) else
         (r\<lparr>rheap := rheap r @ [\<lparr>r_count = p_Count p, r_received = mo_new M (unat (p_Count p)), r_firstRXMS = nowMS,
              r_lastRXMS = 0, r_bytes = replicate (unat (p_Count p)) 0, r_complete = False, r_completedAt = 0\<rparr>],
            rounds := AList.update (p_ID p) (length (rheap r)) (rounds r)\<rparr>, length (rheap r))
     | None \<Rightarrow>
         (r\<lparr>rheap := rheap r @ [\<lparr>r_count = p_Count p, r_received = mo_new M (unat (p_Count p)), r_firstRXMS = nowMS,
              r_lastRXMS = 0, r_bytes = replicate (unat (p_Count p)) 0, r_complete = False, r_completedAt = 0\<rparr>],
            rounds := AList.update (p_ID p) (length (rheap r)) (rounds r)\<rparr>, length (rheap r)))"

definition noteProbe :: "'s mask_ops \<Rightarrow> bw_probe \<Rightarrow> int \<Rightarrow> 's passiveRound \<Rightarrow> 's passiveRound \<times> bool" where
  "noteProbe M p now d =
    (let nowMS = unixMilli now;
         rcv = mo_set M (r_received d) (unat (p_Seq p));
         full = (mo_count M rcv \<ge> unat (r_count d))
     in (d\<lparr>r_received := rcv, r_bytes := (r_bytes d)[unat (p_Seq p) := p_Bytes p],
            r_firstRXMS := (if r_firstRXMS d = 0 \<or> nowMS < r_firstRXMS d then nowMS else r_firstRXMS d),
            r_lastRXMS := (if nowMS > r_lastRXMS d then nowMS else r_lastRXMS d),
            r_complete := (r_complete d \<or> full),
            r_completedAt := (if full \<and> \<not> r_complete d then now else r_completedAt d)\<rparr>, full))"

text \<open>The train part: the train with the round entered, and the sample when it completes.\<close>

definition noteTrain :: "'s mask_ops \<Rightarrow> bw_probe \<Rightarrow> int \<Rightarrow> nat \<Rightarrow> 's receive \<Rightarrow> 's receive \<times> bw_sample option" where
  "noteTrain M p now k r =
    (if p_TrainID p = 0 then (r, None)
     else
       let t = (case map_of (trains r) (p_TrainID p) of Some t \<Rightarrow> t
                | None \<Rightarrow> \<lparr>t_rounds = [], t_targetBps = 0, t_complete = False, t_completedAt = 0\<rparr>);
           t = (if t_targetBps t = 0 then t\<lparr>t_targetBps := p_TargetBps p\<rparr> else t);
           t = t\<lparr>t_rounds := AList.update (p_ID p) k (t_rounds t)\<rparr>
       in if p_Remaining p = 0 \<and> \<not> t_complete t then
            let t = t\<lparr>t_complete := True, t_completedAt := now\<rparr>
            in (r\<lparr>trains := AList.update (p_TrainID p) t (trains r)\<rparr>, Some (trainSample M (rheap r) t))
          else (r\<lparr>trains := AList.update (p_TrainID p) t (trains r)\<rparr>, None))"

definition noAck :: bw_ack where
  "noAck = \<lparr>a_ID = 0, a_Count = 0, a_Received = 0, a_FirstRXMS = 0, a_LastRXMS = 0\<rparr>"

text \<open>\<open>Receive.Probe\<close>: the ack, whether it is due, and the call of \<open>OnSample\<close>.\<close>

definition receiveProbe ::
  "'s mask_ops \<Rightarrow> bw_probe \<Rightarrow> int \<Rightarrow> 's receive \<Rightarrow> 's receive \<times> bw_ack \<times> bool \<times> (u64 \<times> bw_sample) option" where
  "receiveProbe M p now r =
    (if p_Count p = 0 \<or> p_Count p > 64 \<or> p_Seq p \<ge> p_Count p then (r, noAck, False, None)
     else case takeRound M p (unixMilli now) (pruneLocked now r) of (r, k) \<Rightarrow>
       (case noteProbe M p now (rheap r ! k) of (d, full) \<Rightarrow>
         let r = r\<lparr>rheap := (rheap r)[k := d]\<rparr>;
             shouldAck = (full \<or> p_Seq p + 1 = r_count d \<or> (p_Seq p + 1) mod ackEvery r = 0);
             ack = \<lparr>a_ID = p_ID p, a_Count = r_count d, a_Received = mo_word M (r_received d),
                    a_FirstRXMS = r_firstRXMS d, a_LastRXMS = r_lastRXMS d\<rparr>
         in case noteTrain M p now k r of (r, smp) \<Rightarrow>
           (r, ack, shouldAck, if hasOnSample r then map_option (Pair (p_TrainID p)) smp else None)))"

fun receive_run :: "'s mask_ops \<Rightarrow> (bw_probe \<times> int) list \<Rightarrow> 's receive \<Rightarrow> 's receive" where
  "receive_run M [] r = r"
| "receive_run M ((p, now) # ps) r = receive_run M ps (fst (receiveProbe M p now r))"

section \<open>What an acknowledgement says\<close>

definition probe_ok :: "bw_probe \<Rightarrow> bool" where
  "probe_ok p \<longleftrightarrow> \<not> (p_Count p = 0 \<or> p_Count p > 64 \<or> p_Seq p \<ge> p_Count p)"

text \<open>The probes of round \<open>i\<close> among those of a history.\<close>

definition of_round :: "u64 \<Rightarrow> (bw_probe \<times> int) list \<Rightarrow> (bw_probe \<times> int) list" where
  "of_round i H = filter (\<lambda>(p, t). probe_ok p \<and> p_ID p = i) H"

definition arrived :: "u64 \<Rightarrow> (bw_probe \<times> int) list \<Rightarrow> nat set" where
  "arrived i H = (\<lambda>(p, t). unat (p_Seq p)) ` set (of_round i H)"

text \<open>A history within the keepalive of rounds and trains, in which a round has one count.\<close>

definition fresh_history :: "int \<Rightarrow> (bw_probe \<times> int) list \<Rightarrow> bool" where
  "fresh_history t0 H \<longleftrightarrow> (\<forall>(p, t) \<in> set H. t0 \<le> t \<and> t \<le> t0 + 2000000000)
    \<and> (\<forall>(p, t) \<in> set H. \<forall>(q, u) \<in> set H. p_ID p = p_ID q \<longrightarrow> p_Count p = p_Count q)"

lemma fresh_mono: "fresh_history t0 H' \<Longrightarrow> set H \<subseteq> set H' \<Longrightarrow> fresh_history t0 H"
  unfolding fresh_history_def by blast

lemma arrived_less: "i \<in> arrived j H \<Longrightarrow> i < 64"
  unfolding arrived_def of_round_def
proof (elim imageE, clarsimp)
  fix p :: bw_probe assume "probe_ok p"
  then have "\<not> 64 < unat (p_Count p)" "unat (p_Seq p) < unat (p_Count p)"
    by (auto simp: probe_ok_def word_le_nat_alt word_less_nat_alt)
  then show "unat (p_Seq p) < 64" by simp
qed

definition round_inv :: "'s mask_ops \<Rightarrow> int \<Rightarrow> (bw_probe \<times> int) list \<Rightarrow> 's passiveRound \<Rightarrow> bool" where
  "round_inv M t0 H d \<longleftrightarrow> H \<noteq> [] \<and> (\<forall>(p, t) \<in> set H. p_Count p = r_count d)
    \<and> length (r_bytes d) = unat (r_count d) \<and> (\<forall>i < 64. mo_test M (r_received d) i \<longleftrightarrow> i \<in> (\<lambda>(p, t). unat (p_Seq p)) ` set H)
    \<and> (r_complete d \<longrightarrow> t0 \<le> r_completedAt d)"

definition receive_inv :: "'s mask_ops \<Rightarrow> int \<Rightarrow> (bw_probe \<times> int) list \<Rightarrow> 's receive \<Rightarrow> bool" where
  "receive_inv M t0 H r \<longleftrightarrow>
    (\<forall>i. case map_of (rounds r) i of None \<Rightarrow> of_round i H = []
       | Some k \<Rightarrow> k < length (rheap r) \<and> round_inv M t0 (of_round i H) (rheap r ! k))
    \<and> (\<forall>i j k. map_of (rounds r) i = Some k \<longrightarrow> map_of (rounds r) j = Some k \<longrightarrow> i = j)
    \<and> distinct (map fst (rounds r)) \<and> distinct (map fst (trains r))
    \<and> (\<forall>T t. map_of (trains r) T = Some t \<longrightarrow> (t_complete t \<longrightarrow> t0 \<le> t_completedAt t))
    \<and> (\<forall>T. T \<noteq> 0 \<longrightarrow> (\<exists>t. map_of (trains r) T = Some t \<and> t_complete t)
         \<longleftrightarrow> (\<exists>(p, t) \<in> set H. probe_ok p \<and> p_TrainID p = T \<and> p_Remaining p = 0))"


lemma prune_fresh:
  assumes inv: "receive_inv M t0 H r" and now: "now \<le> t0 + 2000000000"
  shows "pruneLocked now r = r"
proof -
  have "filter (\<lambda>(i, k). \<not> (r_complete (rheap r ! k) \<and> now - r_completedAt (rheap r ! k) > 2000000000)) (rounds r) = rounds r"
  proof (rule filter_True, safe)
    fix i k assume "(i, k) \<in> set (rounds r)" and c: "r_complete (rheap r ! k)" and l: "2000000000 < now - r_completedAt (rheap r ! k)"
    then have "map_of (rounds r) i = Some k" using inv by (simp add: receive_inv_def)
    then have "round_inv M t0 (of_round i H) (rheap r ! k)" using inv by (auto simp: receive_inv_def dest: spec [of _ i])
    then show False using c l now by (simp add: round_inv_def)
  qed
  moreover have "filter (\<lambda>(i, t). \<not> (t_complete t \<and> now - t_completedAt t > 2000000000)) (trains r) = trains r"
  proof (rule filter_True, safe)
    fix i t assume "(i, t) \<in> set (trains r)" and c: "t_complete t" and l: "2000000000 < now - t_completedAt t"
    then have "map_of (trains r) i = Some t" using inv by (simp add: receive_inv_def)
    then have "t0 \<le> t_completedAt t" using inv c unfolding receive_inv_def by blast
    then show False using l now by simp
  qed
  ultimately show ?thesis by (simp add: pruneLocked_def)
qed

text \<open>The round that a probe finds or makes, before the probe is recorded.\<close>

definition round_pre :: "'s mask_ops \<Rightarrow> int \<Rightarrow> u16 \<Rightarrow> (bw_probe \<times> int) list \<Rightarrow> 's passiveRound \<Rightarrow> bool" where
  "round_pre M t0 c H d \<longleftrightarrow> r_count d = c \<and> length (r_bytes d) = unat c
    \<and> (\<forall>i < 64. mo_test M (r_received d) i \<longleftrightarrow> i \<in> (\<lambda>(p, t). unat (p_Seq p)) ` set H) \<and> (r_complete d \<longrightarrow> t0 \<le> r_completedAt d)"

context mask_laws
begin

lemma take_round:
  assumes inv: "receive_inv M t0 H r" and one: "\<forall>(q, u) \<in> set (of_round (p_ID p) H). p_Count q = p_Count p"
  obtains r' k where "takeRound M p nowMS r = (r', k)" "k < length (rheap r')" "map_of (rounds r') (p_ID p) = Some k"
    "round_pre M t0 (p_Count p) (of_round (p_ID p) H) (rheap r' ! k)" "trains r' = trains r"
    "ackEvery r' = ackEvery r" "hasOnSample r' = hasOnSample r" "distinct (map fst (rounds r'))"
    "\<And>i. i \<noteq> p_ID p \<Longrightarrow> map_of (rounds r') i = map_of (rounds r) i"
    "\<And>i j. i \<noteq> p_ID p \<Longrightarrow> map_of (rounds r) i = Some j \<Longrightarrow> j \<noteq> k \<and> j < length (rheap r') \<and> rheap r' ! j = rheap r ! j"
proof (cases "map_of (rounds r) (p_ID p)")
  case None
  then have e: "of_round (p_ID p) H = []" using inv by (auto simp: receive_inv_def dest: spec [of _ "p_ID p"])
  have old: "j < length (rheap r)" if "map_of (rounds r) i = Some j" for i j
    using inv that by (auto simp: receive_inv_def dest: spec [of _ i])
  show ?thesis
    by (rule that [OF takeRound_def [of M p nowMS r, unfolded None option.case]])
       (use inv None e old in \<open>auto simp: round_pre_def nth_append update_conv' distinct_update receive_inv_def dest!: old intro: less_SucI\<close>)
next
  case (Some k)
  then have k: "k < length (rheap r)" "round_inv M t0 (of_round (p_ID p) H) (rheap r ! k)"
    using inv by (auto simp: receive_inv_def dest: spec [of _ "p_ID p"])
  have c: "r_count (rheap r ! k) = p_Count p" using k(2) one unfolding round_inv_def by (cases "of_round (p_ID p) H") auto
  have old: "j \<noteq> k \<and> j < length (rheap r)" if "i \<noteq> p_ID p" "map_of (rounds r) i = Some j" for i j
    using inv that Some unfolding receive_inv_def by (metis (no_types, lifting) option.case(2))
  show ?thesis
    by (rule that [of r k]) (use Some k c old inv in \<open>auto simp: takeRound_def round_pre_def round_inv_def receive_inv_def\<close>)
qed

lemma note_probe:
  assumes pre: "round_pre M t0 (p_Count p) H d" and ok: "probe_ok p" and now: "t0 \<le> now"
    and H: "\<forall>(q, u) \<in> set H. p_Count q = p_Count p \<and> probe_ok q" and n: "noteProbe M p now d = (d', full)"
  shows "round_inv M t0 (H @ [(p, now)]) d'" "r_count d' = p_Count p"
    "full \<longleftrightarrow> card ((\<lambda>(q, t). unat (p_Seq q)) ` set (H @ [(p, now)])) \<ge> unat (p_Count p)"
proof -
  have sq: "unat (p_Seq p) < 64" "unat (p_Seq p) < unat (p_Count p)" "unat (p_Count p) \<le> 64"
    using ok by (auto simp: probe_ok_def word_le_nat_alt word_less_nat_alt)
  let ?A = "(\<lambda>(q, t). unat (p_Seq q)) ` set (H @ [(p, now)])"
  have rec: "r_received d' = mo_set M (r_received d) (unat (p_Seq p))" "r_count d' = r_count d"
    "length (r_bytes d') = length (r_bytes d)" "r_complete d' \<longrightarrow> t0 \<le> r_completedAt d'"
    "full = (mo_count M (r_received d') \<ge> unat (r_count d'))"
    using n pre now by (auto simp: noteProbe_def round_pre_def Let_def)
  have tests: "mo_test M (r_received d') i \<longleftrightarrow> i \<in> ?A" if "i < 64" for i
    using that sq pre by (auto simp: rec(1) round_pre_def)
  have "?A \<subseteq> {..<64}" using H sq by (fastforce simp: probe_ok_def word_le_nat_alt word_less_nat_alt)
  then have "i < 64" if "i \<in> ?A" for i using that by blast
  then have "{i. i < 64 \<and> mo_test M (r_received d') i} = ?A" using tests by (intro equalityI subsetI) blast+
  then show "full \<longleftrightarrow> card ?A \<ge> unat (p_Count p)" using pre rec by (simp add: mcount round_pre_def)
  show "r_count d' = p_Count p" using pre rec by (simp add: round_pre_def)
  then show "round_inv M t0 (H @ [(p, now)]) d'" unfolding round_inv_def using pre rec tests H by (auto simp: round_pre_def)
qed

lemma note_train:
  "noteTrain M p now k r = (r', smp) \<Longrightarrow> rheap r' = rheap r \<and> rounds r' = rounds r \<and> ackEvery r' = ackEvery r
    \<and> hasOnSample r' = hasOnSample r
    \<and> (\<forall>T. T \<noteq> p_TrainID p \<longrightarrow> map_of (trains r') T = map_of (trains r) T)
    \<and> (p_TrainID p \<noteq> 0 \<longrightarrow> (\<exists>t. map_of (trains r') (p_TrainID p) = Some t
        \<and> (t_complete t \<longleftrightarrow> p_Remaining p = 0 \<or> (\<exists>u. map_of (trains r) (p_TrainID p) = Some u \<and> t_complete u))
        \<and> (t_complete t \<longrightarrow> t_completedAt t = now \<or> (\<exists>u. map_of (trains r) (p_TrainID p) = Some u \<and> t_complete u \<and> t_completedAt t = t_completedAt u))))
    \<and> (distinct (map fst (trains r)) \<longrightarrow> distinct (map fst (trains r')))
    \<and> (smp \<noteq> None \<longleftrightarrow> p_TrainID p \<noteq> 0 \<and> p_Remaining p = 0 \<and> \<not> (\<exists>u. map_of (trains r) (p_TrainID p) = Some u \<and> t_complete u))
    \<and> (p_TrainID p = 0 \<longrightarrow> r' = r)"
  by (cases "map_of (trains r) (p_TrainID p)")
     (auto simp: noteTrain_def Let_def update_conv' distinct_update split: if_splits)


lemma of_round_snoc: "of_round i (H @ [(p, now)]) = of_round i H @ (if probe_ok p \<and> p_ID p = i then [(p, now)] else [])"
  by (simp add: of_round_def)

lemma receive_step:
  assumes inv: "receive_inv M t0 H r" and fresh: "fresh_history t0 (H @ [(p, now)])" and ok: "probe_ok p"
    and st: "receiveProbe M p now r = (r', a, due, smp)"
  shows "receive_inv M t0 (H @ [(p, now)]) r'" "ackEvery r' = ackEvery r \<and> hasOnSample r' = hasOnSample r"
    "a_ID a = p_ID p \<and> a_Count a = p_Count p"
    "\<And>i. i < 64 \<Longrightarrow> bit (a_Received a) i \<longleftrightarrow> i \<in> arrived (p_ID p) (H @ [(p, now)])"
    "due \<longleftrightarrow> card (arrived (p_ID p) (H @ [(p, now)])) \<ge> unat (p_Count p) \<or> p_Seq p + 1 = p_Count p \<or> (p_Seq p + 1) mod ackEvery r = 0"
    "smp \<noteq> None \<longleftrightarrow> hasOnSample r \<and> p_TrainID p \<noteq> 0 \<and> p_Remaining p = 0
      \<and> \<not> (\<exists>(q, u) \<in> set H. probe_ok q \<and> p_TrainID q = p_TrainID p \<and> p_Remaining q = 0)"
proof -
  let ?i = "p_ID p"
  have now: "t0 \<le> now" "now \<le> t0 + 2000000000" using fresh by (auto simp: fresh_history_def)
  have one: "\<forall>(q, u) \<in> set (of_round ?i H). p_Count q = p_Count p \<and> probe_ok q"
    using fresh by (fastforce simp: fresh_history_def of_round_def)
  have one': "\<forall>(q, u) \<in> set (of_round ?i H). p_Count q = p_Count p" using one by blast
  obtain r1 k where tk: "takeRound M p (unixMilli now) r = (r1, k)" "k < length (rheap r1)" "map_of (rounds r1) ?i = Some k"
    "round_pre M t0 (p_Count p) (of_round ?i H) (rheap r1 ! k)" "trains r1 = trains r"
    "ackEvery r1 = ackEvery r" "hasOnSample r1 = hasOnSample r" "distinct (map fst (rounds r1))"
    "\<And>i. i \<noteq> ?i \<Longrightarrow> map_of (rounds r1) i = map_of (rounds r) i"
    "\<And>i j. i \<noteq> ?i \<Longrightarrow> map_of (rounds r) i = Some j \<Longrightarrow> j \<noteq> k \<and> j < length (rheap r1) \<and> rheap r1 ! j = rheap r ! j"
    by (rule take_round [OF inv one', of "unixMilli now"]) (rule that; assumption)
  obtain d full where np: "noteProbe M p now (rheap r1 ! k) = (d, full)" by (meson surj_pair)
  note d = note_probe [OF tk(4) ok now(1) one np]
  let ?r2 = "r1\<lparr>rheap := (rheap r1)[k := d]\<rparr>"
  obtain r3 s where nt: "noteTrain M p now k ?r2 = (r3, s)" by (meson surj_pair)
  note t = note_train [OF nt]
  have guard: "\<not> (p_Count p = 0 \<or> p_Count p > 64 \<or> p_Seq p \<ge> p_Count p)" using ok by (simp add: probe_ok_def)
  have res: "r' = r3" "a = \<lparr>a_ID = ?i, a_Count = r_count d, a_Received = mo_word M (r_received d), a_FirstRXMS = r_firstRXMS d, a_LastRXMS = r_lastRXMS d\<rparr>"
    "due = (full \<or> p_Seq p + 1 = r_count d \<or> (p_Seq p + 1) mod ackEvery r1 = 0)"
    "smp = (if hasOnSample r3 then map_option (Pair (p_TrainID p)) s else None)"
    using st [unfolded receiveProbe_def if_not_P [OF guard] prune_fresh [OF inv now(2)] tk(1) prod.case np Let_def nt] by auto
  have arr: "arrived ?i (H @ [(p, now)]) = (\<lambda>(q, t). unat (p_Seq q)) ` set (of_round ?i H @ [(p, now)])"
    using ok by (simp add: arrived_def of_round_snoc)
  show "ackEvery r' = ackEvery r \<and> hasOnSample r' = hasOnSample r" using t tk(6,7) res(1) by simp
  show "a_ID a = p_ID p \<and> a_Count a = p_Count p" using d(2) res(2) by simp
  show "bit (a_Received a) i \<longleftrightarrow> i \<in> arrived ?i (H @ [(p, now)])" if "i < 64" for i
    using that d(1) unfolding arr round_inv_def by (simp add: res(2) mword)
  show "due \<longleftrightarrow> card (arrived ?i (H @ [(p, now)])) \<ge> unat (p_Count p) \<or> p_Seq p + 1 = p_Count p \<or> (p_Seq p + 1) mod ackEvery r = 0"
    unfolding res(3) d(3) arr d(2) tk(6) ..
  have comp: "(\<exists>u. map_of (trains r) (p_TrainID p) = Some u \<and> t_complete u) \<longleftrightarrow>
      (\<exists>(q, u) \<in> set H. probe_ok q \<and> p_TrainID q = p_TrainID p \<and> p_Remaining q = 0)" if "p_TrainID p \<noteq> 0"
    using inv that unfolding receive_inv_def by blast
  show "smp \<noteq> None \<longleftrightarrow> hasOnSample r \<and> p_TrainID p \<noteq> 0 \<and> p_Remaining p = 0
      \<and> \<not> (\<exists>(q, u) \<in> set H. probe_ok q \<and> p_TrainID q = p_TrainID p \<and> p_Remaining q = 0)"
    using t comp tk(5,7) by (auto simp: res(4))
  have rds: "case map_of (rounds r3) i of None \<Rightarrow> of_round i (H @ [(p, now)]) = []
       | Some j \<Rightarrow> j < length (rheap r3) \<and> round_inv M t0 (of_round i (H @ [(p, now)])) (rheap r3 ! j)" for i
  proof (cases "i = ?i")
    case True
    then show ?thesis using t tk(2,3) d(1) ok by (simp add: of_round_snoc)
  next
    case False
    have o: "case map_of (rounds r) i of None \<Rightarrow> of_round i H = []
       | Some j \<Rightarrow> j < length (rheap r) \<and> round_inv M t0 (of_round i H) (rheap r ! j)"
      using inv unfolding receive_inv_def by blast
    show ?thesis
    proof (cases "map_of (rounds r) i")
      case None
      then show ?thesis using o t tk(9) [OF False] False by (simp add: of_round_snoc)
    next
      case (Some j)
      then show ?thesis using o t tk(9) [OF False] tk(10) [OF False Some] False by (simp add: of_round_snoc)
    qed
  qed
  have inj: "i = j" if "map_of (rounds r3) i = Some l" "map_of (rounds r3) j = Some l" for i j l
  proof -
    have m: "map_of (rounds r1) i = Some l" "map_of (rounds r1) j = Some l" using that t by simp_all
    have old: "i' = j'" if "map_of (rounds r) i' = Some l" "map_of (rounds r) j' = Some l" for i' j'
      using inv that unfolding receive_inv_def by blast
    show ?thesis
    proof (cases "i = ?i"; cases "j = ?i")
      assume "i = ?i" "j \<noteq> ?i"
      then show ?thesis using m tk(3) tk(9) [of j] tk(10) [of j l] by simp
    next
      assume "i \<noteq> ?i" "j = ?i"
      then show ?thesis using m tk(3) tk(9) [of i] tk(10) [of i l] by simp
    next
      assume "i \<noteq> ?i" "j \<noteq> ?i"
      then show ?thesis using m old tk(9) by metis
    qed simp
  qed
  have trn: "t0 \<le> t_completedAt u" if "map_of (trains r3) T = Some u" "t_complete u" for T u
  proof -
    have old: "t0 \<le> t_completedAt v" if "map_of (trains r) S = Some v" "t_complete v" for S v
      using inv that unfolding receive_inv_def by blast
    show ?thesis
    proof (cases "T = p_TrainID p \<and> p_TrainID p \<noteq> 0")
      case True
      then show ?thesis using t that old now(1) tk(5) by fastforce
    next
      case False
      then have "map_of (trains r) T = Some u" using t that tk(5) by (cases "p_TrainID p = 0") auto
      then show ?thesis using old that by blast
    qed
  qed
  have fin: "(\<exists>u. map_of (trains r3) T = Some u \<and> t_complete u) \<longleftrightarrow>
      (\<exists>(q, u) \<in> set (H @ [(p, now)]). probe_ok q \<and> p_TrainID q = T \<and> p_Remaining q = 0)" if "T \<noteq> 0" for T
  proof -
    have o: "(\<exists>u. map_of (trains r) T = Some u \<and> t_complete u) \<longleftrightarrow>
        (\<exists>(q, u) \<in> set H. probe_ok q \<and> p_TrainID q = T \<and> p_Remaining q = 0)"
      using inv that unfolding receive_inv_def by blast
    show ?thesis
    proof (cases "T = p_TrainID p")
      case True
      then show ?thesis using t that o tk(5) ok by auto
    next
      case False
      then have "map_of (trains r3) T = map_of (trains r) T" using t tk(5) by simp
      then show ?thesis using o False by auto
    qed
  qed
  have dist: "distinct (map fst (rounds r3))" "distinct (map fst (trains r3))"
    using t tk(5,8) inv by (auto simp: receive_inv_def)
  show "receive_inv M t0 (H @ [(p, now)]) r'"
    unfolding receive_inv_def res(1) using rds inj trn fin dist by blast
qed

lemma receive_run_inv:
  "receive_inv M t0 H r \<Longrightarrow> fresh_history t0 (H @ ps) \<Longrightarrow>
    receive_inv M t0 (H @ ps) (receive_run M ps r) \<and> ackEvery (receive_run M ps r) = ackEvery r
    \<and> hasOnSample (receive_run M ps r) = hasOnSample r"
proof (induction ps arbitrary: H r)
  case (Cons x ps)
  obtain p now where x: "x = (p, now)" by (meson surj_pair)
  obtain r' a due smp where st: "receiveProbe M p now r = (r', a, due, smp)" by (metis prod_cases4)
  have fr: "fresh_history t0 (H @ [(p, now)])" "fresh_history t0 ((H @ [(p, now)]) @ ps)"
    using Cons.prems(2) x by (auto intro!: fresh_mono [OF Cons.prems(2)])
  have "receive_inv M t0 (H @ [(p, now)]) r' \<and> ackEvery r' = ackEvery r \<and> hasOnSample r' = hasOnSample r"
  proof (cases "probe_ok p")
    case True
    show ?thesis using receive_step(1,2) [OF Cons.prems(1) fr(1) True st] by blast
  next
    case False
    then have "r' = r" using st by (auto simp: receiveProbe_def probe_ok_def)
    moreover have "of_round i (H @ [(p, now)]) = of_round i H" for i using False by (simp add: of_round_snoc)
    moreover have "(\<exists>(q, t) \<in> set (H @ [(p, now)]). probe_ok q \<and> p_TrainID q = T \<and> p_Remaining q = 0)
        \<longleftrightarrow> (\<exists>(q, t) \<in> set H. probe_ok q \<and> p_TrainID q = T \<and> p_Remaining q = 0)" for T
      using False by auto
    ultimately show ?thesis using Cons.prems(1) unfolding receive_inv_def by presburger
  qed
  then show ?case using Cons.IH [OF _ fr(2)] st x by simp
qed simp

lemma receive_inv_new: "receive_inv M t0 [] (NewReceive n cb)"
  by (simp add: receive_inv_def NewReceive_def of_round_def)

end

text \<open>Only what completed is ever pruned: a train whose last probe never comes is kept for good.\<close>

lemma unfinished_stays:
  "(i, t) \<in> set (trains r) \<Longrightarrow> \<not> t_complete t \<Longrightarrow> (i, t) \<in> set (trains (pruneLocked now r))"
  by (simp add: pruneLocked_def)

text \<open> C37: What the passive side acknowledges. After any probes within the keepalive, the acknowledgement of a
  valid probe carries its round, and bit i exactly when the round's probe i has arrived; it is due
  when the round is complete, at its last number and at every \<open>ackEvery\<close>-th; and a train yields
  a sample exactly once, at its first probe that says nothing remains. \<close>

theorem passive_acknowledges:
  assumes laws: "mask_laws M" and fresh: "fresh_history t0 (H @ [(p, now)])" and ok: "probe_ok p"
    and st: "receiveProbe M p now (receive_run M H (NewReceive n True)) = (r', a, due, smp)"
  shows "a_ID a = p_ID p \<and> a_Count a = p_Count p
    \<and> {i. bit (a_Received a) i} = arrived (p_ID p) (H @ [(p, now)])
    \<and> (due \<longleftrightarrow> card (arrived (p_ID p) (H @ [(p, now)])) \<ge> unat (p_Count p) \<or> p_Seq p + 1 = p_Count p
         \<or> (p_Seq p + 1) mod (if n = 0 then 16 else n) = 0)
    \<and> (smp \<noteq> None \<longleftrightarrow> p_TrainID p \<noteq> 0 \<and> p_Remaining p = 0
         \<and> \<not> (\<exists>(q, u) \<in> set H. probe_ok q \<and> p_TrainID q = p_TrainID p \<and> p_Remaining q = 0))"
proof -
  have fr: "fresh_history t0 ([] @ H)" using fresh_mono [OF fresh] by auto
  note run = mask_laws.receive_run_inv [OF laws mask_laws.receive_inv_new [OF laws] fr, of n True]
  note s = mask_laws.receive_step [OF laws run [THEN conjunct1, simplified] fresh ok st]
  have "i < 64" if "bit (a_Received a) i" for i using bit_imp_le_length [OF that] by simp
  then have "{i. bit (a_Received a) i} = arrived (p_ID p) (H @ [(p, now)])" using s(4) arrived_less by blast
  then show ?thesis using s(3,5,6) run by (simp add: NewReceive_def)
qed

definition demo_probe :: "u16 \<Rightarrow> u64 \<Rightarrow> bw_probe" where
  "demo_probe q rest = \<lparr>p_TrainID = 5, p_ID = 9, p_Seq = q, p_Count = 2, p_SendMS = 0, p_TargetBps = 100, p_Remaining = rest, p_Bytes = 1200\<rparr>"

lemma passive_acknowledges_witness:
  "\<exists>r' a due smp. receiveProbe word_mask (demo_probe 1 0) 1000000 (receive_run word_mask [(demo_probe 0 1200, 0)] (NewReceive 0 True)) = (r', a, due, smp)
    \<and> due \<and> smp \<noteq> None \<and> {i. bit (a_Received a) i} = {0, 1}"
proof -
  let ?H = "[(demo_probe 0 1200, 0)]" and ?p = "demo_probe 1 0"
  obtain r' a due smp where st: "receiveProbe word_mask ?p 1000000 (receive_run word_mask ?H (NewReceive 0 True)) = (r', a, due, smp)"
    by (metis prod_cases4)
  have fresh: "fresh_history 0 (?H @ [(?p, 1000000)])" by (simp add: fresh_history_def demo_probe_def)
  have ok: "probe_ok ?p" by (simp add: probe_ok_def demo_probe_def word_le_nat_alt)
  have arr: "arrived (p_ID ?p) (?H @ [(?p, 1000000)]) = {0, 1}"
    by (auto simp: arrived_def of_round_def probe_ok_def demo_probe_def word_le_nat_alt)
  show ?thesis
    using st passive_acknowledges [OF wm.mask_laws_axioms fresh ok st] unfolding arr by (auto simp: demo_probe_def)
qed

end
