(* ===== verification/BwTrain.thy ===== *)
theory BwTrain
  imports Bw
begin

text \<open>
  The active side of \<open>bw.go\<close>: a \<open>BwLoop\<close> is one train of probes in steps of rising rate. A step is known
  by its probe id, which is the key of \<open>stepsByID\<close>. The loop's goroutine and the acknowledgements that
  arrive are the step relation \<open>train_step\<close>: every rule is one critical section or one stretch of the
  goroutine between two of them. When a wait ends, and whether a deadline has passed or the context is
  done, is left open, so a trace may end a step or the train anywhere the code may.
\<close>

section \<open>The loop\<close>

record 's stepState =
  st_rateBps :: u64
  st_count :: u16
  st_sent :: u16
  st_acked :: 's
  st_sentSet :: 's
  st_firstRXMS :: u64
  st_lastRXMS :: u64
  st_bytes :: "int list"
  st_sentAt :: "int option list"
  st_ackClosed :: bool

record bw_config =
  c_ReferenceBps :: u64
  c_CapBps :: u64
  c_MinRateBps :: u64
  c_StepWindow :: int
  c_PayloadMin :: int
  c_PayloadMax :: int

record 's bwLoop =
  l_trainID :: u64
  l_capBps :: u64
  l_referenceBps :: u64
  l_minRateBps :: u64
  l_stepWindow :: int
  l_ackTimeoutMax :: int
  l_payloadMin :: int
  l_payloadMax :: int
  l_bytesPerProbe :: int
  l_count :: u16
  l_steps :: "(u64 \<times> 's stepState) list"
  l_stepBps :: "u64 list"
  l_sentFrames :: u64
  l_ackedFrames :: u64
  l_ackSRTT :: int
  l_done :: bool

text \<open>\<open>New\<close> fills in the defaults of a configuration, and \<open>Start\<close> makes a loop of it under a fresh train id.\<close>

definition bwNew :: "bw_config \<Rightarrow> bw_config" where
  "bwNew c =
    (let lo = (if c_PayloadMin c \<le> 0 then 1200 else c_PayloadMin c)
     in c\<lparr>c_MinRateBps := (if c_MinRateBps c = 0 then defaultMinRateBps else c_MinRateBps c),
          c_StepWindow := (if c_StepWindow c \<le> 0 then 200000000 else c_StepWindow c),
          c_PayloadMin := lo, c_PayloadMax := (if c_PayloadMax c < lo then lo else c_PayloadMax c)\<rparr>)"

definition startLoop :: "bw_config \<Rightarrow> u64 \<Rightarrow> 's bwLoop" where
  "startLoop c i = \<lparr>l_trainID = i, l_capBps = c_CapBps c, l_referenceBps = c_ReferenceBps c, l_minRateBps = c_MinRateBps c,
     l_stepWindow = c_StepWindow c, l_ackTimeoutMax = second, l_payloadMin = c_PayloadMin c, l_payloadMax = c_PayloadMax c,
     l_bytesPerProbe = (c_PayloadMin c + c_PayloadMax c) div 2, l_count = 0, l_steps = [],
     l_stepBps = [], l_sentFrames = 0, l_ackedFrames = 0, l_ackSRTT = 0, l_done = False\<rparr>"

definition targetBps :: "'s bwLoop \<Rightarrow> u64" where
  "targetBps l = (if l_capBps l > 0 then l_capBps l else l_referenceBps l)"

definition step_of :: "'s bwLoop \<Rightarrow> u64 \<Rightarrow> 's stepState" where
  "step_of l i = the (map_of (l_steps l) i)"

definition updStep :: "u64 \<Rightarrow> ('s stepState \<Rightarrow> 's stepState) \<Rightarrow> 's bwLoop \<Rightarrow> 's bwLoop" where
  "updStep i f l = l\<lparr>l_steps := AList.update i (f (step_of l i)) (l_steps l)\<rparr>"

definition beginStep :: "'s mask_ops \<Rightarrow> u64 \<Rightarrow> u16 \<Rightarrow> u64 \<Rightarrow> 's bwLoop \<Rightarrow> 's bwLoop" where
  "beginStep M rt n i l =
    (let n = (if n = 0 then 1 else n)
     in l\<lparr>l_steps := AList.update i \<lparr>st_rateBps = rt, st_count = n, st_sent = 0, st_acked = mo_new M (unat n),
            st_sentSet = mo_new M (unat n), st_firstRXMS = 0, st_lastRXMS = 0, st_bytes = replicate (unat n) 0,
            st_sentAt = replicate (unat n) None, st_ackClosed = False\<rparr> (l_steps l),
          l_count := n\<rparr>)"

text \<open>The first half of \<open>sendStep\<close>: the sizes of the step's probes, and the step cut to those it can fill.\<close>

fun planBytes :: "int \<Rightarrow> int \<Rightarrow> u64 \<Rightarrow> nat \<Rightarrow> nat \<Rightarrow> u64 \<Rightarrow> int list" where
  "planBytes lo hi i sq 0 rest = []"
| "planBytes lo hi i sq (Suc n) rest =
    (if rest = 0 then replicate (Suc n) 0
     else let b = payloadSize lo hi i (of_nat sq); b = (if word_of_int b > rest then sint rest else b)
          in b # planBytes lo hi i (Suc sq) n (rest - word_of_int b))"

definition planStep :: "'s mask_ops \<Rightarrow> u64 \<Rightarrow> u64 \<Rightarrow> 's bwLoop \<Rightarrow> 's bwLoop" where
  "planStep M i remaining l =
    (let s = step_of l i;
         bs = takeWhile (\<lambda>b. b > 0) (planBytes (l_payloadMin l) (l_payloadMax l) i 0 (unat (st_count s)) remaining);
         n = length bs
     in (updStep i (\<lambda>s. s\<lparr>st_count := of_nat n, st_bytes := bs, st_sentAt := take n (st_sentAt s),
           st_acked := mo_new M n, st_sentSet := mo_new M n\<rparr>) l)\<lparr>l_count := of_nat n\<rparr>)"

text \<open>The accounting of one transmission of a probe.\<close>

definition noteSent :: "'s mask_ops \<Rightarrow> u64 \<Rightarrow> nat \<Rightarrow> int \<Rightarrow> 's bwLoop \<Rightarrow> 's bwLoop" where
  "noteSent M i sq now l =
    (let s = step_of l i; s = (if sq < length (st_sentAt s) then s\<lparr>st_sentAt := (st_sentAt s)[sq := Some now]\<rparr> else s)
     in if mo_test M (st_sentSet s) sq then updStep i (\<lambda>_. s) l
        else (updStep i (\<lambda>_. s\<lparr>st_sent := st_sent s + 1, st_sentSet := mo_set M (st_sentSet s) sq\<rparr>) l)
               \<lparr>l_sentFrames := l_sentFrames l + 1\<rparr>)"

text \<open>Durations are nanoseconds; Go's division truncates toward zero.\<close>

definition observeAckDelay :: "int \<Rightarrow> 's bwLoop \<Rightarrow> 's bwLoop" where
  "observeAckDelay d l =
    (if d \<le> 0 then l
     else if l_ackSRTT l \<le> 0 then l\<lparr>l_ackSRTT := d\<rparr>
     else let x = d - l_ackSRTT l in l\<lparr>l_ackSRTT := l_ackSRTT l + (if x < 0 then - (- x div 8) else x div 8)\<rparr>)"

definition ackTimeout :: "'s bwLoop \<Rightarrow> int" where
  "ackTimeout l =
    (let mx = (if l_ackTimeoutMax l \<le> 0 then second else l_ackTimeoutMax l) in
     if l_ackSRTT l \<le> 0 then (if 500000000 > mx then mx else 500000000)
     else if 4 * l_ackSRTT l > mx then mx else 4 * l_ackSRTT l)"

definition retryWait :: "int \<Rightarrow> 's bwLoop \<Rightarrow> int" where
  "retryWait remaining l =
    (if remaining \<le> 0 then 0
     else let w = ackTimeout l div 2; w = (if w \<le> 0 then 1000000 else w) in if w > remaining then remaining else w)"

definition loopAck :: "'s mask_ops \<Rightarrow> bw_ack \<Rightarrow> int \<Rightarrow> 's bwLoop \<Rightarrow> 's bwLoop" where
  "loopAck M a now l =
    (case map_of (l_steps l) (a_ID a) of None \<Rightarrow> l
     | Some s \<Rightarrow>
       if l_done l \<or> a_Count a \<noteq> st_count s then l
       else
         let incoming = mo_from M (unat (a_Count a)) (a_Received a);
             l = fold (\<lambda>q l. if \<not> mo_test M incoming q \<or> mo_test M (st_acked s) q \<or> q \<ge> length (st_sentAt s) then l
                       else case st_sentAt s ! q of None \<Rightarrow> l | Some t \<Rightarrow> observeAckDelay (now - t) l)
                   [0..<unat (st_count s)] l;
             s = s\<lparr>st_acked := mo_union M (st_acked s) incoming,
                   st_firstRXMS := (if a_FirstRXMS a \<noteq> 0 \<and> (st_firstRXMS s = 0 \<or> a_FirstRXMS a < st_firstRXMS s)
                     then a_FirstRXMS a else st_firstRXMS s),
                   st_lastRXMS := (if a_LastRXMS a > st_lastRXMS s then a_LastRXMS a else st_lastRXMS s)\<rparr>;
             s = (if mo_count M (st_acked s) \<ge> unat (st_count s) then s\<lparr>st_ackClosed := True\<rparr> else s)
         in updStep (a_ID a) (\<lambda>_. s) l)"

definition scoreStep :: "'s mask_ops \<Rightarrow> u64 \<Rightarrow> 's bwLoop \<Rightarrow> 's bwLoop \<times> u64" where
  "scoreStep M i l =
    (let s = step_of l i; b = st_bytes s;
         got = fold (\<lambda>q acc. if mo_test M (st_acked s) q then acc + word_of_int (b ! q) else acc) [0..<length b] 0
     in (l\<lparr>l_steps := AList.delete i (l_steps l), l_ackedFrames := l_ackedFrames l + of_nat (mo_count M (st_acked s))\<rparr>,
         bandwidthBps got (st_firstRXMS s) (st_lastRXMS s)))"

definition maxBps :: "u64 list \<Rightarrow> u64" where
  "maxBps xs = fold (\<lambda>b best. if b > best then b else best) xs 0"

definition emitSample :: "'s bwLoop \<Rightarrow> 's bwLoop \<times> bw_sample option" where
  "emitSample l =
    (if l_done l then (l, None)
     else (l\<lparr>l_done := True\<rparr>, Some \<lparr>s_BandwidthBps = maxBps (l_stepBps l), s_Loss = aggregateLoss (l_sentFrames l) (l_ackedFrames l),
       s_ReferenceBps = l_referenceBps l, s_TargetBps = targetBps l\<rparr>))"

definition stopLoop :: "'s bwLoop \<Rightarrow> 's bwLoop" where
  "stopLoop l = l\<lparr>l_done := True\<rparr>"

section \<open>The train\<close>

text \<open>The goroutine's place: between steps, in a step with the \<open>Remaining\<close> each number was given, before
  the closing probe, in it, before the sample, returned.\<close>

datatype train_pc = AtTop | InStep u64 u64 "u64 option list" | Closing | InZero u64 | Emitting | Ended

record 's train =
  loop :: "'s bwLoop"
  curRate :: u64
  remaining :: u64
  bestBps :: u64
  tpc :: train_pc
  usedIDs :: "u64 list"

datatype train_event = SendProbe bw_probe | OnSample bw_sample

definition startTrain :: "bw_config \<Rightarrow> u64 \<Rightarrow> 's train" where
  "startTrain c i =
    (let l = startLoop (bwNew c) i
     in \<lparr>loop = l, curRate = startRate (l_capBps l) (l_minRateBps l),
         remaining = trainBudgetBytesFor (trainBudgetRate (l_referenceBps l) (l_capBps l) (l_minRateBps l)) trainWindow,
         bestBps = 0, tpc = AtTop, usedIDs = []\<rparr>)"

definition enterStep :: "'s mask_ops \<Rightarrow> u64 \<Rightarrow> 's train \<Rightarrow> 's train" where
  "enterStep M i t =
    (let l = loop t; eff = effectiveRate (curRate t) (l_capBps l) (l_minRateBps l);
         l = planStep M i (remaining t) (beginStep M eff (stepFrameCount eff (l_stepWindow l) (l_bytesPerProbe l)) i l)
     in t\<lparr>loop := l, tpc := InStep i eff (replicate (unat (st_count (step_of l i))) None), usedIDs := i # usedIDs t\<rparr>)"

text \<open>One transmission in a step: the number takes its share of the budget the first time.\<close>

definition sendSeq :: "'s mask_ops \<Rightarrow> u64 \<Rightarrow> u64 \<Rightarrow> u64 option list \<Rightarrow> nat \<Rightarrow> int \<Rightarrow> 's train \<Rightarrow> 's train \<times> train_event list" where
  "sendSeq M i eff given sq now t =
    (let s = step_of (loop t) i; b = st_bytes s ! sq;
         emit = (\<lambda>t b rest. (t\<lparr>loop := noteSent M i sq now (loop t)\<rparr>,
           [SendProbe \<lparr>p_TrainID = l_trainID (loop t), p_ID = i, p_Seq = of_nat sq, p_Count = st_count s, p_SendMS = unixMilli now,
              p_TargetBps = targetBps (loop t), p_Remaining = rest, p_Bytes = b\<rparr>]))
     in case given ! sq of
          Some rest \<Rightarrow> emit t b rest
        | None \<Rightarrow>
          if remaining t = 0 then (t, [])
          else
            let b = (if word_of_int b > remaining t then sint (remaining t) else b);
                rest = remaining t - word_of_int b
            in emit (t\<lparr>loop := updStep i (\<lambda>s. s\<lparr>st_bytes := (st_bytes s)[sq := b]\<rparr>) (loop t), remaining := rest,
                      tpc := InStep i eff (given[sq := Some rest])\<rparr>) b rest)"

definition leaveStep :: "'s mask_ops \<Rightarrow> u64 \<Rightarrow> u64 \<Rightarrow> 's train \<Rightarrow> 's train" where
  "leaveStep M i eff t =
    (case scoreStep M i (loop t) of (l, bps) \<Rightarrow>
       let l = l\<lparr>l_stepBps := l_stepBps l @ [bps]\<rparr>; stalled = plateau (l_stepBps l);
           best = (if bps > bestBps t then bps else bestBps t)
       in if capReached best (l_capBps l) then t\<lparr>loop := l, bestBps := best, tpc := Closing\<rparr>
          else t\<lparr>loop := l, bestBps := best, curRate := nextRate eff (l_capBps l) stalled, tpc := AtTop\<rparr>)"

text \<open>The probe of no bytes that tells the peer that nothing remains.\<close>

definition zeroProbe :: "u64 \<Rightarrow> int \<Rightarrow> 's train \<Rightarrow> bw_probe" where
  "zeroProbe i now t = \<lparr>p_TrainID = l_trainID (loop t), p_ID = i, p_Seq = 0, p_Count = 1, p_SendMS = unixMilli now,
     p_TargetBps = targetBps (loop t), p_Remaining = 0, p_Bytes = 0\<rparr>"

inductive train_step :: "'s mask_ops \<Rightarrow> 's train \<Rightarrow> train_event list \<Rightarrow> 's train \<Rightarrow> bool" for M where
  enter: "tpc t = AtTop \<Longrightarrow> remaining t > 0 \<Longrightarrow> \<not> l_done (loop t) \<Longrightarrow> i \<notin> set (usedIDs t) \<Longrightarrow>
    train_step M t [] (enterStep M i t)"
| transmit: "tpc t = InStep i eff given \<Longrightarrow> sq < length given \<Longrightarrow> \<not> l_done (loop t) \<Longrightarrow>
    \<not> mo_test M (st_acked (step_of (loop t) i)) sq \<Longrightarrow> sendSeq M i eff given sq now t = (t', es) \<Longrightarrow> train_step M t es t'"
| leave: "tpc t = InStep i eff given \<Longrightarrow> train_step M t [] (leaveStep M i eff t)"
| close: "tpc t = AtTop \<Longrightarrow> train_step M t [] (t\<lparr>tpc := Closing\<rparr>)"
| zero: "tpc t = Closing \<Longrightarrow> remaining t > 0 \<Longrightarrow> \<not> l_done (loop t) \<Longrightarrow> i \<notin> set (usedIDs t) \<Longrightarrow>
    train_step M t [] (t\<lparr>loop := beginStep M 0 1 i (loop t), tpc := InZero i, usedIDs := i # usedIDs t\<rparr>)"
| zero_send: "tpc t = InZero i \<Longrightarrow> \<not> l_done (loop t) \<Longrightarrow>
    train_step M t [SendProbe (zeroProbe i now t)]
      (t\<lparr>loop := updStep i (\<lambda>s. s\<lparr>st_sentAt := (st_sentAt s)[0 := Some now]\<rparr>) (loop t)\<rparr>)"
| zero_end: "tpc t = InZero i \<Longrightarrow>
    train_step M t [] (t\<lparr>loop := (loop t)\<lparr>l_steps := AList.delete i (l_steps (loop t))\<rparr>, tpc := Emitting\<rparr>)"
| no_zero: "tpc t = Closing \<Longrightarrow> train_step M t [] (t\<lparr>tpc := Emitting\<rparr>)"
| emit: "tpc t = Emitting \<Longrightarrow> emitSample (loop t) = (l, smp) \<Longrightarrow>
    train_step M t (case smp of None \<Rightarrow> [] | Some s \<Rightarrow> [OnSample s]) (t\<lparr>loop := l, tpc := Ended\<rparr>)"
| cancel: "tpc t = AtTop \<Longrightarrow> train_step M t [] (t\<lparr>tpc := Ended\<rparr>)"
| ack: "train_step M t [] (t\<lparr>loop := loopAck M a now (loop t)\<rparr>)"
| stop: "train_step M t [] (t\<lparr>loop := stopLoop (loop t)\<rparr>)"

inductive train_run :: "'s mask_ops \<Rightarrow> 's train \<Rightarrow> train_event list \<Rightarrow> 's train \<Rightarrow> bool" for M t where
  run_nil: "train_run M t [] t"
| run_step: "train_run M t es u \<Longrightarrow> train_step M u fs v \<Longrightarrow> train_run M t (es @ fs) v"

section \<open>The budget of a train\<close>

text \<open>The shares of the budget that probes were sent with: round, number, bytes and what remained.\<close>

definition shares :: "train_event list \<Rightarrow> (u64 \<times> u16 \<times> int \<times> u64) set" where
  "shares es = {(p_ID p, p_Seq p, p_Bytes p, p_Remaining p) | p. SendProbe p \<in> set es \<and> p_Bytes p \<noteq> 0}"

definition samples :: "train_event list \<Rightarrow> bw_sample list" where
  "samples es = concat (map (\<lambda>e. case e of OnSample s \<Rightarrow> [s] | _ \<Rightarrow> []) es)"

definition share_sum :: "train_event list \<Rightarrow> int" where
  "share_sum es = (\<Sum>(i, q, b, r) \<in> shares es. b)"

lemma shares_simps [simp]:
  "shares [] = {}" "shares (es @ fs) = shares es \<union> shares fs"
  "shares [OnSample s] = {}"
  "shares [SendProbe p] = (if p_Bytes p = 0 then {} else {(p_ID p, p_Seq p, p_Bytes p, p_Remaining p)})"
  by (auto simp: shares_def)

lemma samples_simps [simp]:
  "samples [] = []" "samples (es @ fs) = samples es @ samples fs" "samples [OnSample s] = [s]" "samples [SendProbe p] = []"
  by (simp_all add: samples_def)

lemma finite_shares: "finite (shares es)"
proof -
  have "shares es \<subseteq> (\<lambda>e. case e of SendProbe p \<Rightarrow> (p_ID p, p_Seq p, p_Bytes p, p_Remaining p)) ` (set es \<inter> range SendProbe)"
    by (force simp: shares_def)
  then show ?thesis by (rule finite_subset) simp
qed

definition loop_ok :: "'s bwLoop \<Rightarrow> bool" where
  "loop_ok l \<longleftrightarrow> 0 < l_payloadMin l \<and> l_payloadMin l \<le> l_payloadMax l \<and> l_payloadMax l < 2 ^ 63"

text \<open>The step in progress agrees with the shares of its round.\<close>

definition step_ok :: "train_event list \<Rightarrow> u64 \<Rightarrow> u64 option list \<Rightarrow> 's stepState \<Rightarrow> bool" where
  "step_ok es i given s \<longleftrightarrow> length given = length (st_bytes s) \<and> length (st_bytes s) < 2 ^ 16
    \<and> (\<forall>b \<in> set (st_bytes s). 0 < b \<and> b < 2 ^ 63)
    \<and> (\<forall>sq < length given. \<forall>r. given ! sq = Some r \<longrightarrow> (i, of_nat sq, st_bytes s ! sq, r) \<in> shares es)
    \<and> (\<forall>q b r. (i, q, b, r) \<in> shares es \<longrightarrow>
         unat q < length given \<and> given ! unat q = Some r \<and> b = st_bytes s ! unat q)"

definition shares_ok :: "u64 \<Rightarrow> train_event list \<Rightarrow> u64 \<Rightarrow> u64 list \<Rightarrow> bool" where
  "shares_ok budget es rest used \<longleftrightarrow> share_sum es + uint rest = uint budget
    \<and> (\<forall>i q b r b' r'. (i, q, b, r) \<in> shares es \<longrightarrow> (i, q, b', r') \<in> shares es \<longrightarrow> b = b' \<and> r = r')
    \<and> (\<forall>i q b r. (i, q, b, r) \<in> shares es \<longrightarrow> i \<in> set used \<and> rest \<le> r)"

definition pc_ok :: "train_event list \<Rightarrow> 's bwLoop \<Rightarrow> u64 list \<Rightarrow> train_pc \<Rightarrow> bool" where
  "pc_ok es l used pc \<longleftrightarrow> (case pc of
     InStep i eff given \<Rightarrow> i \<in> set used \<and> (\<exists>s. map_of (l_steps l) i = Some s \<and> step_ok es i given s)
   | _ \<Rightarrow> True)"

definition samples_ok :: "train_event list \<Rightarrow> bool \<Rightarrow> bool" where
  "samples_ok es dn \<longleftrightarrow> length (samples es) \<le> 1 \<and> (samples es \<noteq> [] \<longrightarrow> dn)
    \<and> (\<forall>s \<in> set (samples es). 0 \<le> s_Loss s \<and> s_Loss s \<le> 1)"

definition train_inv :: "u64 \<Rightarrow> train_event list \<Rightarrow> 's train \<Rightarrow> bool" where
  "train_inv budget es t \<longleftrightarrow> loop_ok (loop t) \<and> shares_ok budget es (remaining t) (usedIDs t)
    \<and> pc_ok es (loop t) (usedIDs t) (tpc t) \<and> samples_ok es (l_done (loop t))"

subsection \<open>What leaves the shares alone\<close>

text \<open>A change of the loop that keeps the sizes of the step in progress.\<close>

definition same_plan :: "'s bwLoop \<Rightarrow> 's bwLoop \<Rightarrow> bool" where
  "same_plan l l' \<longleftrightarrow> (loop_ok l \<longrightarrow> loop_ok l') \<and> (l_done l \<longrightarrow> l_done l')
    \<and> (\<forall>i s. map_of (l_steps l) i = Some s \<longrightarrow> (\<exists>s'. map_of (l_steps l') i = Some s' \<and> st_bytes s' = st_bytes s))"

lemma step_ok_bytes:
  assumes "st_bytes s' = st_bytes s" "step_ok es i given s"
  shows "step_ok es i given s'"
  using assms(2) unfolding step_ok_def assms(1) .

lemma pc_same_plan:
  assumes "pc_ok es l used pc" "same_plan l l'"
  shows "pc_ok es l' used pc"
proof (cases pc)
  case (InStep i eff given)
  then obtain s where "i \<in> set used" "map_of (l_steps l) i = Some s" "step_ok es i given s"
    using assms(1) by (auto simp: pc_ok_def)
  moreover from this(2) obtain s' where "map_of (l_steps l') i = Some s'" "st_bytes s' = st_bytes s"
    using assms(2) unfolding same_plan_def by blast
  ultimately show ?thesis using InStep step_ok_bytes by (auto simp: pc_ok_def)
qed (simp_all add: pc_ok_def)

lemma inv_same_plan:
  assumes "train_inv b es t" "same_plan (loop t) l"
  shows "train_inv b es (t\<lparr>loop := l\<rparr>)"
  using assms pc_same_plan [OF _ assms(2)] by (auto simp: train_inv_def same_plan_def samples_ok_def)

lemma same_plan_refl: "same_plan l l" by (simp add: same_plan_def)

lemma same_plan_trans: "same_plan l m \<Longrightarrow> same_plan m n \<Longrightarrow> same_plan l n"
  unfolding same_plan_def by (metis (no_types, lifting))

lemma same_plan_upd: "(\<And>s. st_bytes (f s) = st_bytes s) \<Longrightarrow> same_plan l (updStep i f l)"
  by (auto simp: same_plan_def updStep_def update_conv' loop_ok_def step_of_def)

lemma same_plan_observe: "same_plan l (observeAckDelay d l)"
  by (auto simp: same_plan_def observeAckDelay_def loop_ok_def Let_def)

lemma steps_observe [simp]: "l_steps (observeAckDelay d l) = l_steps l"
  by (simp add: observeAckDelay_def Let_def)

lemma same_plan_fold: "(\<And>x l. same_plan l (f x l)) \<Longrightarrow> same_plan l (fold f xs l)"
  by (induction xs arbitrary: l) (auto intro: same_plan_refl same_plan_trans)

lemma steps_fold: "(\<And>x l. l_steps (f x l) = l_steps l) \<Longrightarrow> l_steps (fold f xs l) = l_steps l"
  by (induction xs arbitrary: l) simp_all

lemma same_plan_put:
  "map_of (l_steps l) i = Some s \<Longrightarrow> st_bytes s' = st_bytes s \<Longrightarrow> same_plan l (updStep i (\<lambda>_. s') l)"
  by (auto simp: same_plan_def updStep_def update_conv' loop_ok_def)

lemma same_plan_ack: "same_plan l (loopAck M a now l)"
proof (cases "map_of (l_steps l) (a_ID a)")
  case None
  then show ?thesis by (simp add: loopAck_def same_plan_refl)
next
  case (Some s)
  let ?f = "\<lambda>q l. if \<not> mo_test M (mo_from M (unat (a_Count a)) (a_Received a)) q \<or> mo_test M (st_acked s) q \<or> q \<ge> length (st_sentAt s) then l
     else case st_sentAt s ! q of None \<Rightarrow> l | Some t \<Rightarrow> observeAckDelay (now - t) l"
  let ?l = "fold ?f [0..<unat (st_count s)] l"
  have 1: "same_plan l ?l"
    by (rule same_plan_fold) (auto intro: same_plan_refl same_plan_observe split: option.split)
  have 2: "l_steps ?l = l_steps l" by (rule steps_fold) (auto split: option.split)
  have "map_of (l_steps ?l) (a_ID a) = Some s" by (simp only: 2 Some)
  note 3 = same_plan_trans [OF 1 same_plan_put [OF this]]
  show ?thesis
  proof (cases "l_done l \<or> a_Count a \<noteq> st_count s")
    case True
    then show ?thesis using Some by (auto simp: loopAck_def same_plan_refl)
  next
    case False
    show ?thesis unfolding loopAck_def Some option.case Let_def if_not_P [OF False] by (rule 3) simp
  qed
qed

lemma same_plan_sent: "map_of (l_steps l) i = Some s \<Longrightarrow> same_plan l (noteSent M i sq now l)"
  by (auto simp: noteSent_def Let_def same_plan_def updStep_def update_conv' loop_ok_def step_of_def)

lemma same_plan_stop: "same_plan l (stopLoop l)"
  by (simp add: same_plan_def stopLoop_def loop_ok_def)

lemma inv_pc: "train_inv b es t \<Longrightarrow> \<nexists>i eff g. pc = InStep i eff g \<Longrightarrow> train_inv b es (t\<lparr>tpc := pc\<rparr>)"
  by (cases pc) (simp_all add: train_inv_def pc_ok_def)

subsection \<open>Planning and sending\<close>

lemma payload_pos:
  assumes "0 < lo" "lo \<le> hi" "hi < 2 ^ 63"
  shows "0 < payloadSize lo hi i q \<and> payloadSize lo hi i q \<le> hi"
proof (cases "hi \<le> lo")
  case False
  have u: "uint (word_of_int (hi - lo + 1) :: u64) = hi - lo + 1"
    unfolding uint_word_of_int using assms by (intro mod_pos_pos_trivial) simp_all
  have "\<exists>x. payloadSize lo hi i q = lo + uint (x mod (word_of_int (hi - lo + 1) :: u64))"
    using False by (auto simp: payloadSize_def Let_def)
  then obtain x where x: "payloadSize lo hi i q = lo + uint (x mod (word_of_int (hi - lo + 1) :: u64))" by blast
  have "uint (x mod (word_of_int (hi - lo + 1) :: u64)) < hi - lo + 1"
    unfolding uint_mod_distrib u using assms(2) by (intro pos_mod_bound) simp
  moreover have "0 \<le> uint (x mod (word_of_int (hi - lo + 1) :: u64))" by simp
  ultimately show ?thesis using x assms by linarith
qed (use assms in \<open>simp add: payloadSize_def\<close>)

lemma plan_bounds:
  assumes "0 < lo" "lo \<le> hi" "hi < 2 ^ 63"
  shows "b \<in> set (planBytes lo hi i sq n rest) \<Longrightarrow> b < 2 ^ 63"
proof (induction n arbitrary: sq rest)
  case (Suc n)
  have "sint rest < 2 ^ 63" using sint_lt [of rest] by simp
  moreover have "payloadSize lo hi i (of_nat sq) < 2 ^ 63" using payload_pos [OF assms, of i "of_nat sq"] assms(3) by simp
  ultimately show ?case using Suc by (auto simp: Let_def split: if_splits)
qed simp

lemma plan_length [simp]: "length (planBytes lo hi i sq n rest) = n"
  by (induction n arbitrary: sq rest) (simp_all add: Let_def)

lemma inv_enter:
  assumes inv: "train_inv b es t" and i: "i \<notin> set (usedIDs t)"
  shows "train_inv b es (enterStep M i t)"
proof -
  let ?l = "loop t"
  define eff where "eff = effectiveRate (curRate t) (l_capBps ?l) (l_minRateBps ?l)"
  define n where "n = stepFrameCount eff (l_stepWindow ?l) (l_bytesPerProbe ?l)"
  define l1 where "l1 = beginStep M eff n i ?l"
  have ok: "0 < l_payloadMin ?l" "l_payloadMin ?l \<le> l_payloadMax ?l" "l_payloadMax ?l < 2 ^ 63"
    using inv by (auto simp: train_inv_def loop_ok_def)
  have l1: "l_payloadMin l1 = l_payloadMin ?l" "l_payloadMax l1 = l_payloadMax ?l" "l_done l1 = l_done ?l"
    by (simp_all add: l1_def beginStep_def Let_def)
  define bs where "bs = takeWhile (\<lambda>b. b > 0) (planBytes (l_payloadMin ?l) (l_payloadMax ?l) i 0 (unat (st_count (step_of l1 i))) (remaining t))"
  define l2 where "l2 = planStep M i (remaining t) l1"
  have l2: "l_payloadMin l2 = l_payloadMin ?l" "l_payloadMax l2 = l_payloadMax ?l" "l_done l2 = l_done ?l"
    "st_bytes (step_of l2 i) = bs" "st_count (step_of l2 i) = of_nat (length bs)" "map_of (l_steps l2) i = Some (step_of l2 i)"
    by (simp_all add: l2_def planStep_def Let_def updStep_def update_conv' step_of_def l1 bs_def)
  have len: "length bs < 2 ^ 16"
  proof -
    have "length bs \<le> unat (st_count (step_of l1 i))" unfolding bs_def using length_takeWhile_le [of "\<lambda>b. b > 0"] by (metis plan_length)
    then show ?thesis using unsigned_less [of "st_count (step_of l1 i)", where 'a = nat] by simp
  qed
  then have cnt: "unat (st_count (step_of l2 i)) = length bs" by (simp add: l2 unat_of_nat)
  have pos: "0 < x \<and> x < 2 ^ 63" if "x \<in> set bs" for x
    using that plan_bounds [OF ok] set_takeWhileD unfolding bs_def by metis
  have none: "(i, q, x, r) \<notin> shares es" for q x r using inv i by (auto simp: train_inv_def shares_ok_def)
  have t': "enterStep M i t = t\<lparr>loop := l2, tpc := InStep i eff (replicate (length bs) None), usedIDs := i # usedIDs t\<rparr>"
    by (simp add: enterStep_def Let_def l2_def [symmetric] l1_def [symmetric] n_def [symmetric] eff_def [symmetric] cnt)
  have "step_ok es i (replicate (length bs) None) (step_of l2 i)"
    using len pos none by (simp add: step_ok_def l2)
  then show ?thesis using inv l2 unfolding t' by (auto simp: train_inv_def pc_ok_def loop_ok_def shares_ok_def)
qed

lemma inv_events:
  assumes "train_inv b es t" "shares es' = shares es" "samples es' = samples es"
  shows "train_inv b es' t"
  using assms(1) unfolding train_inv_def shares_ok_def pc_ok_def step_ok_def samples_ok_def share_sum_def assms(2,3) .

lemma inv_transmit:
  assumes inv: "train_inv b es t" and pc: "tpc t = InStep i eff given" and sq: "sq < length given"
    and st: "sendSeq M i eff given sq now t = (t', fs)"
  shows "train_inv b (es @ fs) t'"
proof -
  obtain s where s: "map_of (l_steps (loop t)) i = Some s" "step_ok es i given s" and iu: "i \<in> set (usedIDs t)"
    using inv pc by (auto simp: train_inv_def pc_ok_def)
  have so: "step_of (loop t) i = s" using s(1) by (simp add: step_of_def)
  have len: "sq < length (st_bytes s)" "length (st_bytes s) < 2 ^ 16" and b: "0 < st_bytes s ! sq" "st_bytes s ! sq < 2 ^ 63"
    using s(2) sq by (auto simp: step_ok_def)
  have u: "unat (of_nat sq :: u16) = sq" using len by (simp add: unat_of_nat)
  note sent = same_plan_sent [of "loop _" i]
  show ?thesis
  proof (cases "given ! sq")
    case (Some rest)
    let ?p = "\<lparr>p_TrainID = l_trainID (loop t), p_ID = i, p_Seq = of_nat sq, p_Count = st_count s, p_SendMS = unixMilli now,
      p_TargetBps = targetBps (loop t), p_Remaining = rest, p_Bytes = st_bytes s ! sq\<rparr>"
    have r: "t' = t\<lparr>loop := noteSent M i sq now (loop t)\<rparr>" "fs = [SendProbe ?p]"
      using st Some by (simp_all add: sendSeq_def so Let_def)
    have "(i, of_nat sq, st_bytes s ! sq, rest) \<in> shares es" using s(2) sq Some by (simp add: step_ok_def)
    then have "shares (es @ fs) = shares es" using b by (auto simp: r)
    then show ?thesis
      using inv_events [OF inv_same_plan [OF inv same_plan_sent [OF s(1)]], of "es @ fs"] by (simp add: r)
  next
    case None
    show ?thesis
    proof (cases "remaining t = 0")
      case True
      then show ?thesis using st None inv by (simp add: sendSeq_def so Let_def)
    next
      case False
      define x where "x = (if word_of_int (st_bytes s ! sq) > remaining t then sint (remaining t) else st_bytes s ! sq)"
      define rest where "rest = remaining t - word_of_int x"
      define l where "l = updStep i (\<lambda>s. s\<lparr>st_bytes := (st_bytes s)[sq := x]\<rparr>) (loop t)"
      let ?s = "s\<lparr>st_bytes := (st_bytes s)[sq := x]\<rparr>"
      let ?p = "\<lparr>p_TrainID = l_trainID l, p_ID = i, p_Seq = of_nat sq, p_Count = st_count s, p_SendMS = unixMilli now,
        p_TargetBps = targetBps l, p_Remaining = rest, p_Bytes = x\<rparr>"
      let ?g = "given[sq := Some rest]" and ?sh = "(i, of_nat sq :: u16, x, rest)"
      have ub: "uint (word_of_int (st_bytes s ! sq) :: u64) = st_bytes s ! sq"
        unfolding uint_word_of_int using b by (intro mod_pos_pos_trivial) simp_all
      have x: "0 < x" "x < 2 ^ 63" "x \<le> uint (remaining t)"
      proof -
        have "0 < x \<and> x < 2 ^ 63 \<and> x \<le> uint (remaining t)"
        proof (cases "word_of_int (st_bytes s ! sq) > remaining t")
          case True
          then have "uint (remaining t) < 2 ^ 63" using b ub by (simp add: word_less_def)
          then have "sint (remaining t) = uint (remaining t)" unfolding sint_uint
            by (intro signed_take_bit_int_eq_self) (auto intro: order_trans [OF _ uint_ge_0])
          moreover have "0 < uint (remaining t)" using False by (simp add: word_neq_0_conv word_less_def)
          ultimately show ?thesis using True \<open>uint (remaining t) < 2 ^ 63\<close> by (simp add: x_def)
        next
          case False
          then show ?thesis using b ub by (simp add: x_def word_less_def)
        qed
        then show "0 < x" "x < 2 ^ 63" "x \<le> uint (remaining t)" by auto
      qed
      have ux: "uint (word_of_int x :: u64) = x" unfolding uint_word_of_int using x by (intro mod_pos_pos_trivial) simp_all
      have le: "uint (word_of_int x :: u64) \<le> uint (remaining t)" unfolding ux by (rule x(3))
      have "uint (remaining t - word_of_int x) = uint (remaining t) - uint (word_of_int x :: u64)"
        by (rule iffD1 [OF uint_sub_lem le])
      then have ur: "uint rest = uint (remaining t) - x" unfolding rest_def ux .
      have r: "t' = t\<lparr>loop := l, remaining := rest, tpc := InStep i eff ?g, loop := noteSent M i sq now l\<rparr>" "fs = [SendProbe ?p]"
        using st None False by (simp_all add: sendSeq_def so Let_def x_def [symmetric] rest_def [symmetric] l_def [symmetric])
      have new: "(i, of_nat sq, c, r) \<notin> shares es" for c r
      proof
        assume "(i, of_nat sq, c, r) \<in> shares es"
        then have "given ! unat (of_nat sq :: u16) = Some r" using s(2) unfolding step_ok_def by blast
        then show False using None u by simp
      qed
      have sh: "shares (es @ fs) = insert ?sh (shares es)" using x(1) by (simp add: r)
      have sm: "samples fs = []" by (simp add: r)
      have sum: "share_sum (es @ fs) = share_sum es + x"
        unfolding share_sum_def sh using new finite_shares [of es] by simp
      have ls: "map_of (l_steps l) i = Some ?s" by (simp add: l_def updStep_def update_conv' so)
      have lo: "loop_ok l" "l_done l = l_done (loop t)" using inv by (auto simp: l_def updStep_def train_inv_def loop_ok_def)
      have "step_ok (es @ fs) i ?g ?s"
        unfolding step_ok_def sh
      proof (intro conjI allI impI)
        show "\<forall>y \<in> set (st_bytes ?s). 0 < y \<and> y < 2 ^ 63"
          using s(2) x set_update_subset_insert [of "st_bytes s" sq x] by (auto simp: step_ok_def)
        show "(i, of_nat q, st_bytes ?s ! q, y) \<in> insert ?sh (shares es)" if "q < length ?g" "?g ! q = Some y" for q y
          using that s(2) len by (cases "q = sq") (auto simp: step_ok_def)
        fix q c y assume q: "(i, q, c, y) \<in> insert ?sh (shares es)"
        have "unat q < length ?g \<and> ?g ! unat q = Some y \<and> c = st_bytes ?s ! unat q"
        proof (cases "(i, q, c, y) = ?sh")
          case True
          then show ?thesis using sq len u by simp
        next
          case False
          then have o: "(i, q, c, y) \<in> shares es" using q by blast
          then have "unat q < length given \<and> given ! unat q = Some y \<and> c = st_bytes s ! unat q"
            using s(2) unfolding step_ok_def by blast
          moreover from this have "unat q \<noteq> sq" using None by auto
          ultimately show ?thesis by simp
        qed
        then show "unat q < length ?g" "?g ! unat q = Some y" "c = st_bytes ?s ! unat q" by auto
      qed (use s(2) in \<open>simp_all add: step_ok_def\<close>)
      moreover have "shares_ok b (es @ fs) rest (usedIDs t)"
        unfolding shares_ok_def sh
      proof (intro conjI allI impI)
        show "share_sum (es @ fs) + uint rest = uint b" using inv ur by (simp add: sum train_inv_def shares_ok_def)
      next
        fix j q c y assume "(j, q, c, y) \<in> insert ?sh (shares es)"
        then consider "j = i" "y = rest" | "(j, q, c, y) \<in> shares es" by auto
        then have "j \<in> set (usedIDs t) \<and> rest \<le> y"
        proof cases
          case 2
          then have "remaining t \<le> y" "j \<in> set (usedIDs t)" using inv by (auto simp: train_inv_def shares_ok_def)
          moreover have "rest \<le> remaining t" using ur x by (simp add: word_le_def)
          ultimately show ?thesis by simp
        qed (use iu in auto)
        then show "j \<in> set (usedIDs t)" "rest \<le> y" by auto
      next
        fix j q c y c' y' assume "(j, q, c, y) \<in> insert ?sh (shares es)" "(j, q, c', y') \<in> insert ?sh (shares es)"
        moreover have "\<forall>i q b r b' r'. (i, q, b, r) \<in> shares es \<longrightarrow> (i, q, b', r') \<in> shares es \<longrightarrow> b = b' \<and> r = r'"
          using inv by (simp add: train_inv_def shares_ok_def)
        ultimately show "c = c'" "y = y'" using new by blast+
      qed
      ultimately have "train_inv b (es @ fs) (t\<lparr>loop := l, remaining := rest, tpc := InStep i eff ?g\<rparr>)"
        using inv ls lo iu by (simp add: train_inv_def pc_ok_def samples_ok_def sm)
      then have "train_inv b (es @ fs) (t\<lparr>loop := l, remaining := rest, tpc := InStep i eff ?g, loop := noteSent M i sq now l\<rparr>)"
        by (rule inv_same_plan) (simp add: same_plan_sent [OF ls])
      then show ?thesis unfolding r(1) .
    qed
  qed
qed


lemma inv_leave: "train_inv b es t \<Longrightarrow> train_inv b es (leaveStep M i eff t)"
  by (auto simp: leaveStep_def scoreStep_def Let_def train_inv_def pc_ok_def loop_ok_def split: prod.split)

lemma inv_step:
  assumes inv: "train_inv b es t" and st: "train_step M t fs t'"
  shows "train_inv b (es @ fs) t'"
  using st
proof cases
  case (enter i)
  then show ?thesis using inv_enter [OF inv] by simp
next
  case (transmit i eff given sq now)
  then show ?thesis using inv_transmit [OF inv] by blast
next
  case (leave i eff given)
  then show ?thesis using inv_leave [OF inv] by simp
next
  case close
  then show ?thesis using inv_pc [OF inv] by simp
next
  case (zero i)
  then show ?thesis using inv
    by (auto simp: train_inv_def pc_ok_def loop_ok_def shares_ok_def beginStep_def Let_def samples_ok_def)
next
  case (zero_send i now)
  have "train_inv b es (t\<lparr>loop := updStep i (\<lambda>s. s\<lparr>st_sentAt := (st_sentAt s)[0 := Some now]\<rparr>) (loop t)\<rparr>)"
    by (rule inv_same_plan [OF inv same_plan_upd]) simp
  then have "train_inv b (es @ [SendProbe (zeroProbe i now t)])
      (t\<lparr>loop := updStep i (\<lambda>s. s\<lparr>st_sentAt := (st_sentAt s)[0 := Some now]\<rparr>) (loop t)\<rparr>)"
    by (rule inv_events) (simp_all add: zeroProbe_def)
  then show ?thesis unfolding zero_send(1,2) .
next
  case (zero_end i)
  then show ?thesis using inv by (auto simp: train_inv_def pc_ok_def loop_ok_def)
next
  case no_zero
  then show ?thesis using inv_pc [OF inv] by simp
next
  case (emit l smp)
  show ?thesis
  proof (cases "l_done (loop t)")
    case True
    then show ?thesis using emit inv by (auto simp: emitSample_def train_inv_def pc_ok_def)
  next
    case False
    then have "samples es = []" using inv by (simp add: train_inv_def samples_ok_def)
    then show ?thesis using False emit inv aggregateLoss_range
      by (auto simp: emitSample_def train_inv_def pc_ok_def loop_ok_def shares_ok_def samples_ok_def share_sum_def)
  qed
next
  case cancel
  then show ?thesis using inv_pc [OF inv] by simp
next
  case (ack a now)
  then show ?thesis using inv_same_plan [OF inv same_plan_ack] by simp
next
  case stop
  then show ?thesis using inv_same_plan [OF inv same_plan_stop] by simp
qed

lemma inv_start:
  assumes "c_PayloadMin c < 2 ^ 63" "c_PayloadMax c < 2 ^ 63"
  shows "train_inv (remaining (startTrain c i :: 's train)) [] (startTrain c i :: 's train)"
  using assms by (auto simp: train_inv_def startTrain_def startLoop_def bwNew_def Let_def loop_ok_def pc_ok_def shares_ok_def
      samples_ok_def share_sum_def)

lemma inv_run: "train_run M t es u \<Longrightarrow> train_inv b [] t \<Longrightarrow> train_inv b es u"
  by (induction rule: train_run.induct) (auto intro: inv_step)


definition demo_bw :: bw_config where
  "demo_bw = \<lparr>c_ReferenceBps = 0, c_CapBps = 20000000, c_MinRateBps = 0, c_StepWindow = 0, c_PayloadMin = 1200, c_PayloadMax = 1200\<rparr>"


end
