(* ===== verification/Dialer.thy ===== *)
theory Dialer
  imports Leg
begin

text \<open>
  \<open>internal/tunnel/v2/send/dialer.go\<close>: the loop that dials and redials the TCP transport of a lane. One
  step of the loop runs up to its next \<open>select\<close>; the dial's result and the branch a \<open>select\<close> takes are
  inputs. \<open>d_wake\<close> is the channel of depth one. A wait is in seconds.
\<close>

section \<open>The loop\<close>

definition dialBackoffSteps :: "nat list" where
  "dialBackoffSteps = [5, 10, 20, 30]"

datatype dial_pc = Dialing | Connected | BackingOff nat | DialStopped

record dialer =
  d_wake :: bool
  d_step :: nat
  d_pc :: dial_pc

text \<open>A nil \<open>dial\<close> function makes \<open>start\<close> return at once.\<close>

definition newDialer :: "bool \<Rightarrow> dialer" where
  "newDialer hasDial = \<lparr>d_wake = False, d_step = 0, d_pc = (if hasDial then Dialing else DialStopped)\<rparr>"

definition redial :: "dialer \<Rightarrow> dialer" where
  "redial d = d\<lparr>d_wake := True\<rparr>"

definition backoff :: "nat \<Rightarrow> nat" where
  "backoff n = dialBackoffSteps ! (if n \<ge> length dialBackoffSteps then length dialBackoffSteps - 1 else n)"

text \<open>The return of \<open>dial\<close>: whether it succeeded. \<open>onDialed\<close> runs before the loop parks.\<close>

definition dialReturns :: "bool \<Rightarrow> dialer \<Rightarrow> dialer" where
  "dialReturns ok d =
    (if ok then d\<lparr>d_step := 0, d_pc := Connected\<rparr>
     else d\<lparr>d_step := (if d_step d < length dialBackoffSteps - 1 then d_step d + 1 else d_step d),
            d_pc := BackingOff (backoff (d_step d))\<rparr>)"

datatype dial_event = Dialed bool | Redial | TakeWake | TimerFires | CtxDone

text \<open>The events a dialer can take, and what they do. A ready \<open>wake\<close> and a ready timer race.\<close>

fun dial_enabled :: "dial_event \<Rightarrow> dialer \<Rightarrow> bool" where
  "dial_enabled (Dialed ok) d = (d_pc d = Dialing)"
| "dial_enabled Redial d = True"
| "dial_enabled TakeWake d = (d_wake d \<and> (d_pc d = Connected \<or> (\<exists>w. d_pc d = BackingOff w)))"
| "dial_enabled TimerFires d = (\<exists>w. d_pc d = BackingOff w)"
| "dial_enabled CtxDone d = (d_pc d = Connected \<or> (\<exists>w. d_pc d = BackingOff w))"

fun dial_step :: "dial_event \<Rightarrow> dialer \<Rightarrow> dialer" where
  "dial_step (Dialed ok) d = dialReturns ok d"
| "dial_step Redial d = redial d"
| "dial_step TakeWake d = (case d_pc d of
      BackingOff w \<Rightarrow> d\<lparr>d_wake := False, d_step := 0, d_pc := Dialing\<rparr>
    | _ \<Rightarrow> d\<lparr>d_wake := False, d_pc := Dialing\<rparr>)"
| "dial_step TimerFires d = d\<lparr>d_pc := Dialing\<rparr>"
| "dial_step CtxDone d = d\<lparr>d_pc := DialStopped\<rparr>"

inductive dial_run :: "dialer \<Rightarrow> dial_event list \<Rightarrow> dialer \<Rightarrow> bool" where
  dial_nil: "dial_run d [] d"
| dial_cons: "dial_run d es d' \<Longrightarrow> dial_enabled e d' \<Longrightarrow> dial_run d (es @ [e]) (dial_step e d')"

section \<open>The backoff schedule\<close>

text \<open>The failures since the last success or redial that was taken.\<close>

fun failures :: "dial_event list \<Rightarrow> nat" where
  "failures [] = 0"
| "failures (e # es) = (case e of Dialed False \<Rightarrow> Suc (failures es) | Dialed True \<Rightarrow> 0 | TakeWake \<Rightarrow> 0 | _ \<Rightarrow> failures es)"

text \<open>The requests that were made since the last one that was taken.\<close>

fun requested :: "dial_event list \<Rightarrow> bool" where
  "requested [] = False"
| "requested (e # es) = (case e of Redial \<Rightarrow> True | TakeWake \<Rightarrow> False | _ \<Rightarrow> requested es)"

lemma dial_run_inv:
  assumes "dial_run (newDialer True) es d"
  shows "d_step d = min 3 (failures (rev es)) \<and> d_wake d = requested (rev es)
    \<and> (d_pc d = Connected \<longrightarrow> failures (rev es) = 0)
    \<and> (\<forall>w. d_pc d = BackingOff w \<longrightarrow> failures (rev es) > 0 \<and> w = backoff (failures (rev es) - 1))"
  using assms
proof (induction "newDialer True" es d rule: dial_run.induct)
  case dial_nil
  then show ?case by (simp add: newDialer_def)
next
  case (dial_cons es d' e)
  show ?case
  proof (cases e)
    case (Dialed ok)
    then show ?thesis using dial_cons by (cases ok) (auto simp: dialReturns_def dialBackoffSteps_def backoff_def)
  next
    case TakeWake
    then show ?thesis using dial_cons by (auto split: dial_pc.splits)
  qed (use dial_cons in \<open>auto simp: redial_def\<close>)
qed

text \<open> C40: The redial schedule. After any history of a dialer, the wait it is in is 5, 10, 20 or 30 seconds by the
  number of dials that failed in a row since the last success or explicit request, and 30 from the fourth
  on; no request is lost, and while one is open a waiting dialer can dial at once. \<close>

theorem dialer_schedule:
  assumes "dial_run (newDialer True) es d"
  shows "(\<forall>w. d_pc d = BackingOff w \<longrightarrow>
      0 < failures (rev es) \<and> w = (case failures (rev es) of Suc 0 \<Rightarrow> 5 | Suc (Suc 0) \<Rightarrow> 10 | Suc (Suc (Suc 0)) \<Rightarrow> 20 | _ \<Rightarrow> 30))
    \<and> d_wake d = requested (rev es)
    \<and> (requested (rev es) \<and> d_pc d \<noteq> DialStopped \<longrightarrow>
        (d_pc d = Dialing \<or> dial_enabled TakeWake d \<and> d_pc (dial_step TakeWake d) = Dialing))"
proof -
  note inv = dial_run_inv [OF assms]
  have "w = (case failures (rev es) of Suc 0 \<Rightarrow> 5 | Suc (Suc 0) \<Rightarrow> 10 | Suc (Suc (Suc 0)) \<Rightarrow> 20 | _ \<Rightarrow> 30)"
    if "d_pc d = BackingOff w" for w
    using inv that by (auto simp: backoff_def dialBackoffSteps_def nth_Cons split: nat.splits)
  moreover have "d_wake d \<and> d_pc d \<noteq> DialStopped \<longrightarrow>
      (d_pc d = Dialing \<or> dial_enabled TakeWake d \<and> d_pc (dial_step TakeWake d) = Dialing)"
    by (cases "d_pc d") auto
  ultimately show ?thesis using inv by simp
qed

lemma dialer_schedule_witness:
  "dial_run (newDialer True) [Dialed False, TimerFires, Dialed False, Redial] \<lparr>d_wake = True, d_step = 2, d_pc = BackingOff 10\<rparr>
    \<and> requested (rev [Dialed False, TimerFires, Dialed False, Redial])"
proof -
  let ?es = "[Dialed False, TimerFires, Dialed False, Redial]" and ?d = "\<lparr>d_wake = True, d_step = 2, d_pc = BackingOff 10\<rparr>"
  have "dial_run (newDialer True) ([] @ [Dialed False]) (dial_step (Dialed False) (newDialer True))"
    by (rule dial_cons [OF dial_nil]) (simp add: newDialer_def)
  from dial_cons [OF dial_cons [OF dial_cons [OF this, of TimerFires], of "Dialed False"], of Redial]
  have run: "dial_run (newDialer True) ?es ?d"
    by (simp add: newDialer_def dialReturns_def backoff_def dialBackoffSteps_def redial_def numeral_2_eq_2)
  show ?thesis using run dialer_schedule [OF run] by simp
qed

end
