(* ===== verification/SendSession.thy ===== *)
theory SendSession
  imports Send Ping Dialer BwTrain
begin

text \<open>
  The session life cycle of \<open>internal/tunnel/v2/send/send.go\<close>: bootstrap and rebootstrap, teardown, HELLO
  and ping wiring, the passive side's admission of a lane, TCP failures and the bandwidth sweep's wiring.

  The state \<open>life\<close> adds to \<open>send\<close> what the goroutines of a session own: contexts, pings, the closures of
  hellos and the dialers. A context of \<open>WithCancel\<close> is a number, with a flag that tells whether it was
  cancelled; \<open>None\<close> is the context of the caller, which lives as long as the program. A lane map is walked
  in the order of the lane ids: where the code walks it, the order makes no difference. Clocks, the
  random session id and whether a write meets a live context are inputs. A result \<open>None\<close> is a panic.
\<close>

section \<open>State\<close>

record hello_run =
  h_sess :: nat
  h_index :: nat
  h_ctx :: "nat option"
  h_sessionID :: u64
  h_lane :: nat
  h_laneID :: u8
  h_leg :: LegRef

record ping_run =
  g_ping :: ping
  g_ctx :: "nat option"
  g_sessionID :: u64
  g_lane :: nat
  g_laneID :: u8
  g_leg :: LegRef
  g_stopped :: bool

record dial_run =
  dr_dialer :: dialer
  dr_remote :: string
  dr_ctx :: "nat option"
  dr_sess :: nat
  dr_sessionID :: u64

record 'l life =
  core :: "'l send"
  baseCtx :: bool
  sessionCtx :: "nat option"
  sessionCancel :: "nat option"
  ctxDone :: "bool list"
  helloRuns :: "hello_run list"
  pingHeap :: "ping_run list"
  dialers :: "nat \<rightharpoonup> dial_run"
  runnableCache :: "u64 \<rightharpoonup> bool \<times> u64"
  closedConns :: "string list"
  probeInterval :: int
  probeTimeout :: int

definition ctx_live :: "nat option \<Rightarrow> 'l life \<Rightarrow> bool" where
  "ctx_live c s = (case c of None \<Rightarrow> True | Some n \<Rightarrow> \<not> ctxDone s ! n)"

text \<open>The fields of a \<open>Config\<close>; \<open>None\<close> is a nil pointer.\<close>

record config =
  cf_SessionManager :: "store option"
  cf_hasStream :: bool
  cf_ProbeInterval :: int
  cf_ProbeTimeout :: int
  cf_IsClient :: bool
  cf_BWCapBps :: u64
  cf_BWReferenceBps :: u64
  cf_EnableBandwidthProbe :: bool
  cf_BootstrapLanes :: "bootstrapLane list"

definition onCore :: "('l send \<Rightarrow> 'l send) \<Rightarrow> 'l life \<Rightarrow> 'l life" where
  "onCore f s = s\<lparr>core := f (core s)\<rparr>"

definition applyConfig :: "config \<Rightarrow> 'l life \<Rightarrow> 'l life" where
  "applyConfig c s =
    (s\<lparr>probeInterval := (if cf_ProbeInterval c > 0 then cf_ProbeInterval c else probeInterval s),
       probeTimeout := (if cf_ProbeTimeout c > 0 then cf_ProbeTimeout c else probeTimeout s),
       core := (core s)\<lparr>
         sessionManager := (case cf_SessionManager c of Some m \<Rightarrow> m | None \<Rightarrow> sessionManager (core s)),
         hasStream := (cf_hasStream c \<or> hasStream (core s)),
         send_isClient := (cf_IsClient c \<or> send_isClient (core s)),
         enableBW := (cf_EnableBandwidthProbe c \<or> enableBW (core s)),
         bwCapBps := (if cf_BWCapBps c > 0 then cf_BWCapBps c else bwCapBps (core s)),
         bwReference := (if cf_BWReferenceBps c > 0 then cf_BWReferenceBps c else bwReference (core s)),
         bootstrapLanes := bootstrapLanes (core s) @ cf_BootstrapLanes c\<rparr>\<rparr>)"

definition newSend :: "config list \<Rightarrow> 'l life" where
  "newSend cs = fold applyConfig cs
     \<lparr>core = \<lparr>sessionManager = \<lparr>heap = [], sessions = Map.empty\<rparr>, laneManager = SetRemoteProbe () NewLaneManager,
        hasStream = False, bootstrapLanes = [], outq = [], fecConfigured = False, fecCodecs = (\<lambda>_ _. None),
        send_isClient = False, enableBW = False, bwCapBps = 0, bwReference = 0, bwSched = None, activeSessionID = 0,
        hasActiveSession = False, bootstrapped = False, lanes = Map.empty, lheap = [], strategies = Map.empty,
        sendStates = Map.empty, stale = []\<rparr>,
      baseCtx = False, sessionCtx = None, sessionCancel = None, ctxDone = [], helloRuns = [], pingHeap = [],
      dialers = Map.empty, runnableCache = Map.empty, closedConns = [], probeInterval = 0, probeTimeout = 0\<rparr>"

section \<open>Small parts\<close>

definition getLane :: "u64 \<Rightarrow> u8 \<Rightarrow> 'l life \<Rightarrow> nat option" where
  "getLane sess i s = lanes (core s) (sess, i)"

definition setSessionContext :: "'l life \<Rightarrow> 'l life \<times> nat option" where
  "setSessionContext s =
    (let n = length (ctxDone s)
     in (s\<lparr>ctxDone := ctxDone s @ [False], sessionCtx := Some n, sessionCancel := Some n\<rparr>, Some n))"

definition cancelCtx :: "nat option \<Rightarrow> 'l life \<Rightarrow> 'l life" where
  "cancelCtx c s = (case c of None \<Rightarrow> s | Some n \<Rightarrow> s\<lparr>ctxDone := (ctxDone s)[n := True]\<rparr>)"

definition markRunnableLanesDirty :: "u64 \<Rightarrow> 'l life \<Rightarrow> 'l life" where
  "markRunnableLanesDirty sess s =
    (let g = (case runnableCache s sess of None \<Rightarrow> 0 | Some (v, g) \<Rightarrow> g)
     in s\<lparr>runnableCache := (runnableCache s)(sess \<mapsto> (False, g + 1))\<rparr>)"

definition registerLaneQoS :: "u64 \<Rightarrow> nat \<Rightarrow> 'l life \<Rightarrow> 'l life" where
  "registerLaneQoS sess r s = onCore (\<lambda>c. c\<lparr>laneManager :=
     RegisterQoS (sess, lane_id (lheap c ! r)) (sess, r) (laneManager c)\<rparr>) s"

definition abortBwTarget :: "u64 \<Rightarrow> u8 \<Rightarrow> LegRef \<Rightarrow> 'l life \<Rightarrow> 'l life" where
  "abortBwTarget sess i leg s =
    (if Kind leg = 0 then s
     else case bwSched (core s) of None \<Rightarrow> s
     | Some b \<Rightarrow> (case abortTake (KeyForLeg sess i leg) b of
         (b, None) \<Rightarrow> s
       | (b, Some (_, ph)) \<Rightarrow> onCore (\<lambda>c. c\<lparr>bwSched := Some (abortRelease (KeyForLeg sess i leg) ph b)\<rparr>) s))"

definition closeTCPRefs :: "LegRef list \<Rightarrow> 'l life \<Rightarrow> 'l life" where
  "closeTCPRefs refs s = (if \<not> hasStream (core s) then s else s\<lparr>closedConns := closedConns s @ map ConnID refs\<rparr>)"

text \<open>\<open>MarkAlive\<close> on the ping that is registered for a leg, if any.\<close>

definition markPingAlive :: "LegKey \<Rightarrow> 'l life \<Rightarrow> 'l life" where
  "markPingAlive k s =
    (case LookupPing k (laneManager (core s)) of None \<Rightarrow> s
     | Some p \<Rightarrow> s\<lparr>pingHeap := (pingHeap s)[p := (pingHeap s ! p)\<lparr>g_ping := MarkAlive (g_ping (pingHeap s ! p))\<rparr>]\<rparr>)"

definition onLane :: "nat \<Rightarrow> (laneRuntime \<Rightarrow> laneRuntime) \<Rightarrow> 'l life \<Rightarrow> 'l life" where
  "onLane r f s = onCore (updLane r f) s"

section \<open>Bandwidth sweep\<close>

definition waitBootstrapTCPForBW :: "'l send \<Rightarrow> bool" where
  "waitBootstrapTCPForBW s =
    (if bwCapBps s > 0 \<or> bwReference s > 0 \<or> \<not> hasStream s then False
     else list_ex (\<lambda>b. b_TCPRemote b \<noteq> []) (bootstrapLanes s))"

definition allBootstrapUDPActive :: "u64 \<Rightarrow> 'l send \<Rightarrow> bool" where
  "allBootstrapUDPActive sess s =
    (bootstrapLanes s \<noteq> [] \<and>
     list_all (\<lambda>b. case lanes s (sess, b_LaneID b) of None \<Rightarrow> False
       | Some r \<Rightarrow> isActive KindUDP (lane_leg (lheap s ! r))) (bootstrapLanes s))"

definition allBootstrapTCPActive :: "u64 \<Rightarrow> 'l send \<Rightarrow> bool" where
  "allBootstrapTCPActive sess s =
    (let bs = filter (\<lambda>b. b_TCPRemote b \<noteq> []) (bootstrapLanes s)
     in bs \<noteq> [] \<and> list_all (\<lambda>b. case lanes s (sess, b_LaneID b) of None \<Rightarrow> False
       | Some r \<Rightarrow> isActive KindTCP (lane_leg (lheap s ! r))) bs)"

text \<open>The scheduler's goroutine starts with \<open>bwStart\<close>, a step of its own.\<close>

definition startBwScheduler :: "'l life \<Rightarrow> 'l life" where
  "startBwScheduler s =
    (if \<not> enableBW (core s) \<or> bwSched (core s) \<noteq> None then s
     else onCore (\<lambda>c. c\<lparr>bwSched := Some (newBwScheduler (send_isClient c) (bwCapBps c) (bwReference c)),
       laneManager := SetRemoteComplete () (laneManager c)\<rparr>) s)"

definition syncBwSchedulerAfterLegActive :: "u64 \<Rightarrow> 'l life \<Rightarrow> 'l life" where
  "syncBwSchedulerAfterLegActive sess s =
    (if \<not> enableBW (core s) \<or> bwSched (core s) \<noteq> None \<or> bootstrapLanes (core s) = [] then s
     else if \<not> allBootstrapUDPActive sess (core s) then s
     else if waitBootstrapTCPForBW (core s) \<and> \<not> allBootstrapTCPActive sess (core s) then s
     else startBwScheduler s)"

definition startBwSchedulerAtBootstrap :: "'l send \<Rightarrow> bool" where
  "startBwSchedulerAtBootstrap s = (if \<not> enableBW s then False else bootstrapLanes s = [])"

definition laneIDs :: "u8 list" where
  "laneIDs = map of_nat [0..<256]"

definition laneEntries :: "u64 \<Rightarrow> 'l send \<Rightarrow> ((u64 \<times> u8) \<times> laneRuntime) list" where
  "laneEntries sess s = List.map_filter (\<lambda>i. map_option (\<lambda>r. ((sess, i), lheap s ! r)) (lanes s (sess, i))) laneIDs"

definition bwStart :: "u64 \<Rightarrow> 'l life \<Rightarrow> 'l life" where
  "bwStart sess s =
    (case bwSched (core s) of None \<Rightarrow> s
     | Some b \<Rightarrow> onCore (\<lambda>c. c\<lparr>bwSched := Some (fst (gateStart (buildBwTargets sess (laneEntries sess c) (bwCapBps c)) b))\<rparr>) s)"

definition bwPreferTCP :: "bw_sample \<Rightarrow> bool" where
  "bwPreferTCP smp =
    (if s_Loss smp \<ge> 1 / 100 then True
     else s_ReferenceBps smp > 0 \<and> rat_of_nat (unat (s_BandwidthBps smp)) * (3 / 2) \<le> rat_of_nat (unat (s_ReferenceBps smp)))"

text \<open>Payload bounds, loss limit and whether the train is paced.\<close>

definition bwKindTuning :: "kind \<Rightarrow> int \<times> int \<times> rat \<times> bool" where
  "bwKindTuning k = (if k = KindTCP then (32 * 1024, 32 * 1024, 0, False) else (1200, 1400, 1 / 100, True))"

text \<open>\<open>newLoop\<close>: the loop of a target is registered under its train id; \<open>onSample\<close>: its closure. A probe
  train fixes the sample it emits (\<open>BwTrain\<close>).\<close>

definition newLoop :: "bwTarget \<Rightarrow> u64 \<Rightarrow> u64 \<Rightarrow> 'l \<Rightarrow> 'l life \<Rightarrow> 'l life \<times> 'l option" where
  "newLoop t sess train l s =
    (case getLane sess (t_laneID t) s of None \<Rightarrow> (s, None)
     | Some _ \<Rightarrow> (onCore (\<lambda>c. c\<lparr>laneManager := PutBwLoop train l (laneManager c)\<rparr>) s, Some l))"

definition onBwSample :: "bwTarget \<Rightarrow> nat \<Rightarrow> u64 \<Rightarrow> bw_sample \<Rightarrow> 'l life \<Rightarrow> 'l life" where
  "onBwSample t r train smp s =
    (let s = (if t_kind t = KindUDP then onLane r (onLeg (setPreferTCP (bwPreferTCP smp))) s else s);
         s = onCore (\<lambda>c. c\<lparr>laneManager := DeleteBwLoop train (laneManager c)\<rparr>) s
     in case bwSched (core s) of None \<Rightarrow> s
        | Some b \<Rightarrow> onCore (\<lambda>c. c\<lparr>bwSched := Some (completeLocal t (s_BandwidthBps smp) b)\<rparr>) s)"

text \<open>The closures that the receive side calls through the lane manager.\<close>

definition currentSessionContext :: "u64 \<Rightarrow> 'l life \<Rightarrow> nat option" where
  "currentSessionContext sess s =
    (case activeSession (core s) of (a, ok) \<Rightarrow> if \<not> ok \<or> a \<noteq> sess then None else sessionCtx s)"

definition onRemoteProbe :: "LegKey \<Rightarrow> 'l life \<Rightarrow> 'l life" where
  "onRemoteProbe k s =
    (if remoteProbe (laneManager (core s)) = None \<or> \<not> enableBW (core s) \<or> send_isClient (core s) then s
     else case currentSessionContext (SessionID k) s of None \<Rightarrow> s | Some _ \<Rightarrow> startBwScheduler s)"

definition onRemoteComplete :: "LegKey \<Rightarrow> 'l life \<Rightarrow> 'l life" where
  "onRemoteComplete k s =
    (if remoteComplete (laneManager (core s)) = None then s
     else case bwSched (core s) of None \<Rightarrow> s | Some b \<Rightarrow> onCore (\<lambda>c. c\<lparr>bwSched := Some (advanceAfterRemote k b)\<rparr>) s)"

section \<open>Hellos and pings\<close>

definition helloFrame :: "bool \<Rightarrow> u64 \<Rightarrow> u8 \<Rightarrow> u64 \<Rightarrow> frame" where
  "helloFrame fec sess i nonce = \<lparr>f_version = Version, f_type = TypeHELLO, f_session = sess, f_lane = i,
     f_body = Some (HelloBody nonce (if fec then CapFEC OR CapLinkStatus else 0) (if fec then FECProfileSLC4Plus1 else FECProfileOff))\<rparr>"

definition helloConfig :: hello_config where
  "helloConfig = \<lparr>MaxRetries = 10, TimeoutMS = 30000, hasOnAck = True\<rparr>"

text \<open>\<open>Session.Open\<close> on the session at \<open>p\<close> of the table's heap; the retry loop's closure is entered in \<open>helloRuns\<close>.\<close>

definition openLaneHello :: "nat option \<Rightarrow> nat \<Rightarrow> u64 \<Rightarrow> nat \<Rightarrow> u8 \<Rightarrow> LegRef \<Rightarrow> u64 \<Rightarrow> 'l life \<Rightarrow> 'l life" where
  "openLaneHello ctx p sess r i leg nowMS s =
    (if Kind leg = 0 then s
     else
       let st = sessionManager (core s); o' = heap st ! p
       in s\<lparr>core := (core s)\<lparr>sessionManager := st\<lparr>heap := (heap st)[p := Open o' helloConfig nowMS]\<rparr>\<rparr>,
            helloRuns := helloRuns s @ [\<lparr>h_sess = p, h_index = length (objs o'), h_ctx = ctx, h_sessionID = sess,
              h_lane = r, h_laneID = i, h_leg = leg\<rparr>]\<rparr>)"

definition startLanePing :: "nat option \<Rightarrow> u64 \<Rightarrow> nat \<Rightarrow> LegRef \<Rightarrow> 'l life \<Rightarrow> 'l life" where
  "startLanePing ctx sess r leg s =
    (if Kind leg \<noteq> KindUDP then s
     else
       let l = lheap (core s) ! r;
           p = newPing (probeInterval s) (probeTimeout s) 0 0
             \<lparr>hasOnDown = True, hasOnUp = True, hasObserver = True, hasOnDelivery = True\<rparr> (\<not> isActive (Kind leg) (lane_leg l))
       in case registerPingIfAbsent (KeyForLeg sess (lane_id l) leg) (length (pingHeap s)) (laneManager (core s)) of
            (m, False) \<Rightarrow> s
          | (m, True) \<Rightarrow> s\<lparr>core := (core s)\<lparr>laneManager := m\<rparr>,
              pingHeap := pingHeap s @ [\<lparr>g_ping = p, g_ctx = ctx, g_sessionID = sess, g_lane = r, g_laneID = lane_id l,
                g_leg = leg, g_stopped = False\<rparr>]\<rparr>)"

section \<open>Sessions come and go\<close>

definition bootstrapLaneUp :: "nat option \<Rightarrow> nat \<Rightarrow> u64 \<Rightarrow> u64 \<Rightarrow> bootstrapLane \<Rightarrow> 'l life \<Rightarrow> 'l life" where
  "bootstrapLaneUp ctx p sess nowMS b s =
    (let r = length (lheap (core s));
         lane = onLeg (bindUDP (b_Leg b)) (newLaneRuntime (b_LaneID b) (b_Weight b));
         s = onCore (\<lambda>c. c\<lparr>lheap := lheap c @ [lane], lanes := (lanes c)((sess, b_LaneID b) \<mapsto> r)\<rparr>) s;
         s = registerLaneQoS sess r s;
         s = openLaneHello ctx p sess r (b_LaneID b) (b_Leg b) nowMS s;
         s = startLanePing ctx sess r (b_Leg b) s
     in if b_TCPRemote b \<noteq> [] \<and> hasStream (core s) then
          (onLane r (\<lambda>l. l\<lparr>hasDialer := True\<rparr>) s)\<lparr>dialers := (dialers s)(r \<mapsto>
            \<lparr>dr_dialer = newDialer True, dr_remote = b_TCPRemote b, dr_ctx = ctx, dr_sess = p, dr_sessionID = sess\<rparr>)\<rparr>
        else s)"

definition bootstrapSession :: "bytes option \<Rightarrow> u64 \<Rightarrow> 'l life \<Rightarrow> 'l life \<times> send_error option" where
  "bootstrapSession rand nowMS s =
    (case setSessionContext s of (s, ctx) \<Rightarrow>
      (case Session.New rand of Inl e \<Rightarrow> (cancelCtx ctx s, Some (ErrSession e))
       | Inr o' \<Rightarrow>
         let st = sessionManager (core s); p = length (heap st) in
         case Add True (st\<lparr>heap := heap st @ [o']\<rparr>) (Some p) of (st, added) \<Rightarrow>
           if \<not> added then (cancelCtx ctx s, Some ErrSessionIDConflict)
           else
             let s = onCore (\<lambda>c. (activateSession (sid o') c)\<lparr>sessionManager := st,
                   sendStates := (sendStates c)(sid o' \<mapsto> \<lparr>nextRepairKey = 0, fecEnabled = False\<rparr>)\<rparr>) s;
                 s = fold (bootstrapLaneUp ctx p (sid o') nowMS) (bootstrapLanes (core s)) s;
                 s = markRunnableLanesDirty (sid o') s
             in (if startBwSchedulerAtBootstrap (core s) then startBwScheduler s else s, None)))"

definition Bootstrap :: "bytes option \<Rightarrow> u64 \<Rightarrow> 'l life \<Rightarrow> 'l life \<times> send_error option" where
  "Bootstrap rand nowMS s =
    (if bootstrapped (core s) then (s, None)
     else let s = onCore (\<lambda>c. c\<lparr>bootstrapped := True\<rparr>) s in
       if bootstrapLanes (core s) = [] then (s, None)
       else bootstrapSession rand nowMS (s\<lparr>baseCtx := True\<rparr>))"

definition teardownSession :: "u64 \<Rightarrow> 'l life \<Rightarrow> 'l life \<times> LegRef list" where
  "teardownSession sess s =
    (let s = cancelCtx (sessionCancel s) (s\<lparr>sessionCtx := None, sessionCancel := None\<rparr>);
         c = core s;
         rs = List.map_filter (\<lambda>i. lanes c (sess, i)) laneIDs;
         closedTCP = filter (\<lambda>ref. ConnID ref \<noteq> []) (map (\<lambda>r. refForKind KindTCP (lane_leg (lheap c ! r))) rs);
         c = c\<lparr>hasActiveSession := hasActiveSession c \<and> activeSessionID c \<noteq> sess,
               sessionManager := Session.Delete True (sessionManager c) sess\<rparr>;
         c = fold (\<lambda>r. updLane r releaseFEC) rs c
     in (s\<lparr>core := c\<lparr>lanes := (\<lambda>k. if fst k = sess then None else lanes c k),
             strategies := (strategies c)(sess := None), sendStates := (sendStates c)(sess := None),
             laneManager := Reset (laneManager c), bwSched := None\<rparr>,
           runnableCache := (runnableCache s)(sess := None)\<rparr>, closedTCP))"

definition Rebootstrap :: "bytes option \<Rightarrow> u64 \<Rightarrow> 'l life \<Rightarrow> 'l life \<times> send_error option" where
  "Rebootstrap rand nowMS s =
    (if bootstrapLanes (core s) = [] then (s, None)
     else if \<not> baseCtx s then (s, None)
     else case teardownSession (activeSessionID (core s)) s of (s, refs) \<Rightarrow>
       (case bootstrapSession rand nowMS s of (s, err) \<Rightarrow> (closeTCPRefs refs s, err)))"

definition CloseSession :: "u64 \<Rightarrow> 'l life \<Rightarrow> 'l life" where
  "CloseSession sess s =
    (if activeSession (core s) \<noteq> (sess, True) then s
     else case teardownSession sess s of (s, refs) \<Rightarrow> closeTCPRefs refs s)"

definition ensurePassiveSessionContext :: "u64 \<Rightarrow> 'l life \<Rightarrow> 'l life \<times> nat option \<times> LegRef list" where
  "ensurePassiveSessionContext sess s =
    (case activeSession (core s) of (a, ok) \<Rightarrow>
      if ok \<and> a = sess \<and> sessionCancel s \<noteq> None then (s, sessionCtx s, [])
      else case (if ok \<and> a \<noteq> sess then teardownSession a s else (s, [])) of (s, refs) \<Rightarrow>
        (case setSessionContext s of (s, ctx) \<Rightarrow> (s, ctx, refs)))"

text \<open>The lane of an admitted HELLO, found or made.\<close>

definition passiveLane :: "u64 \<Rightarrow> u8 \<Rightarrow> 'l life \<Rightarrow> 'l life \<times> nat" where
  "passiveLane sess i s =
    (case getLane sess i s of Some r \<Rightarrow> (s, r)
     | None \<Rightarrow> let r = length (lheap (core s))
       in (onCore (\<lambda>c. c\<lparr>lheap := lheap c @ [newLaneRuntime i 1], lanes := (lanes c)((sess, i) \<mapsto> r)\<rparr>) s, r))"

definition admitLane :: "u64 \<Rightarrow> u8 \<Rightarrow> u16 \<Rightarrow> u8 \<Rightarrow> LegRef \<Rightarrow> 'l life \<Rightarrow> 'l life" where
  "admitLane sess i caps profile leg s =
    (case ensurePassiveSessionContext sess s of (s, ctx, refs) \<Rightarrow>
      let s = onCore (\<lambda>c. case sendStates c sess of Some _ \<Rightarrow> c
                | None \<Rightarrow> c\<lparr>sendStates := (sendStates c)(sess \<mapsto> \<lparr>nextRepairKey = 0, fecEnabled = False\<rparr>)\<rparr>) s
      in case passiveLane sess i s of (s, r) \<Rightarrow>
        let s = registerLaneQoS sess r s;
            s = (if Kind leg = KindUDP then onLane r (onLeg (bindUDP leg)) s
                 else if Kind leg = KindTCP then onLane r (onLeg (bindTCP leg)) s else s);
            s = onLane r (onLeg (markActive (Kind leg))) s;
            k = KeyForLeg sess i leg;
            s = (if Kind leg = KindUDP then markPingAlive k s else s);
            s = (if caps AND CapFEC \<noteq> 0 \<and> profile = FECProfileSLC4Plus1 then onCore (enableSessionFEC sess) s else s);
            s = (if Kind leg = KindUDP \<and> LookupPing k (laneManager (core s)) = None then startLanePing ctx sess r leg s else s);
            s = markRunnableLanesDirty sess (onCore (activateSession sess) s)
        in closeTCPRefs refs s)"

definition admitPassiveHelloAck :: "frame \<Rightarrow> LegRef \<Rightarrow> 'l life \<Rightarrow> 'l life" where
  "admitPassiveHelloAck f leg s =
    (if f_type f \<noteq> TypeHELLOACK \<or> Kind leg = 0 then s
     else case f_body f of
       Some (HelloAckBody _ accepted caps profile) \<Rightarrow>
         if accepted \<noteq> 1 \<or> \<not> snd (Get True (sessionManager (core s)) (f_session f)) then s
         else (case activeSession (core s) of (a, ok) \<Rightarrow>
           if ok \<and> a \<noteq> f_session f \<and> getLane (f_session f) (f_lane f) s \<noteq> None then s
           else admitLane (f_session f) (f_lane f) caps profile leg s)
     | _ \<Rightarrow> s)"

section \<open>Control frames\<close>

definition partialRef :: "LegRef \<Rightarrow> bool" where
  "partialRef to \<longleftrightarrow> (Kind to = KindUDP \<and> (EndpointID to = [] \<or> RemoteAddr to = None)) \<or> (Kind to = KindTCP \<and> ConnID to = [])"

definition writeTo :: "bool \<Rightarrow> LegRef \<Rightarrow> frame \<Rightarrow> 'l life \<Rightarrow> ('l life \<times> send_error option) option" where
  "writeTo live leg f s =
    (case writeFrameOnLeg live leg f (core s) of None \<Rightarrow> None
     | Some (c, Some e) \<Rightarrow> Some (s\<lparr>core := c\<rparr>, Some e)
     | Some (c, None) \<Rightarrow> Some (admitPassiveHelloAck f leg (s\<lparr>core := c\<rparr>), None))"

definition WriteFrame :: "bool \<Rightarrow> frame \<Rightarrow> LegRef \<Rightarrow> 'l life \<Rightarrow> ('l life \<times> send_error option) option" where
  "WriteFrame live f to s =
    (if Kind to \<noteq> 0 then
       if partialRef to then
         (case getLane (f_session f) (f_lane f) s of None \<Rightarrow> Some (s, Some ErrUnknownLane)
          | Some r \<Rightarrow> let to = refForKind (Kind to) (lane_leg (lheap (core s) ! r)) in
              if Kind to = 0 then Some (s, Some ErrLaneUnavailable) else writeTo live to f s)
       else writeTo live to f s
     else case getLane (f_session f) (f_lane f) s of None \<Rightarrow> Some (s, Some ErrUnknownLane)
     | Some r \<Rightarrow> (case sendControlFrame live r f (core s) of None \<Rightarrow> None
         | Some (c, e) \<Rightarrow> Some (s\<lparr>core := c\<rparr>, e)))"

section \<open>What the goroutines do\<close>

definition redialLane :: "nat \<Rightarrow> 'l life \<Rightarrow> 'l life" where
  "redialLane r s = s\<lparr>dialers := (dialers s)(r := map_option (\<lambda>d. d\<lparr>dr_dialer := redial (dr_dialer d)\<rparr>) (dialers s r))\<rparr>"

text \<open>The tail of a TCP failure: with a dialer, the lane waits for a reconnect and the dialer is woken.\<close>

definition reconnectTCP :: "nat \<Rightarrow> 'l life \<Rightarrow> 'l life" where
  "reconnectTCP r s =
    (if hasDialer (lheap (core s) ! r) then redialLane r (onLane r markTCPReconnectPending s) else s)"

definition helloOnExpire :: "hello_run \<Rightarrow> 'l life \<Rightarrow> 'l life" where
  "helloOnExpire h s =
    (let s = onLane (h_lane h) (onLeg (markDown (Kind (h_leg h)))) s;
         s = abortBwTarget (h_sessionID h) (h_laneID h) (h_leg h) s
     in if Kind (h_leg h) = KindTCP then reconnectTCP (h_lane h) s else s)"

definition helloOnAck :: "hello_run \<Rightarrow> 'l life \<Rightarrow> 'l life" where
  "helloOnAck h s =
    (let s = onLane (h_lane h) (onLeg (markActive (Kind (h_leg h)))) s;
         s = (if Kind (h_leg h) = KindUDP then markPingAlive (KeyForLeg (h_sessionID h) (h_laneID h) (h_leg h)) s else s);
         s = syncBwSchedulerAfterLegActive (h_sessionID h) (markRunnableLanesDirty (h_sessionID h) s)
     in if Kind (h_leg h) = KindTCP then onLane (h_lane h) (\<lambda>l. fst (consumeTCPReconnectPending l)) s else s)"

definition putHello :: "hello_run \<Rightarrow> hello \<Rightarrow> 'l life \<Rightarrow> 'l life" where
  "putHello h x s = onCore (\<lambda>c. c\<lparr>sessionManager := (let st = sessionManager c; o' = heap st ! h_sess h in
     st\<lparr>heap := (heap st)[h_sess h := o'\<lparr>objs := (objs o')[h_index h := x]\<rparr>]\<rparr>)\<rparr>) s"

definition helloObj :: "hello_run \<Rightarrow> 'l life \<Rightarrow> hello" where
  "helloObj h s = objs (heap (sessionManager (core s)) ! h_sess h) ! h_index h"

text \<open>One iteration of a retry loop up to its \<open>select\<close>; a failed write is ignored.\<close>

definition helloIterate :: "nat \<Rightarrow> bool \<Rightarrow> u64 \<Rightarrow> 'l life \<Rightarrow> 'l life option" where
  "helloIterate n live nowMS s =
    (let h = helloRuns s ! n; o' = heap (sessionManager (core s)) ! h_sess h in
     case WriteFrame live (helloFrame (fecConfigured (core s)) (sid o') (h_laneID h) (h_nonce (helloObj h s))) (h_leg h) s of
       None \<Rightarrow> None
     | Some (s, _) \<Rightarrow> (case loopSend nowMS (helloObj h s) of (x, ex) \<Rightarrow>
         let s = putHello h x s in Some (if ex then helloOnExpire h s else s)))"

text \<open>\<open>Session.Ack\<close> on the session at \<open>p\<close>, with the callback it makes.\<close>

definition sessionAck :: "nat \<Rightarrow> u64 \<Rightarrow> bool \<Rightarrow> 'l life \<Rightarrow> 'l life \<times> bool" where
  "sessionAck p nonce accepted s =
    (let st = sessionManager (core s) in
     case Ack (heap st ! p) nonce accepted of (o', oi, res) \<Rightarrow>
       let s = onCore (\<lambda>c. c\<lparr>sessionManager := st\<lparr>heap := (heap st)[p := o']\<rparr>\<rparr>) s
       in case oi of None \<Rightarrow> (s, res)
          | Some i \<Rightarrow> (case find (\<lambda>h. h_sess h = p \<and> h_index h = i) (helloRuns s) of None \<Rightarrow> (s, res)
              | Some h \<Rightarrow> (helloOnAck h s, res)))"

definition pingFrame :: "ping_run \<Rightarrow> message \<Rightarrow> frame" where
  "pingFrame g m = \<lparr>f_version = Version, f_type = TypePING, f_session = g_sessionID g, f_lane = g_laneID g,
     f_body = Some (PingBody (m_ID m) (m_TimeMS m))\<rparr>"

fun pingEffect :: "ping_run \<Rightarrow> ping_event \<Rightarrow> 'l life \<Rightarrow> 'l life" where
  "pingEffect g (SendMsg m) s = s"
| "pingEffect g OnUp s = onLane (g_lane g) (onLeg (markActive (Kind (g_leg g)))) s"
| "pingEffect g OnDown s = abortBwTarget (g_sessionID g) (g_laneID g) (g_leg g) (onLane (g_lane g) (onLeg (markDown (Kind (g_leg g)))) s)"
| "pingEffect g (Observer q) s = onLane (g_lane g) (onLeg (observeRTT (Kind (g_leg g)) (SampleMS q))) s"
| "pingEffect g (Delivery b) s = onLane (g_lane g) (onLeg (observeDelivery (Kind (g_leg g)) b)) s"

text \<open>A tick of a ping's loop: the frame goes out, then the expired pings are counted.\<close>

definition pingTick :: "nat \<Rightarrow> bool \<Rightarrow> int \<Rightarrow> 'l life \<Rightarrow> 'l life option" where
  "pingTick n live now s =
    (let g = pingHeap s ! n in
     case WriteFrame live (pingFrame g \<lparr>m_ID = nextID (g_ping g), m_TimeMS = unixMilli now\<rparr>) (g_leg g) s of
       None \<Rightarrow> None
     | Some (s, e) \<Rightarrow> (case tick now (e = None) (g_ping g) of (p, es) \<Rightarrow>
         Some (fold (pingEffect g) es (s\<lparr>pingHeap := (pingHeap s)[n := g\<lparr>g_ping := p, g_stopped := (e \<noteq> None)\<rparr>]\<rparr>))))"

definition pongIn :: "LegKey \<Rightarrow> message \<Rightarrow> u64 \<Rightarrow> 'l life \<Rightarrow> 'l life" where
  "pongIn k m nowMS s =
    (case LookupPing k (laneManager (core s)) of None \<Rightarrow> s
     | Some n \<Rightarrow> let g = pingHeap s ! n in
         case Pong m nowMS (g_ping g) of (p, es, _) \<Rightarrow>
           fold (pingEffect g) es (s\<lparr>pingHeap := (pingHeap s)[n := g\<lparr>g_ping := p\<rparr>]\<rparr>))"

text \<open>A dial returns: on success the lane is bound to the connection and a HELLO goes out on it.\<close>

definition dialDone :: "nat \<Rightarrow> LegRef option \<Rightarrow> u64 \<Rightarrow> 'l life \<Rightarrow> 'l life" where
  "dialDone r res nowMS s =
    (case dialers s r of None \<Rightarrow> s
     | Some d \<Rightarrow>
       let s = s\<lparr>dialers := (dialers s)(r \<mapsto> d\<lparr>dr_dialer := dialReturns (res \<noteq> None) (dr_dialer d)\<rparr>)\<rparr>
       in case res of None \<Rightarrow> s
          | Some conn \<Rightarrow> let s = onLane r (onLeg (bindTCP conn)) s
              in openLaneHello (dr_ctx d) (dr_sess d) (dr_sessionID d) r (lane_id (lheap (core s) ! r)) conn nowMS s)"

definition dialEvent :: "nat \<Rightarrow> dial_event \<Rightarrow> 'l life \<Rightarrow> 'l life" where
  "dialEvent r e s =
    s\<lparr>dialers := (dialers s)(r := map_option (\<lambda>d. d\<lparr>dr_dialer := dial_step e (dr_dialer d)\<rparr>) (dialers s r))\<rparr>"

text \<open>\<open>keys\<close> lists the lane map.\<close>

definition OnLegFailure :: "(u64 \<times> u8) list \<Rightarrow> LegRef \<Rightarrow> 'l life \<Rightarrow> 'l life" where
  "OnLegFailure keys leg s =
    (if Kind leg \<noteq> KindTCP then s
     else
       let hit = filter (\<lambda>k. case lanes (core s) k of None \<Rightarrow> False
             | Some r \<Rightarrow> ConnID (refForKind KindTCP (lane_leg (lheap (core s) ! r))) = ConnID leg) keys
       in fold (\<lambda>(sess, i) s. case lanes (core s) (sess, i) of None \<Rightarrow> s
            | Some r \<Rightarrow> reconnectTCP r (abortBwTarget sess (lane_id (lheap (core s) ! r)) leg
                (onLane r (onLeg (markDown KindTCP)) s))) hit s)"

text \<open>A link status reaches the lane that is registered for it.\<close>

definition qosIn :: "LaneKey \<Rightarrow> bool \<Rightarrow> u32 \<Rightarrow> bool \<Rightarrow> u32 \<Rightarrow> u8 \<Rightarrow> 'l life \<Rightarrow> 'l life" where
  "qosIn k ul ub tlim tb n s =
    (case LookupQoS k (laneManager (core s)) of None \<Rightarrow> s
     | Some (_, r) \<Rightarrow> onLane r (laneOnQoSStatus ul ub tlim tb n) s)"

section \<open>Runs\<close>

datatype 'l life_op =
    OpWrite "nat list" bytes
  | OpFlush u64 nat
  | OpFrame bool frame LegRef
  | OpEnableFEC
  | OpRebootstrap "bytes option" u64
  | OpClose u64
  | OpTable table_op
  | OpHello nat bool u64
  | OpSelect nat bool
  | OpAck nat u64 bool
  | OpPing nat bool int
  | OpPong LegKey message u64
  | OpDial nat "LegRef option" u64
  | OpDialEvent nat dial_event
  | OpFailure "(u64 \<times> u8) list" LegRef
  | OpStatus LaneKey bool u32 bool u32 u8
  | OpBwStart u64
  | OpBwLoop bwTarget u64 u64 'l
  | OpBwSample bwTarget nat u64 bw_sample
  | OpRemoteProbe LegKey
  | OpRemoteComplete LegKey

fun life_step :: "galois \<Rightarrow> 'e rs \<Rightarrow> 'l life_op \<Rightarrow> 'l life \<Rightarrow> 'l life option" where
  "life_step G R (OpWrite order p) s = map_option (\<lambda>(c, _). s\<lparr>core := c\<rparr>) (Write G R True order (Some p) (core s))"
| "life_step G R (OpFlush sess r) s = map_option (\<lambda>c. s\<lparr>core := c\<rparr>) (handleFECFlush G R True sess r (core s))"
| "life_step G R (OpFrame live f to) s = map_option fst (WriteFrame live f to s)"
| "life_step G R OpEnableFEC s = Some (onCore EnableFEC s)"
| "life_step G R (OpRebootstrap rand nowMS) s = Some (fst (Rebootstrap rand nowMS s))"
| "life_step G R (OpClose sess) s = Some (CloseSession sess s)"
| "life_step G R (OpTable op) s = Some (onCore (\<lambda>c. c\<lparr>sessionManager := table_step True op (sessionManager c)\<rparr>) s)"
| "life_step G R (OpHello n live nowMS) s = helloIterate n live nowMS s"
| "life_step G R (OpSelect n again) s =
    Some (putHello (helloRuns s ! n) ((helloObj (helloRuns s ! n) s)\<lparr>phase := (if again then Sending else Session.Returned)\<rparr>) s)"
| "life_step G R (OpAck p nonce accepted) s = Some (fst (sessionAck p nonce accepted s))"
| "life_step G R (OpPing n live now) s = pingTick n live now s"
| "life_step G R (OpPong k m nowMS) s = Some (pongIn k m nowMS s)"
| "life_step G R (OpDial r res nowMS) s = Some (dialDone r res nowMS s)"
| "life_step G R (OpDialEvent r e) s = Some (dialEvent r e s)"
| "life_step G R (OpFailure keys leg) s = Some (OnLegFailure keys leg s)"
| "life_step G R (OpStatus k ul ub tlim tb n) s = Some (qosIn k ul ub tlim tb n s)"
| "life_step G R (OpBwStart sess) s = Some (bwStart sess s)"
| "life_step G R (OpBwLoop t sess train l) s = Some (fst (newLoop t sess train l s))"
| "life_step G R (OpBwSample t r train smp) s = Some (onBwSample t r train smp s)"
| "life_step G R (OpRemoteProbe k) s = Some (onRemoteProbe k s)"
| "life_step G R (OpRemoteComplete k) s = Some (onRemoteComplete k s)"

text \<open>What the goroutines and callers of the code make sure of: a packet meets the lanes of the active
  session in some order; frames have the body of their type; a loop is one that was started, at its
  place; and a dial returns a TCP connection.\<close>

definition op_ok :: "'l life_op \<Rightarrow> 'l life \<Rightarrow> bool" where
  "op_ok op s = (case op of
      OpWrite order p \<Rightarrow> map_order (activeSessionID (core s)) (core s) order
    | OpFlush sess r \<Rightarrow> \<exists>i. lanes (core s) (sess, i) = Some r
    | OpFrame live f to \<Rightarrow> estimateFrameSize f \<noteq> None
    | OpHello n live nowMS \<Rightarrow> n < length (helloRuns s) \<and> phase (helloObj (helloRuns s ! n) s) = Sending
    | OpSelect n again \<Rightarrow> n < length (helloRuns s) \<and> phase (helloObj (helloRuns s ! n) s) = Waiting
    | OpPing n live now \<Rightarrow> n < length (pingHeap s) \<and> \<not> g_stopped (pingHeap s ! n)
    | OpDial r res nowMS \<Rightarrow> \<forall>conn. res = Some conn \<longrightarrow> Kind conn = KindTCP
    | _ \<Rightarrow> True)"

inductive life_run :: "galois \<Rightarrow> 'e rs \<Rightarrow> 'l life \<Rightarrow> 'l life \<Rightarrow> bool" for G R s where
  life_start: "life_run G R s s"
| life_next: "life_run G R s t \<Longrightarrow> op_ok op t \<Longrightarrow> life_step G R op t = Some u \<Longrightarrow> life_run G R s u"

section \<open>The invariant\<close>

text \<open>A lane that carries a transport of a kind.\<close>

definition bound :: "laneRuntime list \<Rightarrow> nat \<Rightarrow> kind \<Rightarrow> bool" where
  "bound hp r k \<longleftrightarrow> r < length hp \<and> (k = KindUDP \<longrightarrow> Kind (ref (udp (lane_leg (hp ! r)))) = KindUDP)
     \<and> (k = KindTCP \<longrightarrow> Kind (ref (tcp (lane_leg (hp ! r)))) = KindTCP)"

definition runs_ok :: "'l life \<Rightarrow> bool" where
  "runs_ok s \<longleftrightarrow> (\<forall>h \<in> set (helloRuns s). bound (lheap (core s)) (h_lane h) (Kind (h_leg h)))
    \<and> (\<forall>g \<in> set (pingHeap s). bound (lheap (core s)) (g_lane g) (Kind (g_leg g)))
    \<and> (\<forall>r. dialers s r \<noteq> None \<longrightarrow> r < length (lheap (core s)))
    \<and> (\<forall>k n. LookupPing k (laneManager (core s)) = Some n \<longrightarrow> n < length (pingHeap s))
    \<and> (\<forall>b \<in> set (bootstrapLanes (core s)). Kind (b_Leg b) = KindUDP)"

text \<open>\<open>A\<close> tells which sessions may have lanes; between two operations only the active one may.\<close>

definition life_inv :: "(u64 \<Rightarrow> bool) \<Rightarrow> 'l life \<Rightarrow> bool" where
  "life_inv A s \<longleftrightarrow> send_ok (core s) \<and> (\<forall>k r. lanes (core s) k = Some r \<longrightarrow> A (fst k)) \<and> runs_ok s"

definition life_ok :: "'l life \<Rightarrow> bool" where
  "life_ok s \<longleftrightarrow> life_inv (\<lambda>i. activeSession (core s) = (i, True)) s"

subsection \<open>Changes of lanes\<close>

definition lane_change :: "laneRuntime \<Rightarrow> laneRuntime \<Rightarrow> bool" where
  "lane_change l l' \<longleftrightarrow> (\<forall>fec i. lane_sendable fec i l \<longrightarrow> lane_sendable fec i l')
    \<and> (Kind (ref (udp (lane_leg l))) = KindUDP \<longrightarrow> Kind (ref (udp (lane_leg l'))) = KindUDP)
    \<and> (Kind (ref (tcp (lane_leg l))) = KindTCP \<longrightarrow> Kind (ref (tcp (lane_leg l'))) = KindTCP)"

lemma lane_change_refl [simp]: "lane_change l l" by (simp add: lane_change_def)

lemma lane_change_trans: "lane_change l m \<Longrightarrow> lane_change m n \<Longrightarrow> lane_change l n"
  unfolding lane_change_def by blast

definition heap_change :: "laneRuntime list \<Rightarrow> laneRuntime list \<Rightarrow> bool" where
  "heap_change hp hp' \<longleftrightarrow> length hp' = length hp \<and> (\<forall>r < length hp. lane_change (hp ! r) (hp' ! r))"

lemma heap_change_refl [simp]: "heap_change hp hp" by (simp add: heap_change_def)

lemma heap_change_trans: "heap_change a b \<Longrightarrow> heap_change b c \<Longrightarrow> heap_change a c"
  unfolding heap_change_def by (metis lane_change_trans)

lemma heap_change_upd: "(r < length hp \<Longrightarrow> lane_change (hp ! r) l) \<Longrightarrow> heap_change hp (hp[r := l])"
  by (cases "r < length hp") (auto simp: heap_change_def nth_list_update)

lemma bound_change: "heap_change hp hp' \<Longrightarrow> bound hp r k \<Longrightarrow> bound hp' r k"
  by (auto simp: bound_def heap_change_def lane_change_def)

lemma win_ok_on: "win_ok fec w \<Longrightarrow> (fec \<longrightarrow> fec') \<Longrightarrow> win_ok fec' w"
  by (auto simp: win_ok_def)

lemma sendable_on: "lane_sendable fec i l \<Longrightarrow> (fec \<longrightarrow> fec') \<Longrightarrow> lane_sendable fec' i l"
  using win_ok_on unfolding lane_sendable_def by blast

lemma send_ok_change:
  assumes "send_ok c" "heap_change (lheap c) (lheap c')" "lanes c' = lanes c"
    "\<And>i. sessionFECEnabled i c \<Longrightarrow> sessionFECEnabled i c'"
  shows "send_ok c'"
  unfolding send_ok_def
proof (intro allI impI)
  fix sess i r assume l: "lanes c' (sess, i) = Some r"
  then have "r < length (lheap c)" "lane_sendable (sessionFECEnabled sess c) i (lheap c ! r)" "\<forall>k. lanes c k = Some r \<longrightarrow> k = (sess, i)"
    using assms(1,3) by (auto simp: send_ok_def)
  then show "r < length (lheap c') \<and> lane_sendable (sessionFECEnabled sess c') i (lheap c' ! r) \<and> (\<forall>k. lanes c' k = Some r \<longrightarrow> k = (sess, i))"
    using assms(2,3) sendable_on [of "sessionFECEnabled sess c" i "lheap c' ! r" "sessionFECEnabled sess c'"] assms(4) [of sess]
    unfolding heap_change_def lane_change_def by auto
qed

text \<open>A step that neither makes nor drops lanes and starts no goroutine.\<close>

definition quiet :: "'l life \<Rightarrow> 'l life \<Rightarrow> bool" where
  "quiet s s' \<longleftrightarrow> heap_change (lheap (core s)) (lheap (core s')) \<and> lanes (core s') = lanes (core s)
    \<and> (\<forall>i. sessionFECEnabled i (core s) \<longrightarrow> sessionFECEnabled i (core s')) \<and> activeSession (core s') = activeSession (core s)
    \<and> pings (laneManager (core s')) = pings (laneManager (core s)) \<and> bootstrapLanes (core s') = bootstrapLanes (core s)
    \<and> helloRuns s' = helloRuns s
    \<and> map (\<lambda>g. (g_lane g, g_leg g)) (pingHeap s') = map (\<lambda>g. (g_lane g, g_leg g)) (pingHeap s)
    \<and> dom (dialers s') \<subseteq> dom (dialers s)
    \<and> sessionCtx s' = sessionCtx s \<and> sessionCancel s' = sessionCancel s \<and> ctxDone s' = ctxDone s \<and> baseCtx s' = baseCtx s"

lemma quiet_refl [simp]: "quiet s s" by (auto simp: quiet_def)

lemma quiet_trans:
  assumes "quiet s t" "quiet t u"
  shows "quiet s u"
proof -
  have "heap_change (lheap (core s)) (lheap (core u))" using assms heap_change_trans unfolding quiet_def by blast
  moreover have "dom (dialers u) \<subseteq> dom (dialers s)" using assms unfolding quiet_def by blast
  ultimately show ?thesis using assms by (simp add: quiet_def)
qed

lemma runs_quiet: "runs_ok s \<Longrightarrow> quiet s s' \<Longrightarrow> runs_ok s'"
proof -
  assume r: "runs_ok s" and q: "quiet s s'"
  have b: "bound (lheap (core s)) i k \<Longrightarrow> bound (lheap (core s')) i k" for i k
    using q bound_change unfolding quiet_def by blast
  show "runs_ok s'"
    unfolding runs_ok_def
  proof (intro conjI ballI allI impI)
    show "bound (lheap (core s')) (h_lane h) (Kind (h_leg h))" if "h \<in> set (helloRuns s')" for h
      using that r b q by (auto simp: runs_ok_def quiet_def)
    show "bound (lheap (core s')) (g_lane g) (Kind (g_leg g))" if "g \<in> set (pingHeap s')" for g
    proof -
      have "(g_lane g, g_leg g) \<in> set (map (\<lambda>g. (g_lane g, g_leg g)) (pingHeap s'))" using that by auto
      then obtain g' where "g' \<in> set (pingHeap s)" "g_lane g = g_lane g'" "g_leg g = g_leg g'"
        using q unfolding quiet_def by fastforce
      then show ?thesis using r b by (simp add: runs_ok_def)
    qed
    show "r' < length (lheap (core s'))" if "dialers s' r' \<noteq> None" for r'
    proof -
      have "dialers s r' \<noteq> None" using q that by (auto simp: quiet_def)
      then show ?thesis using r q by (simp add: runs_ok_def quiet_def heap_change_def)
    qed
    show "n < length (pingHeap s')" if "LookupPing k (laneManager (core s')) = Some n" for k n
    proof -
      have "length (pingHeap s') = length (pingHeap s)" using q unfolding quiet_def by (meson map_eq_imp_length_eq)
      then show ?thesis using that r q by (simp add: runs_ok_def quiet_def LookupPing_def)
    qed
    show "Kind (b_Leg x) = KindUDP" if "x \<in> set (bootstrapLanes (core s'))" for x
      using that r q by (simp add: runs_ok_def quiet_def)
  qed
qed

lemma inv_quiet:
  assumes inv: "life_inv A s" and q: "quiet s s'"
  shows "life_inv A s'"
proof -
  have "send_ok (core s')"
    by (rule send_ok_change [of "core s"]) (use inv q in \<open>auto simp: life_inv_def quiet_def\<close>)
  moreover have "\<forall>k r. lanes (core s') k = Some r \<longrightarrow> A (fst k)" using inv q by (simp add: life_inv_def quiet_def)
  ultimately show ?thesis using inv runs_quiet [OF _ q] by (simp add: life_inv_def)
qed

lemma ok_quiet: "life_ok s \<Longrightarrow> quiet s s' \<Longrightarrow> life_ok s'"
  using inv_quiet [of "\<lambda>i. activeSession (core s) = (i, True)" s s'] by (simp add: life_ok_def quiet_def)

subsection \<open>The parts of a step\<close>

lemma lane_change_leg:
  assumes "leg_ok (lane_leg l) \<Longrightarrow> leg_ok (f (lane_leg l))"
    "Kind (ref (udp (lane_leg l))) = KindUDP \<Longrightarrow> Kind (ref (udp (f (lane_leg l)))) = KindUDP"
    "Kind (ref (tcp (lane_leg l))) = KindTCP \<Longrightarrow> Kind (ref (tcp (f (lane_leg l)))) = KindTCP"
  shows "lane_change l (onLeg f l)"
  using assms by (auto simp: lane_change_def lane_sendable_def onLeg_def lane_ok_def)

lemma leg_changes [simp]:
  "lane_change l (onLeg (markDown k) l)" "lane_change l (onLeg (observeRTT k ms) l)"
  "lane_change l (onLeg (observeDelivery k b) l)" "lane_change l (onLeg (setPreferTCP p) l)"
  "lane_change l (onLeg (observeQoSStatus ul ub tlim tb) l)"
  by (rule lane_change_leg; simp add: markDown_def setActive_def observeRTT_def observeDelivery_def setPreferTCP_def
        observeQoSStatus_def leg_ok_def)+

lemma lane_changes [simp]:
  "lane_change l (markTCPReconnectPending l)" "lane_change l (fst (consumeTCPReconnectPending l))"
  "lane_change l (l\<lparr>hasDialer := b\<rparr>)"
  by (auto simp: lane_change_def lane_sendable_def markTCPReconnectPending_def consumeTCPReconnectPending_def lane_ok_def)

lemma lane_change_setFEC: "lane_change l (setFEC n l)"
proof -
  have "txWindow (setFEC n l) = txWindow l" "lane_leg (setFEC n l) = lane_leg l" "lane_id (setFEC n l) = lane_id l"
    by (simp_all add: setFEC_def)
  then show ?thesis using lane_ok_setFEC by (simp add: lane_change_def lane_sendable_def)
qed

lemma lane_change_status [simp]: "lane_change l (laneOnQoSStatus ul ub tlim tb n l)"
  unfolding laneOnQoSStatus_def by (rule lane_change_trans [OF leg_changes(5) lane_change_setFEC])

lemma lane_change_bind:
  "Kind conn = KindUDP \<Longrightarrow> lane_change l (onLeg (bindUDP conn) l)"
  "Kind conn = KindTCP \<Longrightarrow> lane_change l (onLeg (bindTCP conn) l)"
  by (auto intro!: lane_change_leg simp: bindUDP_def bindTCP_def leg_ok_def)

lemma lane_change_active:
  "bound hp r k \<Longrightarrow> lane_change (hp ! r) (onLeg (markActive k) (hp ! r))"
  by (rule lane_change_leg) (auto simp: bound_def markActive_def setActive_def leg_ok_def)

lemma win_ok_release: "win_ok fec w \<Longrightarrow> win_ok fec (txReleaseAll w)"
  by (simp add: win_ok_def txReleaseAll_def)

lemma lane_change_release [simp]: "lane_change l (releaseFEC l)"
proof -
  have "txWindow (cancelFECFlushTimerLocked l) = txWindow l" "lane_leg (cancelFECFlushTimerLocked l) = lane_leg l"
    "lane_id (cancelFECFlushTimerLocked l) = lane_id l" "fecRepairCount (cancelFECFlushTimerLocked l) = fecRepairCount l"
    by (simp_all add: cancelFECFlushTimerLocked_def split: option.split)
  then show ?thesis using win_ok_release
    by (cases "txWindow l") (auto simp: lane_change_def lane_sendable_def releaseFEC_def lane_ok_def Let_def)
qed

text \<open>Updates of the core that the invariant does not look at.\<close>

lemma core_simps [simp]: "core (onCore f s) = f (core s)" "helloRuns (onCore f s) = helloRuns s" "pingHeap (onCore f s) = pingHeap s"
  "dialers (onCore f s) = dialers s" "sessionCtx (onCore f s) = sessionCtx s" "sessionCancel (onCore f s) = sessionCancel s"
  "ctxDone (onCore f s) = ctxDone s" "closedConns (onCore f s) = closedConns s"
  by (simp_all add: onCore_def)

lemma quiet_core:
  assumes "heap_change (lheap (core s)) (lheap (f (core s)))" "lanes (f (core s)) = lanes (core s)"
    "\<And>i. sessionFECEnabled i (core s) \<Longrightarrow> sessionFECEnabled i (f (core s))" "activeSession (f (core s)) = activeSession (core s)"
    "pings (laneManager (f (core s))) = pings (laneManager (core s))" "bootstrapLanes (f (core s)) = bootstrapLanes (core s)"
  shows "quiet s (onCore f s)"
  using assms by (auto simp: quiet_def onCore_def)

lemma quiet_onLane:
  assumes "r < length (lheap (core s)) \<Longrightarrow> lane_change (lheap (core s) ! r) (f (lheap (core s) ! r))"
  shows "quiet s (onLane r f s)"
  unfolding onLane_def
  by (rule quiet_core) (use assms in \<open>simp_all add: updLane_def heap_change_upd sessionFECEnabled_def activeSession_def\<close>)

lemma qos_pings [simp]: "pings (RegisterQoS k q m) = pings m" "pings (PutBwLoop i l m) = pings m"
  "pings (DeleteBwLoop i m) = pings m" "pings (SetRemoteComplete x m) = pings m"
  by (simp_all add: RegisterQoS_def PutBwLoop_def DeleteBwLoop_def SetRemoteComplete_def)

named_theorems quiets

lemma quiet_manager [quiets]: "(\<And>m. pings (f (core s) m) = pings m) \<Longrightarrow> quiet s (onCore (\<lambda>c. c\<lparr>laneManager := f c (laneManager c)\<rparr>) s)"
  by (rule quiet_core) (simp_all add: sessionFECEnabled_def activeSession_def)

lemma quiet_sched [quiets]: "quiet s (onCore (\<lambda>c. c\<lparr>bwSched := f c\<rparr>) s)"
  by (rule quiet_core) (simp_all add: sessionFECEnabled_def activeSession_def)

lemma quiet_sessions [quiets]: "quiet s (onCore (\<lambda>c. c\<lparr>sessionManager := f c\<rparr>) s)"
  by (rule quiet_core) (simp_all add: sessionFECEnabled_def activeSession_def)

lemma quiet_dirty [quiets]: "quiet s (markRunnableLanesDirty i s)"
  by (auto simp: quiet_def markRunnableLanesDirty_def Let_def)

lemma quiet_closeTCP [quiets]: "quiet s (closeTCPRefs rs s)"
  by (auto simp: quiet_def closeTCPRefs_def)

lemma quiet_registerQoS [quiets]: "quiet s (registerLaneQoS i r s)"
  unfolding registerLaneQoS_def by (rule quiet_manager) simp

lemma quiet_abort [quiets]: "quiet s (abortBwTarget i l leg s)"
  by (auto simp: abortBwTarget_def quiet_sched split: option.split prod.split)

lemma quiet_start [quiets]: "quiet s (startBwScheduler s)"
  unfolding startBwScheduler_def by (auto intro!: quiet_core simp: sessionFECEnabled_def activeSession_def)

lemma quiet_sync [quiets]: "quiet s (syncBwSchedulerAfterLegActive i s)"
  by (simp add: syncBwSchedulerAfterLegActive_def quiet_start)

lemma quiet_put_ping:
  assumes "g_lane g = g_lane (pingHeap s ! n)" "g_leg g = g_leg (pingHeap s ! n)"
  shows "quiet s (s\<lparr>pingHeap := (pingHeap s)[n := g]\<rparr>)"
proof -
  have "map (\<lambda>g. (g_lane g, g_leg g)) ((pingHeap s)[n := g]) = map (\<lambda>g. (g_lane g, g_leg g)) (pingHeap s)"
    using assms by (cases "n < length (pingHeap s)") (simp_all add: map_update list_update_same_conv list_update_beyond)
  then show ?thesis by (simp add: quiet_def)
qed

lemma quiet_alive [quiets]: "quiet s (markPingAlive k s)"
  by (auto simp: markPingAlive_def intro!: quiet_put_ping split: option.split)

lemma quiet_active: "bound (lheap (core s)) r k \<Longrightarrow> quiet s (onLane r (onLeg (markActive k)) s)"
  by (rule quiet_onLane) (auto intro: lane_change_active)

lemma quiet_redial [quiets]: "quiet s (redialLane r s)"
  by (auto simp: redialLane_def quiet_def)

lemma quiet_reconnect [quiets]: "quiet s (reconnectTCP r s)"
  by (auto simp: reconnectTCP_def intro!: quiet_trans [OF quiet_onLane quiet_redial])

lemma quiet_expire [quiets]: "quiet s (helloOnExpire h s)"
  by (auto simp: helloOnExpire_def Let_def intro!: quiet_trans [OF quiet_trans [OF quiet_onLane quiet_abort] quiet_reconnect]
      quiet_trans [OF quiet_onLane quiet_abort])

lemma hello_bound: "life_inv A s \<Longrightarrow> h \<in> set (helloRuns s) \<Longrightarrow> bound (lheap (core s)) (h_lane h) (Kind (h_leg h))"
  by (simp add: life_inv_def runs_ok_def)

lemma ping_bound: "life_inv A s \<Longrightarrow> g \<in> set (pingHeap s) \<Longrightarrow> bound (lheap (core s)) (g_lane g) (Kind (g_leg g))"
  by (simp add: life_inv_def runs_ok_def)

lemma quiet_ack:
  assumes "bound (lheap (core s)) (h_lane h) (Kind (h_leg h))"
  shows "quiet s (helloOnAck h s)"
proof -
  let ?s1 = "onLane (h_lane h) (onLeg (markActive (Kind (h_leg h)))) s"
  let ?s2 = "if Kind (h_leg h) = KindUDP then markPingAlive (KeyForLeg (h_sessionID h) (h_laneID h) (h_leg h)) ?s1 else ?s1"
  let ?s3 = "syncBwSchedulerAfterLegActive (h_sessionID h) (markRunnableLanesDirty (h_sessionID h) ?s2)"
  have "quiet s ?s1" by (rule quiet_active [OF assms])
  moreover have "quiet ?s1 ?s2" by (simp add: quiet_alive)
  moreover have "quiet ?s2 ?s3" by (rule quiet_trans [OF quiet_dirty quiet_sync])
  moreover have "quiet ?s3 (helloOnAck h s)" by (auto simp: helloOnAck_def Let_def intro!: quiet_onLane)
  ultimately show ?thesis using quiet_trans by blast
qed

lemma quiet_putHello [quiets]: "quiet s (putHello h x s)"
  unfolding putHello_def by (rule quiet_sessions)

lemma quiet_ping_effect: "bound (lheap (core s)) (g_lane g) (Kind (g_leg g)) \<Longrightarrow> quiet s (pingEffect g e s)"
  by (cases e) (auto intro!: quiet_onLane quiet_active quiet_trans [OF quiet_onLane quiet_abort])

lemma bound_quiet: "quiet s s' \<Longrightarrow> bound (lheap (core s)) r k \<Longrightarrow> bound (lheap (core s')) r k"
  unfolding quiet_def using bound_change by blast

lemma quiet_ping_effects:
  "bound (lheap (core s)) (g_lane g) (Kind (g_leg g)) \<Longrightarrow> quiet s (fold (pingEffect g) es s)"
proof (induction es arbitrary: s)
  case (Cons e es)
  then show ?case using quiet_ping_effect [of s g e] bound_quiet quiet_trans by fastforce
qed simp

end
