(* ===== verification/SendLife.thy ===== *)
theory SendLife
  imports SendSession
begin

text \<open>
  The invariant of the session life cycle (\<open>SendSession\<close>) and what its operations leave behind.
\<close>

section \<open>New lanes and goroutines\<close>

text \<open>What the invariant says of the runs, at hand.\<close>

lemma inv_runs:
  assumes inv: "life_inv A s" and c: "core s' = core s" "dialers s' = dialers s"
    and h: "\<And>h. h \<in> set (helloRuns s') \<Longrightarrow> h \<in> set (helloRuns s) \<or> bound (lheap (core s)) (h_lane h) (Kind (h_leg h))"
    and g: "pingHeap s' = pingHeap s"
  shows "life_inv A s'"
  using inv h unfolding life_inv_def runs_ok_def c g by blast

lemma inv_hello:
  assumes inv: "life_inv A s" and b: "bound (lheap (core s)) r (Kind leg)"
  shows "life_inv A (openLaneHello ctx p sess r i leg nowMS s)"
proof -
  let ?o = "heap (sessionManager (core s)) ! p"
  let ?s = "onCore (\<lambda>c. c\<lparr>sessionManager := (sessionManager c)\<lparr>heap := (heap (sessionManager c))[p := Open ?o helloConfig nowMS]\<rparr>\<rparr>) s"
  have 1: "life_inv A ?s" by (rule inv_quiet [OF inv quiet_sessions])
  have 2: "lheap (core ?s) = lheap (core s)" by simp
  show ?thesis
  proof (cases "Kind leg = 0")
    case False
    show ?thesis by (rule inv_runs [OF 1]) (use False b in \<open>auto simp: openLaneHello_def onCore_def Let_def\<close>)
  qed (use inv in \<open>simp add: openLaneHello_def\<close>)
qed

lemma inv_ping:
  assumes inv: "life_inv A s" and b: "bound (lheap (core s)) r (Kind leg)"
  shows "life_inv A (startLanePing ctx sess r leg s)"
proof -
  have "\<And>k n. LookupPing k (laneManager (core s)) = Some n \<Longrightarrow> n < length (pingHeap s)"
    using inv by (simp add: life_inv_def runs_ok_def)
  then show ?thesis using assms
    by (auto simp: startLanePing_def registerPingIfAbsent_def Let_def life_inv_def runs_ok_def LookupPing_def less_SucI send_ok_def
        sessionFECEnabled_def split: if_splits)
qed

lemma lane_sendable_new: "leg_ok (lane_leg l) \<Longrightarrow> lane_id l = i \<Longrightarrow> lane_ok l \<Longrightarrow> txWindow l = Some (newTxSLCWindow maxFECSourceSpan) \<Longrightarrow> lane_sendable fec i l"
  by (auto simp: lane_sendable_def win_ok_def newTxSLCWindow_def)

lemma inv_new_lane:
  assumes inv: "life_inv A s" and l: "\<And>fec. lane_sendable fec i l" and A: "A sess"
  shows "life_inv A (onCore (\<lambda>c. c\<lparr>lheap := lheap c @ [l], lanes := (lanes c)((sess, i) \<mapsto> length (lheap c))\<rparr>) s)"
proof -
  define c where "c = (core s)\<lparr>lheap := lheap (core s) @ [l], lanes := (lanes (core s))((sess, i) \<mapsto> length (lheap (core s)))\<rparr>"
  have c: "lheap c = lheap (core s) @ [l]" "lanes c = (lanes (core s))((sess, i) \<mapsto> length (lheap (core s)))"
    "sessionFECEnabled j c = sessionFECEnabled j (core s)" "laneManager c = laneManager (core s)" "bootstrapLanes c = bootstrapLanes (core s)" for j
    by (simp_all add: c_def sessionFECEnabled_def)
  have b: "bound (lheap (core s)) r k \<Longrightarrow> bound (lheap c) r k" for r k by (auto simp: bound_def nth_append c)
  have ok: "lanes (core s) k = Some r \<Longrightarrow> r < length (lheap (core s))
      \<and> lane_sendable (sessionFECEnabled (fst k) (core s)) (snd k) (lheap (core s) ! r) \<and> (\<forall>k'. lanes (core s) k' = Some r \<longrightarrow> k' = k)" for k r
    using inv by (cases k) (simp add: life_inv_def send_ok_def)
  have "r < length (lheap c) \<and> lane_sendable (sessionFECEnabled (fst k) c) (snd k) (lheap c ! r) \<and> (\<forall>k'. lanes c k' = Some r \<longrightarrow> k' = k)"
    if r: "lanes c k = Some r" for k r
  proof (cases "k = (sess, i)")
    case True
    then have "r = length (lheap (core s))" using r by (simp add: c)
    moreover from this have "lanes (core s) k' \<noteq> Some r" for k' using ok by blast
    ultimately show ?thesis using True l by (simp add: c)
  next
    case False
    then have "lanes (core s) k = Some r" using r by (simp add: c)
    from ok [OF this] show ?thesis by (simp add: c nth_append)
  qed
  then have "send_ok c" unfolding send_ok_def by (metis fst_conv snd_conv)
  moreover have "A (fst k)" if "lanes c k = Some r" for k r
    using inv A that by (cases k) (auto simp: life_inv_def c split: if_splits)
  moreover have "runs_ok (s\<lparr>core := c\<rparr>)"
    using inv b unfolding life_inv_def runs_ok_def by (simp add: c less_SucI)
  ultimately show ?thesis by (simp add: life_inv_def onCore_def c_def)
qed

text \<open>A new dialer of a lane that is there.\<close>

lemma inv_dialer:
  "life_inv A s \<Longrightarrow> r < length (lheap (core s)) \<Longrightarrow> life_inv A (s\<lparr>dialers := (dialers s)(r \<mapsto> d)\<rparr>)"
  by (auto simp: life_inv_def runs_ok_def)

lemma inv_mono: "life_inv A s \<Longrightarrow> (\<And>i. A i \<Longrightarrow> B i) \<Longrightarrow> life_inv B s"
  by (auto simp: life_inv_def)

lemma bound_append: "bound hp r k \<Longrightarrow> bound (hp @ ls) r k"
  by (auto simp: bound_def nth_append)

lemma create_lheap [simp]:
  "lheap (core (registerLaneQoS sess r s)) = lheap (core s)"
  "lheap (core (openLaneHello ctx p sess r i leg nowMS s)) = lheap (core s)"
  "lheap (core (startLanePing ctx sess r leg s)) = lheap (core s)"
  by (simp_all add: registerLaneQoS_def openLaneHello_def startLanePing_def Let_def split: prod.split bool.split)

lemma inv_bootstrapLane:
  assumes inv: "life_inv A s" and A: "A sess" and b: "Kind (b_Leg b) = KindUDP"
  shows "life_inv A (bootstrapLaneUp ctx p sess nowMS b s)"
proof -
  define l where "l = onLeg (bindUDP (b_Leg b)) (newLaneRuntime (b_LaneID b) (b_Weight b))"
  let ?r = "length (lheap (core s))"
  define s1 where "s1 = onCore (\<lambda>c. c\<lparr>lheap := lheap c @ [l], lanes := (lanes c)((sess, b_LaneID b) \<mapsto> ?r)\<rparr>) s"
  have l: "lane_sendable fec (b_LaneID b) l" "Kind (ref (udp (lane_leg l))) = KindUDP" for fec
    using b by (auto intro!: lane_sendable_new simp: l_def onLeg_def bindUDP_def newLaneRuntime_def leg_ok_def newLeg_def lane_ok_def Let_def)
  have inv1: "life_inv A s1" unfolding s1_def using inv_new_lane [OF inv l(1) A] by (simp add: onCore_def)
  have bd: "bound (lheap (core s1)) ?r (Kind (b_Leg b))" using l(2) b by (simp add: s1_def bound_def)
  define s2 where "s2 = startLanePing ctx sess ?r (b_Leg b) (openLaneHello ctx p sess ?r (b_LaneID b) (b_Leg b) nowMS (registerLaneQoS sess ?r s1))"
  have inv2: "life_inv A s2" unfolding s2_def
    by (rule inv_ping [OF inv_hello [OF inv_quiet [OF inv1 quiet_registerQoS]]]) (use bd in simp_all)
  have len: "?r < length (lheap (core s2))" by (simp add: s2_def s1_def)
  have inv3: "life_inv A (onLane ?r (\<lambda>l. l\<lparr>hasDialer := True\<rparr>) s2)" by (rule inv_quiet [OF inv2 quiet_onLane]) simp
  have len3: "?r < length (lheap (core (onLane ?r (\<lambda>l. l\<lparr>hasDialer := True\<rparr>) s2)))" using len by (simp add: onLane_def)
  have eq: "bootstrapLaneUp ctx p sess nowMS b s =
      (if b_TCPRemote b \<noteq> [] \<and> hasStream (core s2)
       then (onLane ?r (\<lambda>l. l\<lparr>hasDialer := True\<rparr>) s2)\<lparr>dialers := (dialers s2)(?r \<mapsto>
          \<lparr>dr_dialer = newDialer True, dr_remote = b_TCPRemote b, dr_ctx = ctx, dr_sess = p, dr_sessionID = sess\<rparr>)\<rparr>
       else s2)"
    by (simp add: bootstrapLaneUp_def Let_def s2_def s1_def l_def)
  show ?thesis unfolding eq using inv_dialer [OF inv3 len3] inv2 by (simp add: onLane_def)
qed

lemma bootstrapLaneUp_fields [simp]:
  "bootstrapLanes (core (bootstrapLaneUp ctx p sess nowMS b s)) = bootstrapLanes (core s)"
  "activeSession (core (bootstrapLaneUp ctx p sess nowMS b s)) = activeSession (core s)"
  by (simp_all add: bootstrapLaneUp_def startLanePing_def openLaneHello_def registerLaneQoS_def onLane_def updLane_def onCore_def
      activeSession_def Let_def split: prod.split bool.split)

lemma inv_bootstrapLanes:
  assumes "life_inv A s" "A sess" "\<And>b. b \<in> set bs \<Longrightarrow> Kind (b_Leg b) = KindUDP"
  shows "life_inv A (fold (bootstrapLaneUp ctx p sess nowMS) bs s)"
  using assms by (induction bs arbitrary: s) (simp_all add: inv_bootstrapLane)

section \<open>Sessions come and go\<close>

lemma inv_cancel: "life_inv A (cancelCtx c s) = life_inv A s"
  by (simp add: cancelCtx_def life_inv_def runs_ok_def split: option.split)

lemma inv_context: "life_inv A (fst (setSessionContext s)) = life_inv A s"
  by (simp add: setSessionContext_def life_inv_def runs_ok_def Let_def)

lemma quiet_releases: "quiet s (s\<lparr>core := fold (\<lambda>r. updLane r releaseFEC) rs (core s)\<rparr>)"
proof (induction rs arbitrary: s)
  case (Cons r rs)
  have "quiet s (onLane r releaseFEC s)" by (rule quiet_onLane) simp
  moreover have "s\<lparr>core := fold (\<lambda>r. updLane r releaseFEC) (r # rs) (core s)\<rparr> =
      (onLane r releaseFEC s)\<lparr>core := fold (\<lambda>r. updLane r releaseFEC) rs (core (onLane r releaseFEC s))\<rparr>"
    by (simp add: onLane_def onCore_def)
  ultimately show ?case using Cons.IH [of "onLane r releaseFEC s"] quiet_trans by metis
qed simp

text \<open>What \<open>teardownSession\<close> leaves: nothing of the session.\<close>

lemma laneIDs_all: "i \<in> set laneIDs"
proof -
  have "unat i < 2 ^ LENGTH(8)" by (rule unsigned_less)
  then have "i = of_nat (unat i)" "unat i < 256" by simp_all
  then show ?thesis unfolding laneIDs_def by (metis atLeastLessThan_iff image_eqI le0 set_map set_upt)
qed

lemma teardown_state:
  assumes "teardownSession sess s = (s', refs)"
  shows "lanes (core s') = (\<lambda>k. if fst k = sess then None else lanes (core s) k)"
    "sendStates (core s') = (sendStates (core s))(sess := None)" "strategies (core s') = (strategies (core s))(sess := None)"
    "laneManager (core s') = Reset (laneManager (core s))" "bwSched (core s') = None"
    "sessionManager (core s') = Session.Delete True (sessionManager (core s)) sess"
    "activeSession (core s') = (activeSessionID (core s), hasActiveSession (core s) \<and> activeSessionID (core s) \<noteq> sess)"
    "bootstrapLanes (core s') = bootstrapLanes (core s)" "hasStream (core s') = hasStream (core s)"
    "sessionCtx s' = None" "sessionCancel s' = None" "baseCtx s' = baseCtx s"
    "ctxDone s' = (case sessionCancel s of None \<Rightarrow> ctxDone s | Some n \<Rightarrow> (ctxDone s)[n := True])"
    "runnableCache s' = (runnableCache s)(sess := None)" "dialers s' = dialers s" "helloRuns s' = helloRuns s"
    "pingHeap s' = pingHeap s" "closedConns s' = closedConns s" "length (lheap (core s')) = length (lheap (core s))"
    "set refs = {conn. \<exists>i r. lanes (core s) (sess, i) = Some r \<and> conn = refForKind KindTCP (lane_leg (lheap (core s) ! r)) \<and> ConnID conn \<noteq> []}"
    "bwCapBps (core s') = bwCapBps (core s)" "enableBW (core s') = enableBW (core s)"
proof -
  have fold: "lanes (fold (\<lambda>r. updLane r releaseFEC) rs c) = lanes c" "sendStates (fold (\<lambda>r. updLane r releaseFEC) rs c) = sendStates c"
      "strategies (fold (\<lambda>r. updLane r releaseFEC) rs c) = strategies c" "laneManager (fold (\<lambda>r. updLane r releaseFEC) rs c) = laneManager c"
      "sessionManager (fold (\<lambda>r. updLane r releaseFEC) rs c) = sessionManager c"
      "activeSessionID (fold (\<lambda>r. updLane r releaseFEC) rs c) = activeSessionID c"
      "hasActiveSession (fold (\<lambda>r. updLane r releaseFEC) rs c) = hasActiveSession c"
      "bootstrapLanes (fold (\<lambda>r. updLane r releaseFEC) rs c) = bootstrapLanes c" "hasStream (fold (\<lambda>r. updLane r releaseFEC) rs c) = hasStream c"
      "bwCapBps (fold (\<lambda>r. updLane r releaseFEC) rs c) = bwCapBps c" "enableBW (fold (\<lambda>r. updLane r releaseFEC) rs c) = enableBW c"
      "length (lheap (fold (\<lambda>r. updLane r releaseFEC) rs c)) = length (lheap c)" for rs and c :: "'a send"
    by (induction rs arbitrary: c) (simp_all add: updLane_def)
  have cancel: "core (cancelCtx n t) = core t" "sessionCtx (cancelCtx n t) = sessionCtx t" "sessionCancel (cancelCtx n t) = sessionCancel t"
      "baseCtx (cancelCtx n t) = baseCtx t" "runnableCache (cancelCtx n t) = runnableCache t" "dialers (cancelCtx n t) = dialers t"
      "helloRuns (cancelCtx n t) = helloRuns t" "pingHeap (cancelCtx n t) = pingHeap t" "closedConns (cancelCtx n t) = closedConns t"
      "ctxDone (cancelCtx n t) = (case n of None \<Rightarrow> ctxDone t | Some n \<Rightarrow> (ctxDone t)[n := True])" for n and t :: "'a life"
    by (simp_all add: cancelCtx_def split: option.split)
  have rs: "set (List.map_filter (\<lambda>i. lanes (core s) (sess, i)) laneIDs) = {r. \<exists>i. lanes (core s) (sess, i) = Some r}"
    using laneIDs_all by (force simp: List.map_filter_def)
  note s' = assms [unfolded teardownSession_def Let_def prod.inject, THEN conjunct1, symmetric]
  note refs = assms [unfolded teardownSession_def Let_def prod.inject, THEN conjunct2, symmetric]
  show "lanes (core s') = (\<lambda>k. if fst k = sess then None else lanes (core s) k)"
    "sendStates (core s') = (sendStates (core s))(sess := None)" "strategies (core s') = (strategies (core s))(sess := None)"
    "laneManager (core s') = Reset (laneManager (core s))" "bwSched (core s') = None"
    "sessionManager (core s') = Session.Delete True (sessionManager (core s)) sess"
    "activeSession (core s') = (activeSessionID (core s), hasActiveSession (core s) \<and> activeSessionID (core s) \<noteq> sess)"
    "bootstrapLanes (core s') = bootstrapLanes (core s)" "hasStream (core s') = hasStream (core s)"
    "sessionCtx s' = None" "sessionCancel s' = None" "baseCtx s' = baseCtx s"
    "ctxDone s' = (case sessionCancel s of None \<Rightarrow> ctxDone s | Some n \<Rightarrow> (ctxDone s)[n := True])"
    "runnableCache s' = (runnableCache s)(sess := None)" "dialers s' = dialers s" "helloRuns s' = helloRuns s"
    "pingHeap s' = pingHeap s" "closedConns s' = closedConns s" "length (lheap (core s')) = length (lheap (core s))"
    "bwCapBps (core s') = bwCapBps (core s)" "enableBW (core s') = enableBW (core s)"
    unfolding s' by (simp_all add: fold cancel activeSession_def cong: if_cong option.case_cong)
  show "set refs = {conn. \<exists>i r. lanes (core s) (sess, i) = Some r \<and> conn = refForKind KindTCP (lane_leg (lheap (core s) ! r)) \<and> ConnID conn \<noteq> []}"
    unfolding refs cancel using rs by (auto simp: cancel)
qed

text \<open>A teardown keeps the invariant of the sessions that are left.\<close>

lemma inv_teardown:
  assumes inv: "life_inv A s" and td: "teardownSession sess s = (s', refs)"
  shows "life_inv (\<lambda>i. A i \<and> i \<noteq> sess) s'"
proof -
  note st = teardown_state [OF td]
  define rs where "rs = List.map_filter (\<lambda>i. lanes (core s) (sess, i)) laneIDs"
  define s1 where "s1 = s\<lparr>core := fold (\<lambda>r. updLane r releaseFEC) rs (core s)\<rparr>"
  have inv1: "life_inv A s1" unfolding s1_def by (rule inv_quiet [OF inv quiet_releases])
  have fold: "lheap (fold (\<lambda>r. updLane r releaseFEC) xs c) = fold (\<lambda>r hp. hp[r := releaseFEC (hp ! r)]) xs (lheap c)"
    for xs and c :: "'a send" by (induction xs arbitrary: c) (simp_all add: updLane_def)
  have keep: "lanes (core s1) = lanes (core s)" "sendStates (core s1) = sendStates (core s)" "laneManager (core s1) = laneManager (core s)"
      "bootstrapLanes (core s1) = bootstrapLanes (core s)" "helloRuns s1 = helloRuns s" "pingHeap s1 = pingHeap s" "dialers s1 = dialers s"
  proof -
    have "lanes (fold (\<lambda>r. updLane r releaseFEC) xs c) = lanes c \<and> sendStates (fold (\<lambda>r. updLane r releaseFEC) xs c) = sendStates c
        \<and> laneManager (fold (\<lambda>r. updLane r releaseFEC) xs c) = laneManager c
        \<and> bootstrapLanes (fold (\<lambda>r. updLane r releaseFEC) xs c) = bootstrapLanes c" for xs and c :: "'a send"
      by (induction xs arbitrary: c) (simp_all add: updLane_def)
    then show "lanes (core s1) = lanes (core s)" "sendStates (core s1) = sendStates (core s)" "laneManager (core s1) = laneManager (core s)"
      "bootstrapLanes (core s1) = bootstrapLanes (core s)" by (simp_all add: s1_def)
  qed (simp_all add: s1_def)
  have hp: "lheap (core s') = lheap (core s1)"
  proof -
    have "core (cancelCtx n t) = core t" for n and t :: "'a life" by (simp add: cancelCtx_def split: option.split)
    then show ?thesis
      using td [unfolded teardownSession_def Let_def prod.inject, THEN conjunct1, symmetric] by (simp add: s1_def rs_def fold)
  qed
  have "send_ok (core s')"
    unfolding send_ok_def
  proof (intro allI impI)
    fix sess' i r assume l: "lanes (core s') (sess', i) = Some r"
    then have ne: "sess' \<noteq> sess" and l1: "lanes (core s1) (sess', i) = Some r" by (auto simp: st(1) keep split: if_splits)
    have "sessionFECEnabled sess' (core s') = sessionFECEnabled sess' (core s1)"
      using ne by (simp add: sessionFECEnabled_def st(2) keep)
    then show "r < length (lheap (core s')) \<and> lane_sendable (sessionFECEnabled sess' (core s')) i (lheap (core s') ! r)
        \<and> (\<forall>k. lanes (core s') k = Some r \<longrightarrow> k = (sess', i))"
      using inv1 l1 unfolding life_inv_def send_ok_def hp by (auto simp: st(1) keep split: if_splits)
  qed
  moreover have "A (fst k) \<and> fst k \<noteq> sess" if "lanes (core s') k = Some r" for k r
    using inv that by (cases k) (auto simp: life_inv_def st(1) split: if_splits)
  moreover have "runs_ok s'"
    using inv1 unfolding life_inv_def runs_ok_def hp st(4,8,15,16,17) keep by (simp add: LookupPing_def Reset_def)
  ultimately show ?thesis by (simp add: life_inv_def)
qed

lemma inv_close: "life_inv A (closeTCPRefs refs s) = life_inv A s"
  by (simp add: closeTCPRefs_def life_inv_def runs_ok_def)

text \<open>The active session decides which lanes there may be.\<close>

lemma life_okI: "life_inv A s \<Longrightarrow> (\<And>i. A i \<Longrightarrow> activeSession (core s) = (i, True)) \<Longrightarrow> life_ok s"
  unfolding life_ok_def by (rule inv_mono)

lemma inv_send_state:
  assumes "life_inv (\<lambda>i. False) s"
  shows "life_inv A (onCore (\<lambda>c. (activateSession sess c)\<lparr>sessionManager := st, sendStates := ss\<rparr>) s)"
proof -
  have "lanes (core s) k = None" for k using assms by (cases k) (auto simp: life_inv_def)
  then show ?thesis using assms by (simp add: life_inv_def send_ok_def runs_ok_def activateSession_def)
qed

lemma ok_markDirty: "life_ok (markRunnableLanesDirty i s) = life_ok s"
  by (simp add: markRunnableLanesDirty_def life_ok_def life_inv_def runs_ok_def Let_def)

lemma inv_markDirty: "life_inv A (markRunnableLanesDirty i s) = life_inv A s"
  by (simp add: markRunnableLanesDirty_def life_inv_def runs_ok_def Let_def)

lemma fold_active [simp]:
  "activeSession (core (fold (bootstrapLaneUp ctx p sess nowMS) bs s)) = activeSession (core s)"
  "bootstrapLanes (core (fold (bootstrapLaneUp ctx p sess nowMS) bs s)) = bootstrapLanes (core s)"
  by (induction bs arbitrary: s) simp_all

lemma ok_bootstrapSession:
  assumes inv: "life_inv (\<lambda>i. False) s"
  shows "life_ok (fst (bootstrapSession rand nowMS s))"
proof -
  obtain s1 ctx where c: "setSessionContext s = (s1, ctx)" by (meson surj_pair)
  have inv1: "life_inv (\<lambda>i. False) s1" using inv inv_context [of "\<lambda>i. False" s] c by simp
  have fail: "life_ok (cancelCtx ctx s1)" using inv1 by (intro life_okI [of "\<lambda>i. False"]) (simp_all add: inv_cancel)
  show ?thesis
  proof (cases "Session.New rand")
    case (Inl e)
    then show ?thesis using fail c by (simp add: bootstrapSession_def)
  next
    case (Inr o')
    let ?st = "sessionManager (core s1)"
    obtain st added where a: "Add True (?st\<lparr>heap := heap ?st @ [o']\<rparr>) (Some (length (heap ?st))) = (st, added)" by (meson surj_pair)
    show ?thesis
    proof (cases added)
      case False
      then show ?thesis using fail c Inr a by (simp add: bootstrapSession_def Let_def)
    next
      case True
      define s2 where "s2 = onCore (\<lambda>c. (activateSession (sid o') c)\<lparr>sessionManager := st,
          sendStates := (sendStates c)(sid o' \<mapsto> \<lparr>nextRepairKey = 0, fecEnabled = False\<rparr>)\<rparr>) s1"
      define s3 where "s3 = fold (bootstrapLaneUp ctx (length (heap ?st)) (sid o') nowMS) (bootstrapLanes (core s2)) s2"
      have lanes: "Kind (b_Leg b) = KindUDP" if "b \<in> set (bootstrapLanes (core s2))" for b
        using inv1 that by (simp add: life_inv_def runs_ok_def s2_def activateSession_def)
      have "life_inv (\<lambda>i. i = sid o') s2"
        using inv1 unfolding s2_def life_inv_def runs_ok_def send_ok_def by (simp add: activateSession_def)
      then have "life_inv (\<lambda>i. i = sid o') s3" unfolding s3_def by (rule inv_bootstrapLanes) (use lanes in auto)
      moreover have "activeSession (core s2) = (sid o', True)" by (simp add: s2_def activeSession_def activateSession_def)
      then have "activeSession (core s3) = (sid o', True)" by (simp add: s3_def)
      ultimately have "life_ok s3" by (intro life_okI [of "\<lambda>i. i = sid o'"]) simp_all
      then have "life_ok (markRunnableLanesDirty (sid o') s3)" by (simp add: ok_markDirty)
      moreover have "fst (bootstrapSession rand nowMS s) =
          (let t = markRunnableLanesDirty (sid o') s3 in if startBwSchedulerAtBootstrap (core t) then startBwScheduler t else t)"
        using True c Inr a by (simp add: bootstrapSession_def Let_def s2_def s3_def)
      ultimately show ?thesis using ok_quiet quiet_start by (auto simp: Let_def)
    qed
  qed
qed

lemma ok_no_lanes: "life_ok s \<Longrightarrow> \<not> hasActiveSession (core s) \<Longrightarrow> life_inv (\<lambda>i. False) s"
  by (auto simp: life_ok_def activeSession_def)

lemma teardown_active:
  assumes "life_ok s" "teardownSession (activeSessionID (core s)) s = (s', refs)"
  shows "life_inv (\<lambda>i. False) s'"
  by (rule inv_mono [OF inv_teardown [OF assms(1) [unfolded life_ok_def] assms(2)]]) (simp add: activeSession_def)

lemma ok_Rebootstrap: "life_ok s \<Longrightarrow> life_ok (fst (Rebootstrap rand nowMS s))"
proof -
  assume ok: "life_ok s"
  obtain s1 refs where td: "teardownSession (activeSessionID (core s)) s = (s1, refs)" by (meson surj_pair)
  obtain s2 err where b: "bootstrapSession rand nowMS s1 = (s2, err)" by (meson surj_pair)
  have "life_ok (closeTCPRefs refs s2)"
    using ok_bootstrapSession [OF teardown_active [OF ok td], of rand nowMS] b by (auto intro: ok_quiet quiet_closeTCP)
  then show ?thesis using ok td b by (simp add: Rebootstrap_def)
qed

lemma ok_CloseSession: "life_ok s \<Longrightarrow> life_ok (CloseSession sess s)"
proof -
  assume ok: "life_ok s"
  obtain s1 refs where td: "teardownSession sess s = (s1, refs)" by (meson surj_pair)
  show ?thesis
  proof (cases "activeSession (core s) = (sess, True)")
    case True
    then have "life_inv (\<lambda>i. False) s1" using teardown_active [OF ok, of s1 refs] td by (simp add: activeSession_def)
    then have "life_ok (closeTCPRefs refs s1)" by (intro life_okI [of "\<lambda>i. False"]) (simp_all add: inv_close)
    then show ?thesis using td True by (simp add: CloseSession_def)
  qed (use ok in \<open>simp add: CloseSession_def\<close>)
qed

text \<open>The passive side: afterwards at most the admitted session has lanes.\<close>

lemma inv_ensure:
  assumes ok: "life_ok s" and e: "ensurePassiveSessionContext sess s = (s', ctx, refs)"
  shows "life_inv (\<lambda>i. i = sess) s'"
proof -
  obtain a act where a: "activeSession (core s) = (a, act)" by (meson surj_pair)
  show ?thesis
  proof (cases "act \<and> a = sess \<and> sessionCancel s \<noteq> None")
    case True
    then show ?thesis using ok e a inv_mono [of _ s "\<lambda>i. i = sess"] by (auto simp: ensurePassiveSessionContext_def life_ok_def)
  next
    case False
    obtain t rs where t: "(if act \<and> a \<noteq> sess then teardownSession a s else (s, [])) = (t, rs)" by (meson surj_pair)
    have "life_inv (\<lambda>i. i = sess) t"
    proof (cases "act \<and> a \<noteq> sess")
      case True
      then show ?thesis using t teardown_active [OF ok, of t rs] a by (auto simp: activeSession_def intro: inv_mono)
    next
      case False
      then show ?thesis using ok a t inv_mono [of _ s "\<lambda>i. i = sess"] by (auto simp: life_ok_def)
    qed
    then have "life_inv (\<lambda>i. i = sess) (fst (setSessionContext t))" by (simp add: inv_context)
    moreover have "s' = fst (setSessionContext t)"
      using e a False t by (auto simp: ensurePassiveSessionContext_def split: prod.splits)
    ultimately show ?thesis by simp
  qed
qed

lemma inv_passiveLane:
  assumes "life_inv A s" "A sess" "passiveLane sess i s = (s', r)"
  shows "life_inv A s' \<and> r < length (lheap (core s'))"
proof (cases "getLane sess i s")
  case (Some r')
  then show ?thesis using assms by (auto simp: passiveLane_def getLane_def life_inv_def send_ok_def)
next
  case None
  have "lane_sendable fec i (newLaneRuntime i 1)" for fec
    by (rule lane_sendable_new) (simp_all add: newLaneRuntime_def leg_ok_def newLeg_def Let_def lane_ok_def)
  from inv_new_lane [OF assms(1) this assms(2)] None assms(3) show ?thesis by (auto simp: passiveLane_def Let_def onCore_def)
qed

definition bindConn :: "nat \<Rightarrow> LegRef \<Rightarrow> 'l life \<Rightarrow> 'l life" where
  "bindConn r leg s = (if Kind leg = KindUDP then onLane r (onLeg (bindUDP leg)) s
     else if Kind leg = KindTCP then onLane r (onLeg (bindTCP leg)) s else s)"

lemma bind_conn:
  assumes "r < length (lheap (core s))"
  shows "quiet s (bindConn r leg s)" "bound (lheap (core (bindConn r leg s))) r (Kind leg)"
proof -
  show "quiet s (bindConn r leg s)" by (auto simp: bindConn_def intro!: quiet_onLane lane_change_bind)
  show "bound (lheap (core (bindConn r leg s))) r (Kind leg)"
    using assms by (auto simp: bindConn_def onLane_def updLane_def bound_def onLeg_def bindUDP_def bindTCP_def)
qed

lemma quiet_enable [quiets]: "quiet s (onCore (enableSessionFEC i) s)"
  by (rule quiet_core) (auto simp: enableSessionFEC_def sessionFECEnabled_def activeSession_def split: option.splits)

lemma quiet_sendState [quiets]:
  "quiet s (onCore (\<lambda>c. case sendStates c sess of Some _ \<Rightarrow> c
     | None \<Rightarrow> c\<lparr>sendStates := (sendStates c)(sess \<mapsto> \<lparr>nextRepairKey = 0, fecEnabled = False\<rparr>)\<rparr>) s)"
  by (rule quiet_core) (auto simp: sessionFECEnabled_def activeSession_def split: option.splits)

lemma ok_admitLane:
  assumes ok: "life_ok s"
  shows "life_ok (admitLane sess i caps profile leg s)"
proof -
  obtain s1 ctx refs where e: "ensurePassiveSessionContext sess s = (s1, ctx, refs)" by (meson prod_cases3)
  define s2 where "s2 = onCore (\<lambda>c. case sendStates c sess of Some _ \<Rightarrow> c
     | None \<Rightarrow> c\<lparr>sendStates := (sendStates c)(sess \<mapsto> \<lparr>nextRepairKey = 0, fecEnabled = False\<rparr>)\<rparr>) s1"
  obtain s3 r where p: "passiveLane sess i s2 = (s3, r)" by (meson surj_pair)
  define s4 where "s4 = bindConn r leg (registerLaneQoS sess r s3)"
  define s5 where "s5 = onLane r (onLeg (markActive (Kind leg))) s4"
  define s6 where "s6 = (if Kind leg = KindUDP then markPingAlive (KeyForLeg sess i leg) s5 else s5)"
  define s7 where "s7 = (if caps AND CapFEC \<noteq> 0 \<and> profile = FECProfileSLC4Plus1 then onCore (enableSessionFEC sess) s6 else s6)"
  define s8 where "s8 = (if Kind leg = KindUDP \<and> LookupPing (KeyForLeg sess i leg) (laneManager (core s7)) = None
    then startLanePing ctx sess r leg s7 else s7)"
  have inv2: "life_inv (\<lambda>i. i = sess) s2" unfolding s2_def by (rule inv_quiet [OF inv_ensure [OF ok e] quiet_sendState])
  note 3 = inv_passiveLane [OF inv2 HOL.refl p]
  have r: "r < length (lheap (core (registerLaneQoS sess r s3)))" using 3 by simp
  have q4: "quiet s3 s4" unfolding s4_def by (rule quiet_trans [OF quiet_registerQoS bind_conn(1) [OF r]])
  have b4: "bound (lheap (core s4)) r (Kind leg)" unfolding s4_def by (rule bind_conn(2) [OF r])
  have q5: "quiet s4 s5" unfolding s5_def by (rule quiet_active [OF b4])
  have q6: "quiet s5 s6" by (simp add: s6_def quiet_alive)
  have q7: "quiet s6 s7" by (simp add: s7_def quiet_enable)
  have q: "quiet s3 s7" and b7: "bound (lheap (core s7)) r (Kind leg)"
    using quiet_trans [OF q4 quiet_trans [OF q5 quiet_trans [OF q6 q7]]] bound_quiet [OF quiet_trans [OF q5 quiet_trans [OF q6 q7]] b4] by blast+
  have inv8: "life_inv (\<lambda>i. i = sess) s8" using inv_quiet [OF _ q] inv_ping [OF inv_quiet [OF _ q] b7] 3 by (simp add: s8_def)
  have "life_inv (\<lambda>i. i = sess) (onCore (activateSession sess) s8)"
    using inv8 unfolding life_inv_def send_ok_def runs_ok_def sessionFECEnabled_def by (simp add: activateSession_def)
  then have "life_ok (onCore (activateSession sess) s8)"
    by (rule life_okI) (simp add: activateSession_def activeSession_def)
  then have "life_ok (closeTCPRefs refs (markRunnableLanesDirty sess (onCore (activateSession sess) s8)))"
    by (metis ok_quiet quiet_closeTCP ok_markDirty)
  moreover have "admitLane sess i caps profile leg s = closeTCPRefs refs (markRunnableLanesDirty sess (onCore (activateSession sess) s8))"
    unfolding admitLane_def e prod.case Let_def s2_def [symmetric] p bindConn_def [symmetric] s4_def [symmetric] s5_def [symmetric]
      s6_def [symmetric] s7_def [symmetric] s8_def [symmetric] by (rule HOL.refl)
  ultimately show ?thesis by simp
qed

lemma ok_admit: "life_ok s \<Longrightarrow> life_ok (admitPassiveHelloAck f leg s)"
  unfolding admitPassiveHelloAck_def using ok_admitLane
  by (auto split: option.split body.split prod.split)

section \<open>Control frames and callbacks\<close>

lemma quiet_out: "quiet s (onCore (\<lambda>c. c\<lparr>outq := q\<rparr>) s)"
  by (rule quiet_core) (simp_all add: sessionFECEnabled_def activeSession_def)

lemma onCore_same: "onCore (\<lambda>c. c\<lparr>outq := outq (core s)\<rparr>) s = s"
  by (simp add: onCore_def)

lemma writeFrameOnLeg_out: "writeFrameOnLeg live leg f c = Some (c', e) \<Longrightarrow> \<exists>q. c' = c\<lparr>outq := q\<rparr>"
  by (auto simp: writeFrameOnLeg_def WriteTo_def split: option.splits sum.splits if_splits intro: exI [of _ "outq c"])

lemma sendControlFrame_out: "sendControlFrame live r f c = Some (c', e) \<Longrightarrow> \<exists>q. c' = c\<lparr>outq := q\<rparr>"
  by (auto simp: sendControlFrame_def WriteTo_def Let_def split: option.splits sum.splits if_splits intro: exI [of _ "outq c"])

lemma writeTo_cases:
  assumes "writeTo live leg f s = Some (s', e)"
  obtains q where "s' = onCore (\<lambda>c. c\<lparr>outq := q\<rparr>) s \<or> s' = admitPassiveHelloAck f leg (onCore (\<lambda>c. c\<lparr>outq := q\<rparr>) s)"
proof -
  obtain c er where w: "writeFrameOnLeg live leg f (core s) = Some (c, er)" using assms by (auto simp: writeTo_def split: option.splits)
  then obtain q where q: "c = (core s)\<lparr>outq := q\<rparr>" using writeFrameOnLeg_out by blast
  show thesis by (rule that [of q]) (use assms w q in \<open>auto simp: writeTo_def onCore_def split: option.splits\<close>)
qed

lemma WriteFrame_cases:
  assumes "WriteFrame live f to s = Some (s', e)"
  obtains q leg where "s' = onCore (\<lambda>c. c\<lparr>outq := q\<rparr>) s \<or> s' = admitPassiveHelloAck f leg (onCore (\<lambda>c. c\<lparr>outq := q\<rparr>) s)"
proof -
  have "s' = s \<or> (\<exists>leg. writeTo live leg f s = Some (s', e)) \<or> (\<exists>r c. sendControlFrame live r f (core s) = Some (c, e) \<and> s' = s\<lparr>core := c\<rparr>)"
    using assms by (auto simp: WriteFrame_def Let_def split: if_splits option.splits)
  then show thesis
  proof (elim disjE exE conjE)
    assume "s' = s" then show thesis using that [of "outq (core s)"] by (simp add: onCore_same)
  next
    fix leg assume "writeTo live leg f s = Some (s', e)"
    then show thesis by (rule writeTo_cases) (rule that)
  next
    fix r c assume w: "sendControlFrame live r f (core s) = Some (c, e)" and s': "s' = s\<lparr>core := c\<rparr>"
    obtain q where "c = (core s)\<lparr>outq := q\<rparr>" using sendControlFrame_out [OF w] by blast
    then show thesis using that [of q] s' by (simp add: onCore_def)
  qed
qed

lemma ok_WriteFrame: "life_ok s \<Longrightarrow> WriteFrame live f to s = Some (s', e) \<Longrightarrow> life_ok s'"
  by (erule WriteFrame_cases) (metis ok_quiet quiet_out ok_admit)

lemma WriteFrame_plain:
  assumes "WriteFrame live f to s = Some (s', e)" "f_type f \<noteq> TypeHELLOACK"
  shows "quiet s s'" "pingHeap s' = pingHeap s"
  using assms by (auto elim!: WriteFrame_cases simp: admitPassiveHelloAck_def quiet_out)

lemma WriteFrame_total: "estimateFrameSize f \<noteq> None \<Longrightarrow> WriteFrame live f to s \<noteq> None"
  by (auto simp: WriteFrame_def writeTo_def writeFrameOnLeg_def sendControlFrame_def encodeFrame_def Let_def
      split: option.split sum.split)

lemma ok_helloIterate:
  assumes ok: "life_ok s" and i: "helloIterate n live nowMS s = Some s'"
  shows "life_ok s'"
proof -
  let ?h = "helloRuns s ! n"
  obtain s1 e where w: "WriteFrame live (helloFrame (fecConfigured (core s)) (sid (heap (sessionManager (core s)) ! h_sess ?h))
      (h_laneID ?h) (h_nonce (helloObj ?h s))) (h_leg ?h) s = Some (s1, e)"
    using i by (cases "WriteFrame live (helloFrame (fecConfigured (core s)) (sid (heap (sessionManager (core s)) ! h_sess ?h))
      (h_laneID ?h) (h_nonce (helloObj ?h s))) (h_leg ?h) s") (auto simp: helloIterate_def Let_def)
  obtain x ex where l: "loopSend nowMS (helloObj ?h s1) = (x, ex)" by (meson surj_pair)
  have ok2: "life_ok (putHello ?h x s1)" by (rule ok_quiet [OF ok_WriteFrame [OF ok w] quiet_putHello])
  have "s' = (if ex then helloOnExpire ?h (putHello ?h x s1) else putHello ?h x s1)"
    using i w l by (simp add: helloIterate_def Let_def)
  then show ?thesis using ok2 ok_quiet [OF ok2 quiet_expire] by simp
qed

lemma ok_sessionAck:
  assumes ok: "life_ok s"
  shows "life_ok (fst (sessionAck p nonce accepted s))"
proof -
  obtain o' oi res where a: "Ack (heap (sessionManager (core s)) ! p) nonce accepted = (o', oi, res)" by (meson prod_cases3)
  define s1 where "s1 = onCore (\<lambda>c. c\<lparr>sessionManager := (sessionManager (core s))\<lparr>heap := (heap (sessionManager (core s)))[p := o']\<rparr>\<rparr>) s"
  have ok1: "life_ok s1" unfolding s1_def by (rule ok_quiet [OF ok quiet_sessions])
  have "life_ok (helloOnAck h s1)" if "h \<in> set (helloRuns s1)" for h
    using ok_quiet [OF ok1 quiet_ack] hello_bound [OF ok1 [unfolded life_ok_def] that] by blast
  moreover have "find P (helloRuns s1) = Some h \<Longrightarrow> h \<in> set (helloRuns s1)" for P h by (auto simp: find_Some_iff)
  ultimately show ?thesis using ok1 a
    unfolding sessionAck_def Let_def a prod.case s1_def [symmetric] by (auto split: option.split)
qed

lemma ok_pingTick:
  assumes ok: "life_ok s" and n: "n < length (pingHeap s)" and t: "pingTick n live now s = Some s'"
  shows "life_ok s'"
proof -
  define g where "g = pingHeap s ! n"
  obtain s1 e where w: "WriteFrame live (pingFrame g \<lparr>m_ID = nextID (g_ping g), m_TimeMS = unixMilli now\<rparr>) (g_leg g) s = Some (s1, e)"
    using t by (auto simp: pingTick_def Let_def g_def split: option.splits)
  have ty: "f_type (pingFrame g m) \<noteq> TypeHELLOACK" for m by (simp add: pingFrame_def)
  note q1 = WriteFrame_plain [OF w ty]
  obtain p es where tk: "tick now (e = None) (g_ping g) = (p, es)" by (meson surj_pair)
  define s2 where "s2 = s1\<lparr>pingHeap := (pingHeap s)[n := g\<lparr>g_ping := p, g_stopped := (e \<noteq> None)\<rparr>]\<rparr>"
  have q2: "quiet s s2" unfolding s2_def using quiet_trans [OF q1(1) quiet_put_ping [of _ s1 n]] q1(2) by (simp add: g_def)
  have "bound (lheap (core s)) (g_lane g) (Kind (g_leg g))"
    using ping_bound [OF ok [unfolded life_ok_def]] n by (simp add: g_def)
  then have "quiet s2 (fold (pingEffect g) es s2)" by (rule quiet_ping_effects [OF bound_quiet [OF q2]])
  moreover have "s' = fold (pingEffect g) es s2"
    using t w tk q1(2) unfolding pingTick_def Let_def g_def [symmetric] s2_def by simp
  ultimately show ?thesis using ok_quiet [OF ok quiet_trans [OF q2]] by simp
qed

lemma ok_pongIn:
  assumes ok: "life_ok s"
  shows "life_ok (pongIn k m nowMS s)"
proof (cases "LookupPing k (laneManager (core s))")
  case (Some n)
  define g where "g = pingHeap s ! n"
  obtain p es b where tk: "Pong m nowMS (g_ping g) = (p, es, b)" by (meson prod_cases3)
  define s2 where "s2 = s\<lparr>pingHeap := (pingHeap s)[n := g\<lparr>g_ping := p\<rparr>]\<rparr>"
  have q2: "quiet s s2" unfolding s2_def by (rule quiet_put_ping) (simp_all add: g_def)
  have "n < length (pingHeap s)" using ok Some by (simp add: life_ok_def life_inv_def runs_ok_def)
  then have "bound (lheap (core s)) (g_lane g) (Kind (g_leg g))"
    using ping_bound [OF ok [unfolded life_ok_def]] by (simp add: g_def)
  then have "quiet s2 (fold (pingEffect g) es s2)" by (rule quiet_ping_effects [OF bound_quiet [OF q2]])
  then show ?thesis using Some tk ok_quiet [OF ok quiet_trans [OF q2]] by (simp add: pongIn_def Let_def g_def s2_def)
qed (use ok in \<open>simp add: pongIn_def\<close>)

section \<open>The data path\<close>

text \<open>A packet or a flush leaves everything but windows, timers, the nominal primary, schedulers, the
  repair counter and the queue as they were.\<close>

definition refs_of :: "laneRuntime \<Rightarrow> LegRef \<times> LegRef" where
  "refs_of l = (ref (udp (lane_leg l)), ref (tcp (lane_leg l)))"

definition data_only :: "'l send \<Rightarrow> 'l send \<Rightarrow> bool" where
  "data_only c c' \<longleftrightarrow> lanes c' = lanes c \<and> laneManager c' = laneManager c \<and> bootstrapLanes c' = bootstrapLanes c
    \<and> activeSession c' = activeSession c \<and> map refs_of (lheap c') = map refs_of (lheap c)"

lemma data_refl [simp]: "data_only c c" by (simp add: data_only_def)

lemma data_trans: "data_only a b \<Longrightarrow> data_only b c \<Longrightarrow> data_only a c"
  by (simp add: data_only_def)

lemma data_upd: "refs_of (f (lheap c ! r)) = refs_of (lheap c ! r) \<Longrightarrow> data_only c (updLane r f c)"
  by (cases "r < length (lheap c)")
     (simp_all add: data_only_def updLane_def activeSession_def map_update list_update_same_conv list_update_beyond)

lemma data_fields [simp]:
  "data_only c (c\<lparr>outq := q\<rparr>)" "data_only c (c\<lparr>sendStates := ss\<rparr>)" "data_only c (c\<lparr>strategies := st\<rparr>)"
  "data_only c (fst (WriteTo live leg b c))"
  by (simp_all add: data_only_def activeSession_def WriteTo_def)

lemma data_frames: "sendRepairFrames live leg sess li g count ks c = Some c' \<Longrightarrow> data_only c c'"
proof (induction live leg sess li g count ks c rule: sendRepairFrames.induct)
  case (2 live leg sess li g count key symbol rest s)
  then show ?case by (auto split: option.splits sum.splits intro: data_trans [OF data_fields(4)])
qed simp

lemma data_repair: "sendRepair G R live sess r g c = Some c' \<Longrightarrow> data_only c c'"
  by (auto simp: sendRepair_def Let_def split: if_splits option.splits sum.splits dest!: data_frames intro: data_trans [OF data_fields(2)])

lemma data_flush:
  assumes f: "handleFECFlush G R live sess r c = Some c'"
  shows "data_only c c'"
proof -
  have upd: "data_only c (updLane r (\<lambda>l. l\<lparr>fecFlushTimer := Some False, fecFlushArmed := False, txWindow := Some w\<rparr>) c)" for w
    by (rule data_upd) (simp add: refs_of_def)
  have "c' = c \<or> (\<exists>w g. let c1 = updLane r (\<lambda>l. l\<lparr>fecFlushTimer := Some False, fecFlushArmed := False, txWindow := Some w\<rparr>) c
      in c' = c1 \<or> sendRepair G R live sess r g c1 = Some c')"
    using f by (auto simp: handleFECFlush_def Let_def split: if_splits option.splits prod.splits)
  then show ?thesis using data_trans [OF upd data_repair] upd by (auto simp: Let_def)
qed

lemma refs_cancel [simp]: "refs_of (cancelFECFlushTimerLocked l) = refs_of l"
  by (simp add: refs_of_def cancelFECFlushTimerLocked_def split: option.split)

lemma refs_commit: "commitPacket p fec l = Some (l', g, i, grp, arm) \<Longrightarrow> refs_of l' = refs_of l"
  by (auto simp: commitPacket_def Let_def refs_of_def cancelFECFlushTimerLocked_def split: option.splits prod.splits)

lemma data_arm: "data_only c (armFECFlushTimer r c)"
  by (auto simp: armFECFlushTimer_def refs_of_def intro!: data_upd split: option.split)

lemma data_record: "data_only c (recordQoSDataLegSelection r k q c)"
proof -
  have "\<exists>k'. fst (noteQoSSelectedPrimary k a g) = g\<lparr>primaryKind := k'\<rparr>" for a g
    by (auto simp: noteQoSSelectedPrimary_def Let_def intro: exI [of _ "primaryKind g"])
  then have "refs_of (onLeg (\<lambda>g. fst (noteQoSSelectedPrimary k a g)) l) = refs_of l" for a l
    unfolding refs_of_def onLeg_def by (metis (no_types, lifting) laneRuntime.select_convs(3) laneRuntime.surjective laneRuntime.update_convs(3) leg.select_convs(1,2) leg.surjective leg.update_convs(3))
  then show ?thesis by (auto simp: recordQoSDataLegSelection_def intro!: data_upd split: prod.split)
qed

lemma data_send: "sendDataFrame G R live sess r p c = Some (c', e) \<Longrightarrow> data_only c c'"
proof -
  assume s: "sendDataFrame G R live sess r p c = Some (c', e)"
  let ?q = "qosSelectionEnabled c" and ?fec = "sessionFECEnabled sess c"
  let ?k = "Kind (primaryTransport ?q (lheap c ! r))"
  show ?thesis
  proof (cases "?k = 0")
    case True
    then show ?thesis using s by (simp add: sendDataFrame_def)
  next
    case False
    then obtain l g i grp arm where cp: "commitPacket p ?fec (lheap c ! r) = Some (l, g, i, grp, arm)"
      using s by (auto simp: sendDataFrame_def Let_def split: option.splits)
    let ?c1 = "updLane r (\<lambda>_. l) c" and ?c2 = "recordQoSDataLegSelection r ?k ?q (updLane r (\<lambda>_. l) c)"
    have 1: "data_only c ?c1" by (rule data_upd) (rule refs_commit [OF cp])
    have 2: "data_only c ?c2" by (rule data_trans [OF 1 data_record])
    have "c' = ?c1 \<or> (\<exists>c3 leg b. c' = fst (WriteTo live leg b c3) \<and>
        (c3 = ?c2 \<or> c3 = armFECFlushTimer r ?c2 \<or> (\<exists>g. sendRepair G R live sess r g ?c2 = Some c3)))"
      using s False cp by (auto simp: sendDataFrame_def Let_def WriteTo_def split: option.splits sum.splits if_splits)
    moreover have w: "data_only c c3 \<Longrightarrow> data_only c (fst (WriteTo live leg b c3))" for leg b c3 by (rule data_trans [OF _ data_fields(4)])
    moreover have "sendRepair G R live sess r g ?c2 = Some c3 \<Longrightarrow> data_only c c3" for g c3 by (rule data_trans [OF 2 data_repair])
    moreover have "data_only c (armFECFlushTimer r ?c2)" by (rule data_trans [OF 2 data_arm])
    ultimately show ?thesis using 1 2 by (elim disjE exE conjE) simp_all
  qed
qed

lemma data_write: "Write G R live order p c = Some (c', e) \<Longrightarrow> data_only c c'"
proof (cases p)
  case (Some payload)
  assume w: "Write G R live order p c = Some (c', e)"
  obtain sess act where a: "activeSession c = (sess, act)" by (meson surj_pair)
  obtain c1 x where pk: "pickLane order sess (laneScheduleCost (length payload)) c = (c1, x)" by (meson surj_pair)
  have "data_only c c1" using pk by (auto simp: pickLane_def Let_def split: if_splits prod.splits)
  moreover have "c' = c \<or> c' = c1 \<or> (\<exists>r. sendDataFrame G R live sess r payload c1 = Some (c', e))"
    using w a pk Some by (auto simp: Write_def split: if_splits option.splits)
  ultimately show ?thesis using data_send data_trans data_refl by metis
qed (simp add: Write_def)

lemma ok_data:
  assumes ok: "life_ok s" and d: "data_only (core s) c" and so: "send_ok c"
  shows "life_ok (s\<lparr>core := c\<rparr>)"
proof -
  have refs: "map refs_of (lheap c) = map refs_of (lheap (core s))" using d by (simp add: data_only_def)
  then have len: "length (lheap c) = length (lheap (core s))" by (rule map_eq_imp_length_eq)
  have "refs_of (lheap c ! r) = refs_of (lheap (core s) ! r)" if "r < length (lheap (core s))" for r
    using arg_cong [OF refs, of "\<lambda>xs. xs ! r"] that len by simp
  then have b: "bound (lheap (core s)) r k \<Longrightarrow> bound (lheap c) r k" for r k
    using len by (simp add: bound_def refs_of_def)
  show ?thesis
    using ok b so len d unfolding life_ok_def life_inv_def runs_ok_def data_only_def by simp
qed

lemma ok_Write:
  assumes ok: "life_ok s" and order: "map_order (activeSessionID (core s)) (core s) order"
    and w: "Write G R True order (Some p) (core s) = Some (c, e)"
  shows "life_ok (s\<lparr>core := c\<rparr>)"
proof (cases "hasActiveSession (core s)")
  case True
  have "send_ok c"
    using write_keeps [OF _ _ order w] ok True by (simp add: life_ok_def life_inv_def activeSession_def)
  then show ?thesis by (rule ok_data [OF ok data_write [OF w]])
next
  case False
  then have "c = core s" using w by (simp add: Write_def activeSession_def)
  then show ?thesis using ok by simp
qed

lemma flush_grp:
  assumes "win_ok fec w" "txFlush w = (w', grp)"
  shows "win_ok fec w'" "grp = Some g \<Longrightarrow> tx_groupID g \<le> maxTxGroupID \<and> 1 \<le> unat (tx_sourceSpan g) \<and> unat (tx_sourceSpan g) \<le> 4"
proof -
  show "win_ok fec w'" using assms by (auto simp: txFlush_def win_ok_def split: if_splits)
  assume g: "grp = Some g"
  have len: "pending w \<noteq> []" "length (pending w) < 4" using assms g by (auto simp: txFlush_def win_ok_def split: if_splits)
  have "unat (of_nat (length (pending w)) :: u8) = length (pending w)" using len by (simp add: unat_of_nat)
  then show "tx_groupID g \<le> maxTxGroupID \<and> 1 \<le> unat (tx_sourceSpan g) \<and> unat (tx_sourceSpan g) \<le> 4"
    using assms g len by (auto simp: txFlush_def win_ok_def Suc_le_eq split: if_splits)
qed

lemma ok_flush:
  assumes ok: "life_ok s" and l: "lanes (core s) (sess, i) = Some r" and f: "handleFECFlush G R True sess r (core s) = Some c"
  shows "life_ok (s\<lparr>core := c\<rparr>)"
proof -
  have so: "send_ok (core s)" using ok by (simp add: life_ok_def life_inv_def)
  have "send_ok c"
  proof (cases "sessionFECEnabled sess (core s)")
    case False
    then show ?thesis using f so by (simp add: handleFECFlush_def)
  next
    case True
    have r: "r < length (lheap (core s))" "lane_sendable True i (lheap (core s) ! r)" "\<forall>k. lanes (core s) k = Some r \<longrightarrow> k = (sess, i)"
    proof -
      have "r < length (lheap (core s)) \<and> lane_sendable (sessionFECEnabled sess (core s)) i (lheap (core s) ! r)
          \<and> (\<forall>k. lanes (core s) k = Some r \<longrightarrow> k = (sess, i))" using so l unfolding send_ok_def by blast
      then show "r < length (lheap (core s))" "lane_sendable True i (lheap (core s) ! r)" "\<forall>k. lanes (core s) k = Some r \<longrightarrow> k = (sess, i)"
        using True by simp_all
    qed
    then obtain w where w: "txWindow (lheap (core s) ! r) = Some w" "win_ok True w" by (auto simp: lane_sendable_def)
    obtain w' grp where fl: "txFlush w = (w', grp)" by (meson surj_pair)
    note wf = flush_grp [OF w(2) fl]
    define c1 where "c1 = updLane r (\<lambda>l. l\<lparr>fecFlushTimer := Some False, fecFlushArmed := False, txWindow := Some w'\<rparr>) (core s)"
    have c1: "lanes c1 = lanes (core s)" "sessionFECEnabled j c1 = sessionFECEnabled j (core s)" "length (lheap c1) = length (lheap (core s))" for j
      by (simp_all add: c1_def)
    have "lane_sendable True i (lheap c1 ! r)"
      using r(1,2) wf(1) by (auto simp: c1_def updLane_def lane_sendable_def lane_ok_def)
    moreover have other: "lheap c1 ! r' = lheap (core s) ! r'" if "r' \<noteq> r" for r' using that by (simp add: c1_def)
    ultimately have ok1: "send_ok c1"
    proof -
      assume new: "lane_sendable True i (lheap c1 ! r)"
      show ?thesis
        unfolding send_ok_def c1
      proof (intro allI impI)
        fix sess' i' r' assume l': "lanes (core s) (sess', i') = Some r'"
        then have old: "r' < length (lheap (core s))" "lane_sendable (sessionFECEnabled sess' (core s)) i' (lheap (core s) ! r')"
          "\<forall>k. lanes (core s) k = Some r' \<longrightarrow> k = (sess', i')" using so unfolding send_ok_def by blast+
        have "lane_sendable (sessionFECEnabled sess' (core s)) i' (lheap c1 ! r')"
        proof (cases "r' = r")
          case eq: True
          then have "(sess', i') = (sess, i)" using r(3) l' by blast
          then show ?thesis using eq new True by simp
        qed (use other old(2) in simp)
        then show "r' < length (lheap (core s)) \<and> lane_sendable (sessionFECEnabled sess' (core s)) i' (lheap c1 ! r')
            \<and> (\<forall>k. lanes (core s) k = Some r' \<longrightarrow> k = (sess', i'))" using old by blast
      qed
    qed
    have "c = c1 \<or> (\<exists>g. grp = Some g \<and> sendRepair G R True sess r g c1 = Some c)"
      using f True w(1) fl by (auto simp: handleFECFlush_def Let_def c1_def split: option.splits)
    then show ?thesis
    proof (elim disjE exE conjE)
      fix g assume g: "grp = Some g" and s: "sendRepair G R True sess r g c1 = Some c"
      show ?thesis
        using sendRepair_out [OF _ _ _ s] wf(2) [OF g] send_ok_cong [of c c1] ok1 by blast
    qed (use ok1 in simp)
  qed
  then show ?thesis by (rule ok_data [OF ok data_flush [OF f]])
qed

section \<open>Every step keeps the invariant\<close>

lemma quiet_EnableFEC [quiets]: "quiet s (onCore EnableFEC s)"
  by (rule quiet_core)
     (auto simp: EnableFEC_def enableSessionFEC_def sessionFECEnabled_def activeSession_def Let_def split: option.splits prod.splits)

lemma quiet_dialEvent [quiets]: "quiet s (dialEvent r e s)"
  by (auto simp: dialEvent_def quiet_def split: if_splits)

lemma quiet_qosIn [quiets]: "quiet s (qosIn k ul ub tlim tb n s)"
  by (auto simp: qosIn_def intro!: quiet_onLane split: option.split prod.split)

lemma quiet_bwStart [quiets]: "quiet s (bwStart sess s)"
  by (auto simp: bwStart_def intro!: quiet_core simp: sessionFECEnabled_def activeSession_def split: option.split)

lemma quiet_newLoop [quiets]: "quiet s (fst (newLoop t sess train l s))"
  by (auto simp: newLoop_def intro!: quiet_manager split: option.split)

lemma quiet_sample [quiets]: "quiet s (onBwSample t r train smp s)"
proof -
  let ?s1 = "if t_kind t = KindUDP then onLane r (onLeg (setPreferTCP (bwPreferTCP smp))) s else s"
  let ?s2 = "onCore (\<lambda>c. c\<lparr>laneManager := DeleteBwLoop train (laneManager c)\<rparr>) ?s1"
  have "quiet s ?s1" by (auto intro!: quiet_onLane)
  moreover have "quiet ?s1 ?s2" by (rule quiet_manager) simp
  moreover have "quiet ?s2 (onBwSample t r train smp s)"
    by (auto simp: onBwSample_def Let_def quiet_sched split: option.split)
  ultimately show ?thesis using quiet_trans by blast
qed

lemma quiet_remote [quiets]: "quiet s (onRemoteProbe k s)" "quiet s (onRemoteComplete k s)"
  by (auto simp: onRemoteProbe_def onRemoteComplete_def quiet_start quiet_sched split: option.split)

lemma quiet_failure [quiets]: "quiet s (OnLegFailure keys leg s)"
proof -
  let ?f = "\<lambda>(sess, i) s. case lanes (core s) (sess, i) of None \<Rightarrow> s
     | Some r \<Rightarrow> reconnectTCP r (abortBwTarget sess (lane_id (lheap (core s) ! r)) leg (onLane r (onLeg (markDown KindTCP)) s))"
  have step: "quiet t (?f k t)" for k t
    by (cases k) (auto intro!: quiet_trans [OF quiet_trans [OF quiet_onLane quiet_abort] quiet_reconnect] split: option.split)
  have "quiet t (fold ?f ks t)" for ks t
  proof (induction ks arbitrary: t)
    case (Cons k ks)
    show ?case using quiet_trans [OF step [of t k] Cons.IH] by simp
  qed simp
  then show ?thesis by (auto simp: OnLegFailure_def Let_def)
qed

lemma ok_dialDone:
  assumes ok: "life_ok s" and k: "\<And>conn. res = Some conn \<Longrightarrow> Kind conn = KindTCP"
  shows "life_ok (dialDone r res nowMS s)"
proof (cases "dialers s r")
  case (Some d)
  define s1 where "s1 = s\<lparr>dialers := (dialers s)(r \<mapsto> d\<lparr>dr_dialer := dialReturns (res \<noteq> None) (dr_dialer d)\<rparr>)\<rparr>"
  have q1: "quiet s s1" using Some by (auto simp: s1_def quiet_def)
  have r: "r < length (lheap (core s1))" using ok Some by (simp add: s1_def life_ok_def life_inv_def runs_ok_def)
  show ?thesis
  proof (cases res)
    case None
    then show ?thesis using ok_quiet [OF ok q1] Some by (simp add: dialDone_def s1_def)
  next
    case (Some conn)
    define s2 where "s2 = bindConn r conn s1"
    have q2: "quiet s s2" unfolding s2_def by (rule quiet_trans [OF q1 bind_conn(1) [OF r]])
    have b: "bound (lheap (core s2)) r (Kind conn)" unfolding s2_def by (rule bind_conn(2) [OF r])
    let ?t = "openLaneHello (dr_ctx d) (dr_sess d) (dr_sessionID d) r (lane_id (lheap (core s2) ! r)) conn nowMS s2"
    have "life_ok s2" by (rule ok_quiet [OF ok q2])
    from inv_hello [OF this [unfolded life_ok_def] b] have "life_ok ?t"
      by (rule life_okI) (simp add: openLaneHello_def activeSession_def Let_def)
    moreover have "dialDone r res nowMS s = ?t"
      using \<open>dialers s r = Some d\<close> Some k [of conn] by (simp add: dialDone_def s2_def s1_def bindConn_def Let_def)
    ultimately show ?thesis by simp
  qed
qed (use ok in \<open>simp add: dialDone_def\<close>)

lemma step_ok:
  assumes ok: "life_ok s" and op: "op_ok op s" and s: "life_step G R op s = Some s'"
  shows "life_ok s'"
proof (cases op)
  case (OpWrite order p)
  then show ?thesis using ok op s ok_Write by (auto simp: op_ok_def)
next
  case (OpFlush sess r)
  then show ?thesis using ok op s ok_flush by (auto simp: op_ok_def)
next
  case (OpFrame live f to)
  then show ?thesis using ok s ok_WriteFrame by auto
next
  case (OpRebootstrap rand nowMS)
  then show ?thesis using ok s ok_Rebootstrap by auto
next
  case (OpClose sess)
  then show ?thesis using ok s ok_CloseSession by auto
next
  case (OpHello n live nowMS)
  then show ?thesis using ok s ok_helloIterate by auto
next
  case (OpAck p nonce accepted)
  then show ?thesis using ok s ok_sessionAck by auto
next
  case (OpPing n live now)
  then show ?thesis using ok op s ok_pingTick by (auto simp: op_ok_def)
next
  case (OpPong k m nowMS)
  then show ?thesis using ok s ok_pongIn by auto
next
  case (OpDial r res nowMS)
  then show ?thesis using ok_dialDone [OF ok, of res r nowMS] op s by (simp add: op_ok_def)
next
  case (OpTable x)
  then show ?thesis using ok_quiet [OF ok quiet_sessions [of s "\<lambda>c. table_step True x (sessionManager c)"]] s by simp
qed (use ok_quiet [OF ok] s in \<open>auto intro: quiets\<close>)

lemma run_ok: "life_run G R s t \<Longrightarrow> life_ok s \<Longrightarrow> life_ok t"
  by (induction rule: life_run.induct) (auto intro: step_ok)

text \<open>The start: a sender from configurations whose bootstrap lanes have UDP transports.\<close>

definition config_ok :: "config \<Rightarrow> bool" where
  "config_ok c \<longleftrightarrow> list_all (\<lambda>b. Kind (b_Leg b) = KindUDP) (cf_BootstrapLanes c)"

definition sender_start :: "config list \<Rightarrow> bytes option \<Rightarrow> u64 \<Rightarrow> 'l life" where
  "sender_start cs rand nowMS = fst (Bootstrap rand nowMS (newSend cs))"

lemma newSend_inv:
  assumes "list_all config_ok cs"
  shows "life_inv (\<lambda>i. False) (newSend cs)"
proof -
  have step: "life_inv (\<lambda>i. False) (applyConfig c s) \<and> activeSession (core (applyConfig c s)) = activeSession (core s)"
    if "life_inv (\<lambda>i. False) s" "config_ok c" for c and s :: "'a life"
    using that by (auto simp: applyConfig_def life_inv_def send_ok_def runs_ok_def config_ok_def sessionFECEnabled_def activeSession_def list_all_iff)
  have fold: "life_inv (\<lambda>i. False) (fold applyConfig cs s)" if "life_inv (\<lambda>i. False) s" for s :: "'a life"
    using that assms by (induction cs arbitrary: s) (simp_all add: step)
  show ?thesis
    unfolding newSend_def
    by (rule fold) (simp add: life_inv_def send_ok_def runs_ok_def LookupPing_def SetRemoteProbe_def NewLaneManager_def)
qed

lemma start_ok:
  assumes "list_all config_ok cs"
  shows "life_ok (sender_start cs rand nowMS)"
proof -
  have inv: "life_inv (\<lambda>i. False) (newSend cs)" by (rule newSend_inv [OF assms])
  have inv1: "life_inv (\<lambda>i. False) (onCore (\<lambda>c. c\<lparr>bootstrapped := True\<rparr>) (newSend cs))"
    by (rule inv_quiet [OF inv quiet_core]) (simp_all add: sessionFECEnabled_def activeSession_def)
  then have inv2: "life_inv (\<lambda>i. False) ((onCore (\<lambda>c. c\<lparr>bootstrapped := True\<rparr>) (newSend cs))\<lparr>baseCtx := True\<rparr>)"
    by (simp add: life_inv_def runs_ok_def)
  show ?thesis
    using inv inv1 ok_bootstrapSession [OF inv2] unfolding sender_start_def Bootstrap_def Let_def
    by (auto intro: life_okI)
qed

lemma control_total:
  assumes "op_ok op s" "\<And>order p. op \<noteq> OpWrite order p" "\<And>sess r. op \<noteq> OpFlush sess r"
  shows "life_step G R op s \<noteq> None"
proof -
  have h: "estimateFrameSize (helloFrame fec sess i nonce) \<noteq> None" for fec sess i nonce
    by (simp add: helloFrame_def estimateFrameSize_def)
  have g: "estimateFrameSize (pingFrame p m) \<noteq> None" for p m
    by (simp add: pingFrame_def estimateFrameSize_def)
  show ?thesis
  proof (cases op)
    case (OpFrame live f to)
    then show ?thesis using assms(1) WriteFrame_total [of f live to s] by (auto simp: op_ok_def)
  qed (use assms WriteFrame_total [OF h] WriteFrame_total [OF g] in
      \<open>auto simp: helloIterate_def pingTick_def Let_def split: option.split prod.split\<close>)
qed

text \<open> C28: The sender through its sessions. Whatever the callers and goroutines of a sender do - packets, flushes,
  control frames, HELLO and ping rounds, dials, TCP failures, link statuses, rebootstraps, closes,
  bandwidth steps - every lane it has is one that its session can send on, only the active session has
  lanes, and no step but the data path's coder can panic. \<close>

theorem life_invariant:
  assumes cs: "list_all config_ok cs" and run: "life_run G R (sender_start cs rand nowMS) s"
  shows "send_ok (core s) \<and> (lanes (core s) (sess, i) = Some r \<longrightarrow> activeSession (core s) = (sess, True))
    \<and> (op_ok op s \<and> (\<forall>order p. op \<noteq> OpWrite order p) \<and> (\<forall>sess r. op \<noteq> OpFlush sess r) \<longrightarrow> life_step G R op s \<noteq> None)"
proof -
  have "life_ok s" by (rule run_ok [OF run start_ok [OF cs]])
  then have "send_ok (core s)" "lanes (core s) (sess, i) = Some r \<longrightarrow> activeSession (core s) = (sess, True)"
    by (auto simp: life_ok_def life_inv_def)
  then show ?thesis using control_total [of op s G R] by blast
qed

definition demo_config :: config where
  "demo_config = \<lparr>cf_SessionManager = None, cf_hasStream = True, cf_ProbeInterval = 0, cf_ProbeTimeout = 0, cf_IsClient = True,
     cf_BWCapBps = 0, cf_BWReferenceBps = 0, cf_EnableBandwidthProbe = False,
     cf_BootstrapLanes = [\<lparr>b_LaneID = 3, b_Weight = 1, b_Leg = noRef\<lparr>Kind := KindUDP\<rparr>, b_TCPRemote = ''h''\<rparr>]\<rparr>"

definition demo_life :: "'l life" where
  "demo_life = sender_start [demo_config] (Some [0, 0, 0, 0, 0, 0, 0, 9]) 0"

lemma demo_eval:
  "(let d = demo_life in (lanes (core d) (9, 3), length (lheap (core d)), activeSession (core d), baseCtx d,
       map b_LaneID (bootstrapLanes (core d)), sessions (sessionManager (core d)) 10)) =
     (Some 0, 1, (9, True), True, [3], None)"
  by code_simp

lemmas demo_life_simps = demo_eval [unfolded Let_def prod.inject, THEN conjunct1]
  demo_eval [unfolded Let_def prod.inject, THEN conjunct2, THEN conjunct1]
  demo_eval [unfolded Let_def prod.inject, THEN conjunct2, THEN conjunct2, THEN conjunct1]
  demo_eval [unfolded Let_def prod.inject, THEN conjunct2, THEN conjunct2, THEN conjunct2, THEN conjunct1]
  demo_eval [unfolded Let_def prod.inject, THEN conjunct2, THEN conjunct2, THEN conjunct2, THEN conjunct2, THEN conjunct1]
  demo_eval [unfolded Let_def prod.inject, THEN conjunct2, THEN conjunct2, THEN conjunct2, THEN conjunct2, THEN conjunct2]

lemma life_invariant_witness:
  "send_ok (core (demo_life :: unit life)) \<and> life_step gf_galois gf_rs (OpClose 9) (demo_life :: unit life) \<noteq> None"
proof -
  have "list_all config_ok [demo_config]" by (simp add: config_ok_def demo_config_def)
  from life_invariant [OF this life_start, where rand = "Some [0, 0, 0, 0, 0, 0, 0, 9]" and nowMS = 0 and G = gf_galois and R = gf_rs
      and op = "OpClose 9 :: unit life_op"]
  show ?thesis unfolding demo_life_def by (simp add: op_ok_def)
qed

section \<open>A rebootstrap starts afresh\<close>

text \<open>What the parts leave alone.\<close>

definition kept :: "'l life \<Rightarrow> 'l life \<Rightarrow> bool" where
  "kept s t \<longleftrightarrow> lanes (core t) = lanes (core s) \<and> map lane_leg (lheap (core t)) = map lane_leg (lheap (core s))
    \<and> sessions (sessionManager (core t)) = sessions (sessionManager (core s)) \<and> sendStates (core t) = sendStates (core s)
    \<and> activeSession (core t) = activeSession (core s) \<and> hasStream (core t) = hasStream (core s)
    \<and> sessionCtx t = sessionCtx s \<and> sessionCancel t = sessionCancel s \<and> ctxDone t = ctxDone s \<and> closedConns t = closedConns s"

lemma kept_trans: "kept s t \<Longrightarrow> kept t u \<Longrightarrow> kept s u"
  by (simp add: kept_def)

lemma kept_parts:
  "kept s (registerLaneQoS sess r s)" "kept s (openLaneHello ctx p sess r i leg nowMS s)" "kept s (startLanePing ctx sess r leg s)"
  "kept s ((onLane r (\<lambda>l. l\<lparr>hasDialer := True\<rparr>) s)\<lparr>dialers := ds\<rparr>)" "kept s (markRunnableLanesDirty sess s)"
  "kept s (startBwScheduler s)"
proof -
  show "kept s (registerLaneQoS sess r s)" by (simp add: kept_def registerLaneQoS_def onCore_def activeSession_def)
  show "kept s (openLaneHello ctx p sess r i leg nowMS s)" by (simp add: kept_def openLaneHello_def activeSession_def Let_def)
  show "kept s (startLanePing ctx sess r leg s)"
    by (simp add: kept_def startLanePing_def registerPingIfAbsent_def activeSession_def Let_def)
  have "map lane_leg ((lheap (core s))[r := (lheap (core s) ! r)\<lparr>hasDialer := True\<rparr>]) = map lane_leg (lheap (core s))"
    by (cases "r < length (lheap (core s))") (simp_all add: map_update list_update_same_conv list_update_beyond)
  then show "kept s ((onLane r (\<lambda>l. l\<lparr>hasDialer := True\<rparr>) s)\<lparr>dialers := ds\<rparr>)"
    by (simp add: kept_def onLane_def onCore_def updLane_def activeSession_def)
  show "kept s (markRunnableLanesDirty sess s)" by (simp add: kept_def markRunnableLanesDirty_def Let_def)
  show "kept s (startBwScheduler s)" by (simp add: kept_def startBwScheduler_def onCore_def activeSession_def)
qed

text \<open>One bootstrap lane: an inactive lane, an open HELLO and at most a ping of the session.\<close>

lemma bootstrapLaneUp_state:
  fixes s :: "'l life"
  assumes u: "Kind (b_Leg b) = KindUDP"
  obtains l h s1 where "\<not> anyActive (lane_leg l)"
    "s1 = onCore (\<lambda>c. c\<lparr>lheap := lheap c @ [l], lanes := (lanes c)((sess, b_LaneID b) \<mapsto> length (lheap (core s)))\<rparr>) s"
    "kept s1 (bootstrapLaneUp ctx p sess nowMS b s)" "helloRuns (bootstrapLaneUp ctx p sess nowMS b s) = helloRuns s @ [h]"
    "h_ctx h = ctx" "h_sessionID h = sess" "h_laneID h = b_LaneID b" "h_leg h = b_Leg b"
    "\<And>k. LookupPing k (laneManager (core (bootstrapLaneUp ctx p sess nowMS b s))) \<noteq> None \<Longrightarrow>
      LookupPing k (laneManager (core s)) \<noteq> None \<or> SessionID k = sess"
proof -
  define l where "l = onLeg (bindUDP (b_Leg b)) (newLaneRuntime (b_LaneID b) (b_Weight b))"
  let ?r = "length (lheap (core s))"
  define s1 where "s1 = onCore (\<lambda>c. c\<lparr>lheap := lheap c @ [l], lanes := (lanes c)((sess, b_LaneID b) \<mapsto> ?r)\<rparr>) s"
  define s2 where "s2 = openLaneHello ctx p sess ?r (b_LaneID b) (b_Leg b) nowMS (registerLaneQoS sess ?r s1)"
  define s3 where "s3 = startLanePing ctx sess ?r (b_Leg b) s2"
  let ?t = "bootstrapLaneUp ctx p sess nowMS b s"
  have eq: "?t = (if b_TCPRemote b \<noteq> [] \<and> hasStream (core s3)
       then (onLane ?r (\<lambda>l. l\<lparr>hasDialer := True\<rparr>) s3)\<lparr>dialers := (dialers s3)(?r \<mapsto>
          \<lparr>dr_dialer = newDialer True, dr_remote = b_TCPRemote b, dr_ctx = ctx, dr_sess = p, dr_sessionID = sess\<rparr>)\<rparr>
       else s3)"
    by (simp add: bootstrapLaneUp_def Let_def s3_def s2_def s1_def l_def onLane_def)
  have k3: "kept s1 s3" unfolding s3_def s2_def by (intro kept_trans [OF kept_trans [OF kept_parts(1) kept_parts(2)] kept_parts(3)])
  then have k: "kept s1 ?t" unfolding eq using kept_trans [OF k3 kept_parts(4)] by simp
  have l: "\<not> anyActive (lane_leg l)"
    by (simp add: l_def onLeg_def bindUDP_def newLaneRuntime_def newLeg_def anyActive_def Let_def)
  obtain h where h: "helloRuns s2 = helloRuns s @ [h]" "h_ctx h = ctx" "h_sessionID h = sess" "h_laneID h = b_LaneID b" "h_leg h = b_Leg b"
    using u by (simp add: s2_def openLaneHello_def registerLaneQoS_def s1_def Let_def)
  have hr: "helloRuns s3 = helloRuns s2" by (simp add: s3_def startLanePing_def Let_def split: prod.split bool.split)
  then have ht: "helloRuns ?t = helloRuns s @ [h]" unfolding eq using h(1) by (simp add: onLane_def)
  have lm: "laneManager (core ?t) = laneManager (core s3)" unfolding eq by (simp add: onLane_def updLane_def)
  have p2: "LookupPing k (laneManager (core s2)) = LookupPing k (laneManager (core s))" for k
    by (simp add: s2_def openLaneHello_def registerLaneQoS_def s1_def LookupPing_def Let_def)
  have p3: "LookupPing k (laneManager (core s3)) \<noteq> None \<Longrightarrow> LookupPing k (laneManager (core s2)) \<noteq> None \<or> SessionID k = sess" for k
    by (auto simp: s3_def startLanePing_def registerPingIfAbsent_def KeyForLeg_def LookupPing_def Let_def split: if_splits)
  show thesis
  proof (rule that [OF l s1_def k ht h(2-5)])
    show "LookupPing k (laneManager (core s)) \<noteq> None \<or> SessionID k = sess" if "LookupPing k (laneManager (core ?t)) \<noteq> None" for k
      using p3 [of k] that by (simp add: lm p2)
  qed
qed

definition idle_lanes :: "'l life \<Rightarrow> bool" where
  "idle_lanes s \<longleftrightarrow> (\<forall>k r. lanes (core s) k = Some r \<longrightarrow> r < length (lheap (core s)) \<and> \<not> anyActive (lane_leg (lheap (core s) ! r)))"

definition kept_ctl :: "'l life \<Rightarrow> 'l life \<Rightarrow> bool" where
  "kept_ctl s t \<longleftrightarrow> sessions (sessionManager (core t)) = sessions (sessionManager (core s)) \<and> sendStates (core t) = sendStates (core s)
    \<and> activeSession (core t) = activeSession (core s) \<and> hasStream (core t) = hasStream (core s)
    \<and> sessionCtx t = sessionCtx s \<and> sessionCancel t = sessionCancel s \<and> ctxDone t = ctxDone s \<and> closedConns t = closedConns s"

lemma kept_ctl: "kept s t \<Longrightarrow> kept_ctl s t"
  by (simp add: kept_def kept_ctl_def)

lemma kept_idle: "kept s t \<Longrightarrow> idle_lanes s \<Longrightarrow> idle_lanes t"
proof -
  assume k: "kept s t" and i: "idle_lanes s"
  have legs: "map lane_leg (lheap (core t)) = map lane_leg (lheap (core s))" using k by (simp add: kept_def)
  then have len: "length (lheap (core t)) = length (lheap (core s))" by (rule map_eq_imp_length_eq)
  have "lane_leg (lheap (core t) ! r) = lane_leg (lheap (core s) ! r)" if "r < length (lheap (core s))" for r
    using arg_cong [OF legs, of "\<lambda>xs. xs ! r"] that len by simp
  then show ?thesis using i k len by (simp add: idle_lanes_def kept_def)
qed

lemma bootstrap_lanes_state:
  fixes s :: "'l life"
  assumes "\<And>b. b \<in> set bs \<Longrightarrow> Kind (b_Leg b) = KindUDP" "idle_lanes s"
    "\<And>k. LookupPing k (laneManager (core s)) \<noteq> None \<Longrightarrow> SessionID k = sess"
  shows "let t = fold (bootstrapLaneUp ctx p sess nowMS) bs s in
    idle_lanes t \<and> kept_ctl s t
    \<and> dom (lanes (core t)) = dom (lanes (core s)) \<union> (\<lambda>b. (sess, b_LaneID b)) ` set bs
    \<and> (\<forall>k. LookupPing k (laneManager (core t)) \<noteq> None \<longrightarrow> SessionID k = sess)
    \<and> (\<exists>hs. helloRuns t = helloRuns s @ hs \<and> map (\<lambda>h. (h_ctx h, h_sessionID h, h_laneID h, h_leg h)) hs = map (\<lambda>b. (ctx, sess, b_LaneID b, b_Leg b)) bs)"
  using assms
proof (induction bs arbitrary: s)
  case (Cons b bs)
  let ?u = "bootstrapLaneUp ctx p sess nowMS b s"
  obtain l h s1 where st: "\<not> anyActive (lane_leg l)"
    "s1 = onCore (\<lambda>c. c\<lparr>lheap := lheap c @ [l], lanes := (lanes c)((sess, b_LaneID b) \<mapsto> length (lheap (core s)))\<rparr>) s"
    "kept s1 ?u" "helloRuns ?u = helloRuns s @ [h]" "h_ctx h = ctx" "h_sessionID h = sess" "h_laneID h = b_LaneID b" "h_leg h = b_Leg b"
    "\<And>k. LookupPing k (laneManager (core ?u)) \<noteq> None \<Longrightarrow> LookupPing k (laneManager (core s)) \<noteq> None \<or> SessionID k = sess"
    by (rule bootstrapLaneUp_state [OF Cons.prems(1) [OF list.set_intros(1)], where ctx = ctx and p = p and sess = sess and nowMS = nowMS and s = s])
       (rule that; assumption)
  have idle1: "idle_lanes s1" using Cons.prems(2) st(1) by (auto simp: st(2) idle_lanes_def nth_append less_SucI)
  have idle: "idle_lanes ?u" by (rule kept_idle [OF st(3) idle1])
  have ctl: "kept_ctl s ?u" using kept_ctl [OF st(3)] by (simp add: st(2) kept_ctl_def activeSession_def onCore_def)
  have lanes: "dom (lanes (core ?u)) = insert (sess, b_LaneID b) (dom (lanes (core s)))" using st(3) by (auto simp: kept_def st(2))
  have pings: "LookupPing k (laneManager (core ?u)) \<noteq> None \<Longrightarrow> SessionID k = sess" for k using st(9) Cons.prems(3) by blast
  define t where "t = fold (bootstrapLaneUp ctx p sess nowMS) bs ?u"
  have ih: "idle_lanes t \<and> kept_ctl ?u t
    \<and> dom (lanes (core t)) = dom (lanes (core ?u)) \<union> (\<lambda>b. (sess, b_LaneID b)) ` set bs
    \<and> (\<forall>k. LookupPing k (laneManager (core t)) \<noteq> None \<longrightarrow> SessionID k = sess)
    \<and> (\<exists>hs. helloRuns t = helloRuns ?u @ hs \<and> map (\<lambda>h. (h_ctx h, h_sessionID h, h_laneID h, h_leg h)) hs = map (\<lambda>b. (ctx, sess, b_LaneID b, b_Leg b)) bs)"
    using Cons.IH [of ?u, OF _ idle pings] Cons.prems(1) unfolding Let_def t_def by simp
  then obtain hs where hs: "helloRuns t = helloRuns ?u @ hs"
      "map (\<lambda>h. (h_ctx h, h_sessionID h, h_laneID h, h_leg h)) hs = map (\<lambda>b. (ctx, sess, b_LaneID b, b_Leg b)) bs" by blast
  have hello: "\<exists>hs. helloRuns t = helloRuns s @ hs
      \<and> map (\<lambda>h. (h_ctx h, h_sessionID h, h_laneID h, h_leg h)) hs = map (\<lambda>b. (ctx, sess, b_LaneID b, b_Leg b)) (b # bs)"
    using hs st(4-8) by (intro exI [of _ "h # hs"]) simp
  have "kept_ctl s t" using ih ctl by (simp add: kept_ctl_def)
  moreover have "dom (lanes (core t)) = dom (lanes (core s)) \<union> (\<lambda>b. (sess, b_LaneID b)) ` set (b # bs)" using ih lanes by auto
  ultimately show ?case using ih hello by (simp add: t_def Let_def)
qed (simp add: kept_ctl_def)

lemma bootstrapSession_state:
  fixes s :: "'l life"
  assumes inv: "life_inv (\<lambda>i. False) s" and pings: "\<And>k. LookupPing k (laneManager (core s)) = None"
    and b: "bootstrapSession (Some buf) nowMS s = (t, None)"
  defines "new \<equiv> get_be64 buf"
  shows "new \<noteq> 0 \<and> sessions (sessionManager (core s)) new = None \<and> activeSession (core t) = (new, True)
    \<and> dom (lanes (core t)) = (\<lambda>b. (new, b_LaneID b)) ` set (bootstrapLanes (core s)) \<and> idle_lanes t
    \<and> sessions (sessionManager (core t)) = (sessions (sessionManager (core s)))(new \<mapsto> length (heap (sessionManager (core s))))
    \<and> sendStates (core t) = (sendStates (core s))(new \<mapsto> \<lparr>nextRepairKey = 0, fecEnabled = False\<rparr>)
    \<and> (\<forall>k. LookupPing k (laneManager (core t)) \<noteq> None \<longrightarrow> SessionID k = new)
    \<and> sessionCtx t = Some (length (ctxDone s)) \<and> sessionCancel t = sessionCtx t \<and> ctxDone t = ctxDone s @ [False]
    \<and> closedConns t = closedConns s \<and> hasStream (core t) = hasStream (core s)
    \<and> (\<exists>hs. helloRuns t = helloRuns s @ hs \<and> map (\<lambda>h. (h_ctx h, h_sessionID h, h_laneID h, h_leg h)) hs
          = map (\<lambda>b. (sessionCtx t, new, b_LaneID b, b_Leg b)) (bootstrapLanes (core s)))"
proof -
  define n where "n = length (ctxDone s)"
  define s1 where "s1 = s\<lparr>ctxDone := ctxDone s @ [False], sessionCtx := Some n, sessionCancel := Some n\<rparr>"
  have c: "setSessionContext s = (s1, Some n)" by (simp add: setSessionContext_def s1_def n_def Let_def)
  let ?st = "sessionManager (core s)"
  have new: "new \<noteq> 0" using b c by (auto simp: bootstrapSession_def Session.New_def new_def Let_def split: if_splits)
  then have N: "Session.New (Some buf) = Inr (newSession new)" by (simp add: Session.New_def new_def Let_def)
  have sid: "sid (newSession new) = new" by (simp add: newSession_def)
  have core1: "core s1 = core s" by (simp add: s1_def)
  have free: "sessions ?st new = None"
  proof (rule ccontr)
    assume "sessions ?st new \<noteq> None"
    then have "Add True (?st\<lparr>heap := heap ?st @ [newSession new]\<rparr>) (Some (length (heap ?st))) = (?st\<lparr>heap := heap ?st @ [newSession new]\<rparr>, False)"
      using sid by (simp add: Add_def)
    then show False using b c N by (simp add: bootstrapSession_def core1 Let_def)
  qed
  define st where "st = ?st\<lparr>heap := heap ?st @ [newSession new], sessions := (sessions ?st)(new \<mapsto> length (heap ?st))\<rparr>"
  have a: "Add True (?st\<lparr>heap := heap ?st @ [newSession new]\<rparr>) (Some (length (heap ?st))) = (st, True)"
    using free sid new by (simp add: Add_def st_def)
  define s2 where "s2 = onCore (\<lambda>c. (activateSession new c)\<lparr>sessionManager := st,
      sendStates := (sendStates c)(new \<mapsto> \<lparr>nextRepairKey = 0, fecEnabled = False\<rparr>)\<rparr>) s1"
  have core2: "core s2 = (activateSession new (core s))\<lparr>sessionManager := st,
      sendStates := (sendStates (core s))(new \<mapsto> \<lparr>nextRepairKey = 0, fecEnabled = False\<rparr>)\<rparr>" by (simp add: s2_def core1)
  have bl: "bootstrapLanes (core s2) = bootstrapLanes (core s)" by (simp add: core2 activateSession_def)
  define s3 where "s3 = fold (bootstrapLaneUp (Some n) (length (heap ?st)) new nowMS) (bootstrapLanes (core s2)) s2"
  define s4 where "s4 = markRunnableLanesDirty new s3"
  have none: "lanes (core s) k = None" for k using inv by (cases k) (auto simp: life_inv_def)
  have 3: "let t = s3 in idle_lanes t \<and> kept_ctl s2 t
    \<and> dom (lanes (core t)) = dom (lanes (core s2)) \<union> (\<lambda>b. (new, b_LaneID b)) ` set (bootstrapLanes (core s))
    \<and> (\<forall>k. LookupPing k (laneManager (core t)) \<noteq> None \<longrightarrow> SessionID k = new)
    \<and> (\<exists>hs. helloRuns t = helloRuns s2 @ hs \<and> map (\<lambda>h. (h_ctx h, h_sessionID h, h_laneID h, h_leg h)) hs
          = map (\<lambda>b. (Some n, new, b_LaneID b, b_Leg b)) (bootstrapLanes (core s)))"
    unfolding s3_def bl
  proof (rule bootstrap_lanes_state)
    show "Kind (b_Leg b) = KindUDP" if "b \<in> set (bootstrapLanes (core s))" for b
      using inv that by (simp add: life_inv_def runs_ok_def)
    show "idle_lanes s2" using none by (simp add: idle_lanes_def core2 activateSession_def)
    show "SessionID k = new" if "LookupPing k (laneManager (core s2)) \<noteq> None" for k
      using that pings by (simp add: core2 activateSession_def)
  qed
  have t': "(if startBwSchedulerAtBootstrap (core s4) then startBwScheduler s4 else s4) = t"
    using b by (simp add: bootstrapSession_def c N sid core1 a Let_def s2_def [symmetric] s3_def s4_def split: if_splits)
  note t = t' [symmetric]
  have k4: "kept s3 t" unfolding t using kept_parts(5) [of s3 new] kept_trans [OF kept_parts(5) kept_parts(6), of s3 new] by (simp add: s4_def)
  have same: "helloRuns t = helloRuns s3" "LookupPing k (laneManager (core t)) = LookupPing k (laneManager (core s3))" for k
    by (simp_all add: t s4_def startBwScheduler_def markRunnableLanesDirty_def LookupPing_def SetRemoteComplete_def Let_def)
  have 2: "sessionCtx s2 = Some n" "sessionCancel s2 = Some n" "ctxDone s2 = ctxDone s @ [False]" "closedConns s2 = closedConns s"
    "helloRuns s2 = helloRuns s" "dom (lanes (core s2)) = {}" "activeSession (core s2) = (new, True)" "hasStream (core s2) = hasStream (core s)"
    "sendStates (core s2) = (sendStates (core s))(new \<mapsto> \<lparr>nextRepairKey = 0, fecEnabled = False\<rparr>)"
    "sessions (sessionManager (core s2)) = (sessions ?st)(new \<mapsto> length (heap ?st))"
    using none by (auto simp: s2_def s1_def activateSession_def activeSession_def st_def)
  have ctl: "sessionCtx t = Some n" "sessionCancel t = Some n" "ctxDone t = ctxDone s @ [False]" "closedConns t = closedConns s"
    "activeSession (core t) = (new, True)" "hasStream (core t) = hasStream (core s)"
    "sendStates (core t) = (sendStates (core s))(new \<mapsto> \<lparr>nextRepairKey = 0, fecEnabled = False\<rparr>)"
    "sessions (sessionManager (core t)) = (sessions ?st)(new \<mapsto> length (heap ?st))" "lanes (core t) = lanes (core s3)"
    using 2 3 k4 by (simp_all add: kept_def kept_ctl_def Let_def)
  have "idle_lanes t" using 3 kept_idle [OF k4] by (simp add: Let_def)
  then show ?thesis using new free ctl 2 3 same by (simp add: n_def Let_def)
qed


lemma bootstrapSession_succeeds:
  assumes "get_be64 buf \<noteq> 0" "sessions (sessionManager (core s)) (get_be64 buf) = None"
  shows "snd (bootstrapSession (Some buf) nowMS s) = None"
  using assms by (simp add: bootstrapSession_def setSessionContext_def Session.New_def Add_def newSession_def Let_def)


section \<open>A HELLO that expires late\<close>

text \<open>The expiry of a HELLO does not ask which connection the lane carries by then: the HELLO of a connection
  that failed takes down its successor, and dials again.\<close>

lemma stale_hello_expiry:
  assumes h: "Kind (h_leg h) = KindTCP" and r: "h_lane h < length (lheap (core s))"
  shows "\<not> isActive KindTCP (lane_leg (lheap (core (helloOnExpire h s)) ! h_lane h))"
proof -
  let ?s = "onLane (h_lane h) (onLeg (markDown KindTCP)) s"
  have ab: "lheap (core (abortBwTarget a b c t)) = lheap (core t)" for a b c and t :: "'a life"
    by (auto simp: abortBwTarget_def split: option.split prod.split)
  have "\<not> isActive KindTCP (lane_leg (lheap (core ?s) ! h_lane h))"
    using r by (simp add: onLane_def updLane_def onLeg_def markDown_def setActive_def isActive_def)
  then show ?thesis using h r
    by (simp add: helloOnExpire_def reconnectTCP_def redialLane_def onLane_def updLane_def ab Let_def markTCPReconnectPending_def)
qed

end
