(* ===== verification/RecvHandler.thy ===== *)
theory RecvHandler
  imports SendLife Recv
begin

text \<open>
  The glue between receiver and sender, \<open>internal/tunnel/v2/runtime/recvhandler.go\<close> and \<open>qos.go\<close>: the
  handler of every control frame, the writer of link statuses and the passive side's bandwidth hints.

  The handler and the sender share one session table and one lane manager, those of \<open>life\<close>. The loops that
  the lane manager holds are references into \<open>loops\<close>. Each handler takes whether writes meet a live
  context and returns an error or none; \<open>None\<close> is a panic. Event and debug lines are left out.
\<close>

section \<open>State\<close>

record glueConfig =
  gc_BWReferenceBps :: u64
  gc_BWCapBps :: u64
  gc_QoSWriter :: bool

text \<open>\<open>qosEnabled\<close> is the set of a \<open>QoSWriter\<close>, \<open>None\<close> for a nil one.\<close>

record 's glue =
  sender :: "nat life"
  qosEnabled :: "(u64 \<times> u8 \<Rightarrow> bool) option"
  glueReferenceBps :: u64
  glueCapBps :: u64
  passiveRecv :: "'s receive"
  passiveBWTrains :: "u64 \<rightharpoonup> LegKey"
  passiveBWTCPRef :: "u64 \<times> u8 \<rightharpoonup> u64"
  passiveBWObs :: "u64 \<rightharpoonup> BandwidthProbeObservation"
  loops :: "'s bwLoop list"

definition NewRecvHandler :: "nat life \<Rightarrow> glueConfig list \<Rightarrow> 's glue" where
  "NewRecvHandler s cs = fold (\<lambda>c h. h\<lparr>
       qosEnabled := (if gc_QoSWriter c then Some (\<lambda>_. False) else qosEnabled h),
       glueReferenceBps := (if gc_BWReferenceBps c > 0 then gc_BWReferenceBps c else glueReferenceBps h),
       glueCapBps := (if gc_BWCapBps c > 0 then gc_BWCapBps c else glueCapBps h)\<rparr>) cs
     \<lparr>sender = s, qosEnabled = None, glueReferenceBps = 0, glueCapBps = 0, passiveRecv = NewReceive 0 True,
       passiveBWTrains = Map.empty, passiveBWTCPRef = Map.empty, passiveBWObs = Map.empty, loops = []\<rparr>"

definition glueWrite :: "bool \<Rightarrow> frame \<Rightarrow> LegRef \<Rightarrow> 's glue \<Rightarrow> ('s glue \<times> send_error option) option" where
  "glueWrite live f to h = map_option (\<lambda>(s, e). (h\<lparr>sender := s\<rparr>, e)) (WriteFrame live f to (sender h))"

definition invalidFrame :: "'s glue \<Rightarrow> ('s glue \<times> send_error option) option" where
  "invalidFrame h = Some (h, Some (ErrProto ErrInvalidFrame))"

section \<open>Link statuses\<close>

definition Enable :: "u64 \<Rightarrow> u8 \<Rightarrow> 's glue \<Rightarrow> 's glue" where
  "Enable sess i h = h\<lparr>qosEnabled := map_option (\<lambda>w. w((sess, i) := True)) (qosEnabled h)\<rparr>"

definition linkStatusByte :: "bool \<Rightarrow> bool \<Rightarrow> u8 \<Rightarrow> u8 \<times> bool" where
  "linkStatusByte udpLimited tcpLimited n =
    (if n = 0 \<or> n > 4 then (0, False)
     else let state = push_bit 1 (n - 1);
              udpState = (if udpLimited then state OR LinkStatusStateLimited else state);
              tcpState = (if tcpLimited then state OR LinkStatusStateLimited else state)
          in (push_bit 4 udpState OR tcpState, True))"

definition statusFrame :: "QoSStatus \<Rightarrow> u8 \<Rightarrow> frame" where
  "statusFrame q b = \<lparr>f_version = Version, f_type = TypeLinkStatus, f_session = qs_SessionID q, f_lane = qs_LaneID q,
     f_body = Some (LinkStatusBody b (qs_UDPDeliveredBps q) (qs_TCPDeliveredBps q))\<rparr>"

definition qosWrite :: "bool \<Rightarrow> QoSStatus \<Rightarrow> 's glue \<Rightarrow> ('s glue \<times> send_error option) option" where
  "qosWrite live q h =
    (case qosEnabled h of None \<Rightarrow> Some (h, None)
     | Some w \<Rightarrow> if \<not> w (qs_SessionID q, qs_LaneID q) then Some (h, None)
       else case linkStatusByte (qs_UDPLimited q) (qs_TCPLimited q) (qs_RepairCount q) of
         (b, False) \<Rightarrow> invalidFrame h
       | (b, True) \<Rightarrow> glueWrite live (statusFrame q b) (noRef\<lparr>Kind := KindTCP\<rparr>) h)"

definition decodeLinkStatusState :: "u8 \<Rightarrow> bool \<times> u8 \<times> bool" where
  "decodeLinkStatusState state =
    (if state > 7 then (False, 0, False) else (state AND LinkStatusStateLimited \<noteq> 0, drop_bit 1 state + 1, True))"

definition decodeLinkStatus :: "u8 \<Rightarrow> bool \<times> bool \<times> u8 \<times> bool" where
  "decodeLinkStatus b =
    (case decodeLinkStatusState (drop_bit 4 b) of
       (ul, un, False) \<Rightarrow> (False, False, 0, False)
     | (ul, un, True) \<Rightarrow> (case decodeLinkStatusState (b AND 0x0f) of
         (tlim, tn, ok) \<Rightarrow> if \<not> ok \<or> tn \<noteq> un then (False, False, 0, False) else (ul, tlim, un, True)))"

section \<open>Sessions and pings\<close>

definition sessionKnown :: "u64 \<Rightarrow> 's glue \<Rightarrow> bool" where
  "sessionKnown i h = snd (Get True (sessionManager (core (sender h))) i)"

definition closeFrame :: "u64 \<Rightarrow> frame" where
  "closeFrame i = \<lparr>f_version = Version, f_type = TypeCLOSE, f_session = i, f_lane = SessionControlLaneID,
     f_body = Some (CloseBody CloseScopeSession CloseReasonUnknownSession)\<rparr>"

definition closeUnknownSession :: "bool \<Rightarrow> LegRef \<Rightarrow> u64 \<Rightarrow> 's glue \<Rightarrow> ('s glue \<times> send_error option) option" where
  "closeUnknownSession live leg i h = glueWrite live (closeFrame i) leg h"

text \<open>What a HELLO is granted: FEC if both ends have it, and link statuses with it.\<close>

definition grantedCaps :: "bool \<Rightarrow> u16 \<Rightarrow> u8 \<Rightarrow> u16 \<times> u8" where
  "grantedCaps fec caps profile =
    (if fec \<and> caps AND CapFEC \<noteq> 0 \<and> profile = FECProfileSLC4Plus1
     then (if caps AND CapLinkStatus \<noteq> 0 then CapFEC OR CapLinkStatus else CapFEC, FECProfileSLC4Plus1)
     else (0, FECProfileOff))"

definition helloAckFrame :: "u64 \<Rightarrow> u8 \<Rightarrow> u64 \<Rightarrow> u16 \<Rightarrow> u8 \<Rightarrow> frame" where
  "helloAckFrame sess i nonce caps profile = \<lparr>f_version = Version, f_type = TypeHELLOACK, f_session = sess, f_lane = i,
     f_body = Some (HelloAckBody nonce 1 caps profile)\<rparr>"

definition onTable :: "(store \<Rightarrow> store) \<Rightarrow> 's glue \<Rightarrow> 's glue" where
  "onTable g h = h\<lparr>sender := onCore (\<lambda>c. c\<lparr>sessionManager := g (sessionManager c)\<rparr>) (sender h)\<rparr>"

definition OnHello :: "bool \<Rightarrow> LegRef \<Rightarrow> frame \<Rightarrow> 's glue \<Rightarrow> ('s glue \<times> send_error option) option" where
  "OnHello live leg f h =
    (case f_body f of
       Some (HelloBody nonce hcaps hprofile) \<Rightarrow>
         let h = onTable (\<lambda>st. fst (GetOrCreate True st (f_session f))) h
         in case grantedCaps (fecConfigured (core (sender h))) hcaps hprofile of (caps, profile) \<Rightarrow>
           (case glueWrite live (helloAckFrame (f_session f) (f_lane f) nonce caps profile) leg h of
              None \<Rightarrow> None
            | Some (h, Some e) \<Rightarrow> Some (h, Some e)
            | Some (h, None) \<Rightarrow>
                Some (if caps AND CapLinkStatus \<noteq> 0 then Enable (f_session f) (f_lane f) h else h, None))
     | _ \<Rightarrow> invalidFrame h)"

definition OnHelloAck :: "frame \<Rightarrow> 's glue \<Rightarrow> ('s glue \<times> send_error option) option" where
  "OnHelloAck f h =
    (case f_body f of
       Some (HelloAckBody nonce accepted caps profile) \<Rightarrow>
         (case Get True (sessionManager (core (sender h))) (f_session f) of
            (Some p, True) \<Rightarrow>
              (case sessionAck p nonce (accepted = 1) (sender h) of (s, ok) \<Rightarrow>
                let h = h\<lparr>sender := s\<rparr> in
                if \<not> ok then Some (h, None)
                else
                  let h = (if fecConfigured (core s) \<and> caps AND CapFEC \<noteq> 0 \<and> profile = FECProfileSLC4Plus1
                           then h\<lparr>sender := onCore EnableFEC s\<rparr> else h)
                  in Some (if caps AND CapLinkStatus \<noteq> 0 \<and> caps AND CapFEC \<noteq> 0
                           then Enable (f_session f) (f_lane f) h else h, None))
          | _ \<Rightarrow> Some (h, None))
     | _ \<Rightarrow> invalidFrame h)"

definition OnPing :: "bool \<Rightarrow> LegRef \<Rightarrow> frame \<Rightarrow> 's glue \<Rightarrow> ('s glue \<times> send_error option) option" where
  "OnPing live leg f h =
    (case f_body f of
       Some (PingBody i t) \<Rightarrow>
         if \<not> sessionKnown (f_session f) h then closeUnknownSession live leg (f_session f) h
         else glueWrite live \<lparr>f_version = Version, f_type = TypePONG, f_session = f_session f, f_lane = f_lane f,
                f_body = Some (PingBody i t)\<rparr> leg h
     | _ \<Rightarrow> invalidFrame h)"

definition OnPong :: "bool \<Rightarrow> LegRef \<Rightarrow> frame \<Rightarrow> u64 \<Rightarrow> 's glue \<Rightarrow> ('s glue \<times> send_error option) option" where
  "OnPong live leg f nowMS h =
    (case f_body f of
       Some (PingBody i t) \<Rightarrow>
         if \<not> sessionKnown (f_session f) h then closeUnknownSession live leg (f_session f) h
         else Some (h\<lparr>sender := pongIn (KeyForLeg (f_session f) (f_lane f) leg) \<lparr>m_ID = i, m_TimeMS = t\<rparr> nowMS (sender h)\<rparr>, None)
     | _ \<Rightarrow> invalidFrame h)"

text \<open>The error of a rebootstrap is only logged.\<close>

definition OnClose :: "bytes option \<Rightarrow> u64 \<Rightarrow> frame \<Rightarrow> 's glue \<Rightarrow> ('s glue \<times> send_error option) option" where
  "OnClose rand nowMS f h =
    (case f_body f of
       Some (CloseBody scope reason) \<Rightarrow>
         if scope \<noteq> CloseScopeSession then Some (h, None)
         else case GetOrDelete True (sessionManager (core (sender h))) (f_session f) of (st, p, known) \<Rightarrow>
           let h = onTable (\<lambda>_. st) h in
           if \<not> known then Some (h, None)
           else if reason = CloseReasonUnknownSession then Some (h\<lparr>sender := fst (Rebootstrap rand nowMS (sender h))\<rparr>, None)
           else Some (h\<lparr>sender := CloseSession (f_session f) (sender h)\<rparr>, None)
     | _ \<Rightarrow> invalidFrame h)"

section \<open>Bandwidth probes\<close>

definition rememberPassiveBWTrain :: "u64 \<Rightarrow> LegKey \<Rightarrow> 's glue \<Rightarrow> 's glue" where
  "rememberPassiveBWTrain i k h = (if i = 0 then h else h\<lparr>passiveBWTrains := (passiveBWTrains h)(i \<mapsto> k)\<rparr>)"

definition noObservation :: BandwidthProbeObservation where
  "noObservation = \<lparr>bo_Primary = 0, bo_UDPLimited = False, bo_UDPDeliveredBps = 0, bo_TCPDeliveredBps = 0, bo_CapBps = 0\<rparr>"

definition takePassiveBWObservation :: "u64 \<Rightarrow> 's glue \<Rightarrow> 's glue \<times> BandwidthProbeObservation" where
  "takePassiveBWObservation i h =
    (if i = 0 then (h, noObservation)
     else (h\<lparr>passiveBWObs := (passiveBWObs h)(i := None)\<rparr>, case passiveBWObs h i of None \<Rightarrow> noObservation | Some b \<Rightarrow> b))"

definition uint32Bps :: "u64 \<Rightarrow> u32" where
  "uint32Bps v = (if v > 0xffffffff then 0xffffffff else ucast v)"

definition passiveBWPreferTCP :: "bw_sample \<Rightarrow> bool" where
  "passiveBWPreferTCP smp =
    (if s_Loss smp \<ge> 1 / 100 then True
     else s_ReferenceBps smp > 0 \<and> rat_of_nat (unat (s_BandwidthBps smp)) * (3 / 2) \<le> rat_of_nat (unat (s_ReferenceBps smp)))"

text \<open>The reference and the cap of a UDP sample: the probe's target rate, else the configured reference, else
  the configured cap, else what TCP delivered.\<close>

definition passiveReference :: "u64 \<Rightarrow> u64 \<Rightarrow> u64 \<Rightarrow> u64 \<Rightarrow> u64 \<times> u64" where
  "passiveReference target cfgCap cfgRef tcpBps =
    (let capBps = (if target = 0 then cfgCap else target);
         referenceBps = target
     in if referenceBps = 0 then
          let referenceBps = cfgRef in
          if referenceBps = 0 then (if capBps > 0 then (capBps, capBps) else (tcpBps, tcpBps))
          else (referenceBps, capBps)
        else if capBps = 0 then (referenceBps, referenceBps) else (referenceBps, capBps))"

definition onPassiveBWSample :: "u64 \<Rightarrow> bw_sample \<Rightarrow> 's glue \<Rightarrow> 's glue" where
  "onPassiveBWSample i smp h =
    (case passiveBWTrains h i of None \<Rightarrow> h
     | Some k \<Rightarrow>
       let h = h\<lparr>passiveBWTrains := (passiveBWTrains h)(i := None)\<rparr>; lk = (SessionID k, LaneID k) in
       if k_Kind k = KindTCP then
         (if s_BandwidthBps smp > 0 then h\<lparr>passiveBWTCPRef := (passiveBWTCPRef h)(lk \<mapsto> s_BandwidthBps smp)\<rparr> else h)
       else case passiveReference (s_TargetBps smp) (glueCapBps h) (glueReferenceBps h)
                (case passiveBWTCPRef h lk of None \<Rightarrow> 0 | Some b \<Rightarrow> b) of
         (referenceBps, capBps) \<Rightarrow>
           if k_Kind k \<noteq> KindUDP then h
           else
             let smp = smp\<lparr>s_ReferenceBps := referenceBps\<rparr>;
                 preferTCP = passiveBWPreferTCP smp
             in if i = 0 then h
                else h\<lparr>passiveBWObs := (passiveBWObs h)(i \<mapsto> \<lparr>bo_Primary = (if preferTCP then KindTCP else KindUDP),
                  bo_UDPLimited = preferTCP, bo_UDPDeliveredBps = uint32Bps (s_BandwidthBps smp),
                  bo_TCPDeliveredBps = uint32Bps (s_ReferenceBps smp), bo_CapBps = uint32Bps capBps\<rparr>)\<rparr>)"

definition ackFrame :: "frame \<Rightarrow> bw_ack \<Rightarrow> frame" where
  "ackFrame f a = \<lparr>f_version = Version, f_type = TypeBandwidthProbeAck, f_session = f_session f, f_lane = f_lane f,
     f_body = Some (BandwidthProbeAckBody (a_ID a) 0 (a_Count a) (a_Received a) (a_FirstRXMS a) (a_LastRXMS a))\<rparr>"

definition OnBandwidthProbe ::
  "'s mask_ops \<Rightarrow> bool \<Rightarrow> LegRef \<Rightarrow> frame \<Rightarrow> int \<Rightarrow> 's glue \<Rightarrow> ('s glue \<times> BandwidthProbeObservation \<times> send_error option) option" where
  "OnBandwidthProbe M live leg f clock h =
    (case f_body f of
       Some (BandwidthProbeBody train probe q n sendMS target left payload) \<Rightarrow>
         if \<not> sessionKnown (f_session f) h then
           map_option (\<lambda>(h, e). (h, noObservation, e)) (closeUnknownSession live leg (f_session f) h)
         else
           let k = KeyForLeg (f_session f) (f_lane f) leg;
               h = rememberPassiveBWTrain train k h;
               h = h\<lparr>sender := onRemoteProbe k (sender h)\<rparr>;
               p = \<lparr>p_TrainID = train, p_ID = probe, p_Seq = q, p_Count = n, p_SendMS = sendMS, p_TargetBps = target,
                     p_Remaining = left, p_Bytes = int (length payload)\<rparr>
           in case receiveProbe M p clock (passiveRecv h) of (r, a, due, smp) \<Rightarrow>
             let h = h\<lparr>passiveRecv := r\<rparr>;
                 h = (case smp of None \<Rightarrow> h | Some (i, s) \<Rightarrow> onPassiveBWSample i s h)
             in case takePassiveBWObservation train h of (h, ob) \<Rightarrow>
               let h = (if left = 0 then h\<lparr>sender := onRemoteComplete k (sender h)\<rparr> else h)
               in if \<not> due then Some (h, ob, None)
                  else map_option (\<lambda>(h, e). (h, ob, e)) (glueWrite live (ackFrame f a) leg h)
     | _ \<Rightarrow> map_option (\<lambda>(h, e). (h, noObservation, e)) (invalidFrame h))"

definition OnBandwidthProbeAck :: "'s mask_ops \<Rightarrow> frame \<Rightarrow> int \<Rightarrow> 's glue \<Rightarrow> ('s glue \<times> send_error option) option" where
  "OnBandwidthProbeAck M f clock h =
    (case f_body f of
       Some (BandwidthProbeAckBody probe first n rcvd firstMS lastMS) \<Rightarrow>
         (case LookupBwLoop probe (laneManager (core (sender h))) of
            None \<Rightarrow> Some (h, None)
          | Some l \<Rightarrow> Some (h\<lparr>loops := (loops h)[l := loopAck M \<lparr>a_ID = probe, a_Count = n, a_Received = rcvd,
                a_FirstRXMS = firstMS, a_LastRXMS = lastMS\<rparr> clock (loops h ! l)]\<rparr>, None))
     | _ \<Rightarrow> invalidFrame h)"

definition OnQoS :: "bool \<Rightarrow> LegRef \<Rightarrow> frame \<Rightarrow> 's glue \<Rightarrow> ('s glue \<times> send_error option) option" where
  "OnQoS live leg f h =
    (case f_body f of
       Some (LinkStatusBody b ub tb) \<Rightarrow>
         if \<not> sessionKnown (f_session f) h then closeUnknownSession live leg (f_session f) h
         else (case decodeLinkStatus b of
             (ul, tlim, n, False) \<Rightarrow> invalidFrame h
           | (ul, tlim, n, True) \<Rightarrow>
               Some (h\<lparr>sender := qosIn (f_session f, f_lane f) ul ub tlim tb n (sender h)\<rparr>, None))
     | _ \<Rightarrow> invalidFrame h)"

section \<open>The link status byte\<close>

lemma count_cases: "(n::u8) \<noteq> 0 \<Longrightarrow> n \<le> 4 \<Longrightarrow> n = 1 \<or> n = 2 \<or> n = 3 \<or> n = 4"
proof -
  assume "n \<noteq> 0" "n \<le> 4"
  then have "unat n \<noteq> 0" "unat n \<le> 4" by (simp_all add: unat_eq_0 word_le_nat_alt)
  then have "unat n = 1 \<or> unat n = 2 \<or> unat n = 3 \<or> unat n = 4" by linarith
  then show ?thesis by (simp add: word_unat_eq_iff)
qed

lemma status_byte:
  assumes "n \<noteq> 0" "n \<le> 4"
  shows "\<exists>b. linkStatusByte ul tlim n = (b, True) \<and> decodeLinkStatus b = (ul, tlim, n, True) \<and> validLinkStatusStatus b"
  using count_cases [OF assms]
  by (elim disjE; cases ul; cases tlim)
     (simp_all add: linkStatusByte_def decodeLinkStatus_def decodeLinkStatusState_def validLinkStatusStatus_def validLinkStatusState_def)

lemma status_byte_canonical:
  assumes "decodeLinkStatus b = (ul, tlim, n, True)"
  shows "linkStatusByte ul tlim n = (b, True)"
proof -
  have all: "list_all (\<lambda>k. case decodeLinkStatus (word_of_nat k) of (ul, tlim, n, ok) \<Rightarrow>
      \<not> ok \<or> linkStatusByte ul tlim n = (word_of_nat k, True)) [0..<256]"
    by code_simp
  have "unat b < 2 ^ LENGTH(8)" by (rule unsigned_less)
  then have "unat b \<in> set [0..<256]" by simp
  from bspec [OF all [unfolded list_all_iff] this] show ?thesis using assms by simp
qed

section \<open>Frames that the glue sends\<close>

definition whole_leg :: "LegRef \<Rightarrow> bool" where
  "whole_leg leg \<longleftrightarrow> Kind leg \<noteq> 0 \<and> \<not> partialRef leg"

definition queued :: "LegRef \<Rightarrow> frame \<Rightarrow> 's glue \<Rightarrow> 's glue" where
  "queued leg f h = h\<lparr>sender := onCore (\<lambda>c. c\<lparr>outq := outq c @ [(leg, wire_frame f)]\<rparr>) (sender h)\<rparr>"

lemma write_on_leg:
  assumes "encodable f" "estimateFrameSize f \<noteq> None"
  shows "writeFrameOnLeg True leg f c = Some (c\<lparr>outq := outq c @ [(leg, wire_frame f)]\<rparr>, None)"
  by (simp add: writeFrameOnLeg_def encodeFrame_encodable [OF assms] WriteTo_def)

lemma glue_sends:
  assumes "encodable f" "estimateFrameSize f \<noteq> None" "f_type f \<noteq> TypeHELLOACK" "whole_leg leg"
  shows "glueWrite True f leg h = Some (queued leg f h, None)"
  using assms by (simp add: glueWrite_def WriteFrame_def writeTo_def write_on_leg admitPassiveHelloAck_def whole_leg_def queued_def onCore_def)

lemma glue_sends_lane:
  assumes "encodable f" "estimateFrameSize f \<noteq> None" "f_type f \<noteq> TypeHELLOACK"
    and lane: "lanes (core (sender h)) (f_session f, f_lane f) = Some r"
    and conn: "refForKind KindTCP (lane_leg (lheap (core (sender h)) ! r)) = conn" "Kind conn \<noteq> 0"
  shows "glueWrite True f (noRef\<lparr>Kind := KindTCP\<rparr>) h = Some (queued conn f h, None)"
  using assms by (simp add: glueWrite_def WriteFrame_def writeTo_def write_on_leg admitPassiveHelloAck_def partialRef_def noRef_def
      getLane_def queued_def onCore_def)

lemma close_frame: "encodable (closeFrame i)" "estimateFrameSize (closeFrame i) \<noteq> None" "f_type (closeFrame i) \<noteq> TypeHELLOACK"
  "decode (wire_frame (closeFrame i)) = Inr (closeFrame i)"
proof -
  show e: "encodable (closeFrame i)" by (simp add: encodable_def closeFrame_def)
  show "estimateFrameSize (closeFrame i) \<noteq> None" "f_type (closeFrame i) \<noteq> TypeHELLOACK"
    by (simp_all add: closeFrame_def estimateFrameSize_def)
  show "decode (wire_frame (closeFrame i)) = Inr (closeFrame i)"
    using decode_wire_frame [OF e] by (simp add: canonFrame_def closeFrame_def)
qed

lemma status_frame:
  assumes "validLinkStatusStatus b"
  shows "encodable (statusFrame q b)" "estimateFrameSize (statusFrame q b) \<noteq> None" "f_type (statusFrame q b) \<noteq> TypeHELLOACK"
    "decode (wire_frame (statusFrame q b)) = Inr (statusFrame q b)"
proof -
  show e: "encodable (statusFrame q b)" using assms by (simp add: encodable_def statusFrame_def)
  show "estimateFrameSize (statusFrame q b) \<noteq> None" "f_type (statusFrame q b) \<noteq> TypeHELLOACK"
    by (simp_all add: statusFrame_def estimateFrameSize_def)
  show "decode (wire_frame (statusFrame q b)) = Inr (statusFrame q b)"
    using decode_wire_frame [OF e] by (simp add: canonFrame_def statusFrame_def)
qed

text \<open> C32: A link status reaches the peer's lane unchanged. What an enabled writer sends for a lane with a TCP
  transport is one datagram on that transport; the peer that decodes it and knows the session applies exactly
  the two limits, the two delivered rates and the repair count of the status to the lane registered for it.
  A status with a repair count outside 1 to 4 is refused, and every status byte the peer accepts is the one
  byte that stands for what it reads. \<close>

theorem link_status_travels:
  assumes w: "qosEnabled h = Some w" "w (qs_SessionID q, qs_LaneID q)"
    and lane: "lanes (core (sender h)) (qs_SessionID q, qs_LaneID q) = Some r"
    and conn: "refForKind KindTCP (lane_leg (lheap (core (sender h)) ! r)) = conn" "Kind conn \<noteq> 0"
    and peer: "sessionKnown (qs_SessionID q) g"
  shows "(if 1 \<le> unat (qs_RepairCount q) \<and> unat (qs_RepairCount q) \<le> 4
    then \<exists>f. qosWrite True q h = Some (queued conn f h, None) \<and> decode (wire_frame f) = Inr f
      \<and> OnQoS live leg f g = Some (g\<lparr>sender := qosIn (qs_SessionID q, qs_LaneID q) (qs_UDPLimited q) (qs_UDPDeliveredBps q)
            (qs_TCPLimited q) (qs_TCPDeliveredBps q) (qs_RepairCount q) (sender g)\<rparr>, None)
    else qosWrite True q h = Some (h, Some (ErrProto ErrInvalidFrame)))
    \<and> (decodeLinkStatus b = (ul, tlim, n, True) \<longrightarrow> linkStatusByte ul tlim n = (b, True))"
proof (cases "1 \<le> unat (qs_RepairCount q) \<and> unat (qs_RepairCount q) \<le> 4")
  case True
  then have n: "qs_RepairCount q \<noteq> 0" "qs_RepairCount q \<le> 4" by (auto simp: word_le_nat_alt)
  obtain b where b: "linkStatusByte (qs_UDPLimited q) (qs_TCPLimited q) (qs_RepairCount q) = (b, True)"
    "decodeLinkStatus b = (qs_UDPLimited q, qs_TCPLimited q, qs_RepairCount q, True)" "validLinkStatusStatus b"
    using status_byte [OF n] by blast
  note f = status_frame [OF b(3), of q]
  have "qosWrite True q h = Some (queued conn (statusFrame q b) h, None)"
    using glue_sends_lane [OF f(1-3) _ conn] w lane b(1) by (simp add: qosWrite_def statusFrame_def)
  moreover have "OnQoS live leg (statusFrame q b) g = Some (g\<lparr>sender := qosIn (qs_SessionID q, qs_LaneID q) (qs_UDPLimited q)
      (qs_UDPDeliveredBps q) (qs_TCPLimited q) (qs_TCPDeliveredBps q) (qs_RepairCount q) (sender g)\<rparr>, None)"
    using peer b(2) by (simp add: OnQoS_def statusFrame_def)
  ultimately show ?thesis using True f(4) status_byte_canonical by auto
next
  case False
  then have "qs_RepairCount q = 0 \<or> qs_RepairCount q > 4"
    by (auto simp: word_less_nat_alt not_le Suc_le_eq unat_gt_0)
  then show ?thesis using False w status_byte_canonical by (simp add: qosWrite_def linkStatusByte_def invalidFrame_def)
qed

definition demo_conn :: LegRef where
  "demo_conn = noRef\<lparr>Kind := KindTCP, ConnID := ''c''\<rparr>"

definition demo_status :: QoSStatus where
  "demo_status = \<lparr>qs_SessionID = 9, qs_LaneID = 3, qs_UDPLimited = True, qs_TCPLimited = False, qs_RepairCount = 2,
     qs_UDPDeliveredBps = 1000, qs_TCPDeliveredBps = 2000\<rparr>"

definition demo_glue :: "u64 glue" where
  "demo_glue = Enable 9 3 (NewRecvHandler (dialDone 0 (Some demo_conn) 0 demo_life)
     [\<lparr>gc_BWReferenceBps = 0, gc_BWCapBps = 0, gc_QoSWriter = True\<rparr>])"

lemma demo_glue_eval:
  "(let s = sender demo_glue; o' = heap (sessionManager (core s)) ! 0 in
     (lanes (core s) (9, 3), length (lheap (core s)), ConnID (ref (tcp (lane_leg (lheap (core s) ! 0)))),
      Kind (ref (tcp (lane_leg (lheap (core s) ! 0)))), sessions (sessionManager (core s)) 9, hellos o' 0,
      hasOnAck (cfg (objs o' ! 0)), map (\<lambda>h. (h_sess h, h_index h, h_lane h, Kind (h_leg h))) (helloRuns s))) =
   (Some 0, 1, ''c'', KindTCP, Some 0, Some 0, True, [(0, 0, 0, KindUDP), (0, 1, 0, KindTCP)])"
  by code_simp

lemma demo_glue_simps:
  "lanes (core (sender demo_glue)) (9, 3) = Some 0" "length (lheap (core (sender demo_glue))) = 1"
  "Kind (ref (tcp (lane_leg (lheap (core (sender demo_glue)) ! 0)))) = KindTCP"
  "sessions (sessionManager (core (sender demo_glue))) 9 = Some 0"
  "hellos (heap (sessionManager (core (sender demo_glue))) ! 0) 0 = Some 0"
  "hasOnAck (cfg (objs (heap (sessionManager (core (sender demo_glue))) ! 0) ! 0))"
  "map (\<lambda>h. (h_sess h, h_index h, h_lane h, Kind (h_leg h))) (helloRuns (sender demo_glue)) = [(0, 0, 0, KindUDP), (0, 1, 0, KindTCP)]"
  using demo_glue_eval unfolding Let_def prod.inject by blast+

lemma demo_glue_known: "sessionKnown 9 demo_glue" "qosEnabled demo_glue = Some ((\<lambda>_. False)((9, 3) := True))"
  using demo_glue_simps(4) by (simp_all add: sessionKnown_def Get_def) (simp add: demo_glue_def Enable_def NewRecvHandler_def)

lemma link_status_travels_witness:
  "\<exists>conn f. qosWrite True demo_status demo_glue = Some (queued conn f demo_glue, None) \<and> decode (wire_frame f) = Inr f
     \<and> OnQoS True conn f demo_glue = Some (demo_glue\<lparr>sender := qosIn (9, 3) True 1000 False 2000 2 (sender demo_glue)\<rparr>, None)"
proof -
  define conn where "conn = ref (tcp (lane_leg (lheap (core (sender demo_glue)) ! 0)))"
  have c: "refForKind KindTCP (lane_leg (lheap (core (sender demo_glue)) ! 0)) = conn" "Kind conn \<noteq> 0"
    using demo_glue_simps(3) by (simp_all add: conn_def refForKind_def)
  have q: "qs_SessionID demo_status = 9" "qs_LaneID demo_status = 3" "qs_RepairCount demo_status = 2" "qs_UDPLimited demo_status"
    "\<not> qs_TCPLimited demo_status" "qs_UDPDeliveredBps demo_status = 1000" "qs_TCPDeliveredBps demo_status = 2000"
    by (simp_all add: demo_status_def)
  have "\<exists>f. qosWrite True demo_status demo_glue = Some (queued conn f demo_glue, None) \<and> decode (wire_frame f) = Inr f
     \<and> OnQoS True conn f demo_glue = Some (demo_glue\<lparr>sender := qosIn (9, 3) True 1000 False 2000 2 (sender demo_glue)\<rparr>, None)"
    using link_status_travels [of demo_glue "(\<lambda>_. False)((9, 3) := True)" demo_status 0 conn demo_glue True conn]
      demo_glue_known demo_glue_simps(1) c q by simp
  then show ?thesis by blast
qed

section \<open>A forgotten session\<close>

lemma close_sends:
  "whole_leg leg \<Longrightarrow> closeUnknownSession True leg i h = Some (queued leg (closeFrame i) h, None)"
  unfolding closeUnknownSession_def by (rule glue_sends [OF close_frame(1-3)])

lemma unknown_answers:
  assumes "\<not> sessionKnown (f_session f) h" "whole_leg leg"
  shows "f_body f = Some (PingBody i t) \<Longrightarrow> OnPing True leg f h = Some (queued leg (closeFrame (f_session f)) h, None)"
    "f_body f = Some (PingBody i t) \<Longrightarrow> OnPong True leg f nowMS h = Some (queued leg (closeFrame (f_session f)) h, None)"
    "f_body f = Some (LinkStatusBody b ub tb) \<Longrightarrow> OnQoS True leg f h = Some (queued leg (closeFrame (f_session f)) h, None)"
    "f_body f = Some (BandwidthProbeBody tr pr q n ms tg left y) \<Longrightarrow>
      OnBandwidthProbe M True leg f clock h = Some (queued leg (closeFrame (f_session f)) h, noObservation, None)"
  using assms close_sends [OF assms(2), of "f_session f" h]
  by (simp_all add: OnPing_def OnPong_def OnQoS_def OnBandwidthProbe_def)

lemma up_sessions: "sessions (sessionManager (core (bootstrapLaneUp ctx p sess nowMS b s))) = sessions (sessionManager (core s))"
  by (simp add: bootstrapLaneUp_def openLaneHello_def startLanePing_def registerPingIfAbsent_def registerLaneQoS_def onCore_def onLane_def
      updLane_def Let_def)

lemma fold_sessions:
  "sessions (sessionManager (core (fold (bootstrapLaneUp ctx p sess nowMS) bs s))) = sessions (sessionManager (core s))"
  by (induction bs arbitrary: s) (simp_all add: up_sessions)

lemma bootstrap_only_new:
  assumes "sessions (sessionManager (core s)) i = None" "\<And>buf. rand = Some buf \<Longrightarrow> get_be64 buf \<noteq> i"
  shows "sessions (sessionManager (core (fst (bootstrapSession rand nowMS s)))) i = None"
proof -
  have c: "sessionManager (core (cancelCtx x t)) = sessionManager (core t)" for x and t :: "'a life"
    by (simp add: cancelCtx_def split: option.split)
  have b: "sessions (sessionManager (core (startBwScheduler t))) = sessions (sessionManager (core t))"
    "sessions (sessionManager (core (markRunnableLanesDirty j t))) = sessions (sessionManager (core t))" for t :: "'a life" and j
    using kept_parts(5,6) by (auto simp: kept_def)
  show ?thesis using assms
    by (cases rand)
       (auto simp: bootstrapSession_def setSessionContext_def Session.New_def Add_def newSession_def Let_def c b fold_sessions)
qed

lemma Rebootstrap_only_new:
  assumes "sessions (sessionManager (core s)) i = None" "\<And>buf. rand = Some buf \<Longrightarrow> get_be64 buf \<noteq> i"
  shows "sessions (sessionManager (core (fst (Rebootstrap rand nowMS s)))) i = None"
proof -
  obtain s1 refs where td: "teardownSession (activeSessionID (core s)) s = (s1, refs)" by (meson surj_pair)
  obtain t e where t: "bootstrapSession rand nowMS s1 = (t, e)" by (meson surj_pair)
  have "sessions (sessionManager (core (fst (bootstrapSession rand nowMS s1)))) i = None"
    by (rule bootstrap_only_new) (use assms in \<open>simp_all add: teardown_state(6) [OF td] Session.Delete_def\<close>)
  then show ?thesis using assms(1) td t by (simp add: Rebootstrap_def closeTCPRefs_def)
qed


section \<open>The handshake\<close>

lemma outq_parts [simp]:
  "outq (core (cancelCtx x s)) = outq (core s)" "outq (core (fst (teardownSession i s))) = outq (core s)"
  "outq (core (registerLaneQoS i r s)) = outq (core s)" "outq (core (markPingAlive k s)) = outq (core s)"
  "outq (core (startLanePing ctx i r leg s)) = outq (core s)" "outq (core (closeTCPRefs refs s)) = outq (core s)"
  "outq (core (markRunnableLanesDirty i s)) = outq (core s)"
proof -
  show c: "outq (core (cancelCtx x s)) = outq (core s)" for x and s :: "'a life" by (simp add: cancelCtx_def split: option.split)
  have f: "outq (fold (\<lambda>r. updLane r releaseFEC) rs c) = outq c" for rs and c :: "'a send"
    by (induction rs arbitrary: c) (simp_all add: updLane_def)
  show "outq (core (fst (teardownSession i s))) = outq (core s)" by (simp add: teardownSession_def Let_def f c)
  show "outq (core (registerLaneQoS i r s)) = outq (core s)" by (simp add: registerLaneQoS_def)
  show "outq (core (markPingAlive k s)) = outq (core s)" by (simp add: markPingAlive_def split: option.split)
  show "outq (core (startLanePing ctx i r leg s)) = outq (core s)"
    by (simp add: startLanePing_def registerPingIfAbsent_def Let_def)
  show "outq (core (closeTCPRefs refs s)) = outq (core s)" by (simp add: closeTCPRefs_def)
  show "outq (core (markRunnableLanesDirty i s)) = outq (core s)" by (simp add: markRunnableLanesDirty_def Let_def)
qed

lemma outq_enable [simp]: "outq (enableSessionFEC i c) = outq c"
  by (simp add: enableSessionFEC_def split: option.split)

lemma outq_ensure:
  assumes "ensurePassiveSessionContext sess s = (s', ctx, refs)"
  shows "outq (core s') = outq (core s)"
proof -
  obtain a act where a: "activeSession (core s) = (a, act)" by (meson surj_pair)
  obtain u rs where td: "teardownSession a s = (u, rs)" by (meson surj_pair)
  have "outq (core u) = outq (core s)" using outq_parts(2) [of a s] td by simp
  then show ?thesis using assms a td
    by (cases "act \<and> a = sess \<and> sessionCancel s \<noteq> None"; cases "act \<and> a \<noteq> sess")
       (auto simp: ensurePassiveSessionContext_def setSessionContext_def Let_def)
qed

lemma lane_at:
  "r < length (lheap (core s)) \<Longrightarrow> lheap (core (onLane r f s)) ! r = f (lheap (core s) ! r)"
  "lanes (core (onLane r f s)) = lanes (core s)" "length (lheap (core (onLane r f s))) = length (lheap (core s))"
  by (simp_all add: onLane_def updLane_def)

text \<open>Operations that keep the lane map and the transports of every lane.\<close>

definition same_legs :: "'l life \<Rightarrow> 'l life \<Rightarrow> bool" where
  "same_legs s t \<longleftrightarrow> lanes (core t) = lanes (core s) \<and> lheap (core t) = lheap (core s)"

lemma same_legs_trans: "same_legs s t \<Longrightarrow> same_legs t u \<Longrightarrow> same_legs s u"
  by (simp add: same_legs_def)

lemma same_legs_parts:
  "same_legs s (markPingAlive k s)" "same_legs s (onCore (enableSessionFEC i) s)" "same_legs s (startLanePing ctx i r leg s)"
  "same_legs s (onCore (activateSession i) s)" "same_legs s (markRunnableLanesDirty i s)" "same_legs s (closeTCPRefs refs s)" "same_legs s s"
  by (simp_all add: same_legs_def markPingAlive_def enableSessionFEC_def startLanePing_def registerPingIfAbsent_def activateSession_def
      markRunnableLanesDirty_def closeTCPRefs_def Let_def split: option.split)

lemma admitLane_result:
  assumes ok: "life_ok s" and k: "Kind leg = KindUDP \<or> Kind leg = KindTCP"
    and t_def: "t = admitLane sess i caps profile leg s"
  shows "activeSession (core t) = (sess, True) \<and> outq (core t) = outq (core s)
    \<and> (\<exists>r. lanes (core t) (sess, i) = Some r \<and> isActive (Kind leg) (lane_leg (lheap (core t) ! r))
      \<and> refForKind (Kind leg) (lane_leg (lheap (core t) ! r)) = leg)"
proof -
  obtain s1 ctx refs where e: "ensurePassiveSessionContext sess s = (s1, ctx, refs)" by (meson prod_cases3)
  define s2 where "s2 = onCore (\<lambda>c. case sendStates c sess of Some _ \<Rightarrow> c
     | None \<Rightarrow> c\<lparr>sendStates := (sendStates c)(sess \<mapsto> \<lparr>nextRepairKey = 0, fecEnabled = False\<rparr>)\<rparr>) s1"
  obtain s3 r where p: "passiveLane sess i s2 = (s3, r)" by (meson surj_pair)
  define s5 where "s5 = onLane r (onLeg (markActive (Kind leg))) (bindConn r leg (registerLaneQoS sess r s3))"
  define s6 where "s6 = (if Kind leg = KindUDP then markPingAlive (KeyForLeg sess i leg) s5 else s5)"
  define s7 where "s7 = (if caps AND CapFEC \<noteq> 0 \<and> profile = FECProfileSLC4Plus1 then onCore (enableSessionFEC sess) s6 else s6)"
  define s8 where "s8 = (if Kind leg = KindUDP \<and> LookupPing (KeyForLeg sess i leg) (laneManager (core s7)) = None
    then startLanePing ctx sess r leg s7 else s7)"
  have t: "t = closeTCPRefs refs (markRunnableLanesDirty sess (onCore (activateSession sess) s8))"
    unfolding t_def admitLane_def e prod.case Let_def s2_def [symmetric] p bindConn_def [symmetric] s5_def [symmetric]
      s6_def [symmetric] s7_def [symmetric] s8_def [symmetric] by (rule HOL.refl)
  have inv2: "life_inv (\<lambda>i. i = sess) s2" unfolding s2_def by (rule inv_quiet [OF inv_ensure [OF ok e] quiet_sendState])
  have r: "r < length (lheap (core s3))" using inv_passiveLane [OF inv2 HOL.refl p] by simp
  have l3: "lanes (core s3) (sess, i) = Some r" using p by (auto simp: passiveLane_def getLane_def Let_def split: option.splits)
  let ?q = "registerLaneQoS sess r s3"
  have q: "lheap (core ?q) = lheap (core s3)" "lanes (core ?q) = lanes (core s3)" by (simp_all add: registerLaneQoS_def)
  define l where "l = lheap (core s3) ! r"
  have l5: "lanes (core s5) (sess, i) = Some r \<and> isActive (Kind leg) (lane_leg (lheap (core s5) ! r))
      \<and> refForKind (Kind leg) (lane_leg (lheap (core s5) ! r)) = leg"
    using k
  proof
    assume u: "Kind leg = KindUDP"
    then have "s5 = onLane r (onLeg (markActive KindUDP)) (onLane r (onLeg (bindUDP leg)) ?q)" by (simp add: s5_def bindConn_def)
    then have "lheap (core s5) ! r = onLeg (markActive KindUDP) (onLeg (bindUDP leg) l)" "lanes (core s5) = lanes (core s3)"
      using r by (simp_all add: lane_at q l_def)
    then show ?thesis using u l3 by (simp add: onLeg_def markActive_def setActive_def bindUDP_def isActive_def refForKind_def)
  next
    assume u: "Kind leg = KindTCP"
    then have "s5 = onLane r (onLeg (markActive KindTCP)) (onLane r (onLeg (bindTCP leg)) ?q)" by (simp add: s5_def bindConn_def)
    then have "lheap (core s5) ! r = onLeg (markActive KindTCP) (onLeg (bindTCP leg) l)" "lanes (core s5) = lanes (core s3)"
      using r by (simp_all add: lane_at q l_def)
    then show ?thesis using u l3 by (simp add: onLeg_def markActive_def setActive_def bindTCP_def isActive_def refForKind_def)
  qed
  have "same_legs s5 s6" "same_legs s6 s7" "same_legs s7 s8" by (simp_all add: s6_def s7_def s8_def same_legs_parts)
  then have "same_legs s5 s8" using same_legs_trans by blast
  then have legs: "same_legs s5 t" unfolding t by (intro same_legs_trans [OF _ same_legs_parts(6)] same_legs_trans [OF _ same_legs_parts(5)]
        same_legs_trans [OF _ same_legs_parts(4)])
  have "outq (core s3) = outq (core s)"
    using p outq_ensure [OF e] by (auto simp: s2_def passiveLane_def Let_def split: option.splits)
  then have "outq (core s5) = outq (core s)"
    by (simp add: s5_def bindConn_def onLane_def updLane_def)
  then have "outq (core t) = outq (core s)"
    by (simp add: t s8_def s7_def s6_def activateSession_def)
  moreover have "activeSession (core t) = (sess, True)"
    by (simp add: t closeTCPRefs_def markRunnableLanesDirty_def activateSession_def activeSession_def Let_def)
  ultimately show ?thesis using legs l5 by (auto simp: same_legs_def)
qed

lemma hello_ack_frame: "encodable (helloAckFrame sess i n c p)" "estimateFrameSize (helloAckFrame sess i n c p) \<noteq> None"
  "decode (wire_frame (helloAckFrame sess i n c p)) = Inr (helloAckFrame sess i n c p)"
proof -
  show e: "encodable (helloAckFrame sess i n c p)" by (simp add: encodable_def helloAckFrame_def)
  show "estimateFrameSize (helloAckFrame sess i n c p) \<noteq> None" by (simp add: helloAckFrame_def estimateFrameSize_def)
  show "decode (wire_frame (helloAckFrame sess i n c p)) = Inr (helloAckFrame sess i n c p)"
    using decode_wire_frame [OF e] by (simp add: canonFrame_def helloAckFrame_def)
qed

text \<open>The passive side: the answer goes out and the lane is up on the transport of the HELLO.\<close>

lemma hello_admits:
  assumes ok: "life_ok (sender h)" and leg: "whole_leg leg" "Kind leg = KindUDP \<or> Kind leg = KindTCP"
    and f: "f_body f = Some (HelloBody nonce hcaps hprofile)"
  obtains h' caps profile where "OnHello True leg f h = Some (h', None)" "life_ok (sender h')"
    "outq (core (sender h')) = outq (core (sender h)) @ [(leg, wire_frame (helloAckFrame (f_session f) (f_lane f) nonce caps profile))]"
    "activeSession (core (sender h')) = (f_session f, True)"
    "\<exists>r. lanes (core (sender h')) (f_session f, f_lane f) = Some r \<and> isActive (Kind leg) (lane_leg (lheap (core (sender h')) ! r))
      \<and> refForKind (Kind leg) (lane_leg (lheap (core (sender h')) ! r)) = leg"
proof -
  define h1 where "h1 = onTable (\<lambda>st. fst (GetOrCreate True st (f_session f))) h"
  obtain caps profile where g: "grantedCaps (fecConfigured (core (sender h1))) hcaps hprofile = (caps, profile)" by (meson surj_pair)
  let ?a = "helloAckFrame (f_session f) (f_lane f) nonce caps profile"
  define s2 where "s2 = onCore (\<lambda>c. c\<lparr>outq := outq (core (sender h)) @ [(leg, wire_frame ?a)]\<rparr>) (sender h1)"
  have ok1: "life_ok (sender h1)" unfolding h1_def onTable_def
    using ok_quiet [OF ok quiet_sessions [of "sender h" "\<lambda>c. fst (GetOrCreate True (sessionManager c) (f_session f))"]] by simp
  have ok2: "life_ok s2" unfolding s2_def by (rule ok_quiet [OF ok1 quiet_out])
  have o1: "outq (core (sender h1)) = outq (core (sender h))" by (simp add: h1_def onTable_def)
  have known: "snd (Get True (sessionManager (core s2)) (f_session f))"
    by (auto simp: s2_def h1_def onTable_def Get_def GetOrCreate_def alloc_def split: option.split)
  have "lanes (core s2) (f_session f, f_lane f) \<noteq> None \<Longrightarrow> activeSession (core s2) = (f_session f, True)"
    using ok2 by (auto simp: life_ok_def life_inv_def)
  then have adm: "admitPassiveHelloAck ?a leg s2 = admitLane (f_session f) (f_lane f) caps profile leg s2"
    using leg(1) known by (cases "activeSession (core s2)") (auto simp: admitPassiveHelloAck_def helloAckFrame_def whole_leg_def getLane_def)
  have w: "glueWrite True ?a leg h1 = Some (h1\<lparr>sender := admitPassiveHelloAck ?a leg s2\<rparr>, None)"
    using leg(1) by (simp add: glueWrite_def WriteFrame_def writeTo_def write_on_leg [OF hello_ack_frame(1,2)] whole_leg_def s2_def o1 onCore_def)
  define h2 where "h2 = h1\<lparr>sender := admitPassiveHelloAck ?a leg s2\<rparr>"
  define h' where "h' = (if caps AND CapLinkStatus \<noteq> 0 then Enable (f_session f) (f_lane f) h2 else h2)"
  have "OnHello True leg f h = Some (h', None)"
    using f w by (simp add: OnHello_def h1_def [symmetric] g h'_def h2_def)
  moreover have s': "sender h' = admitLane (f_session f) (f_lane f) caps profile leg s2" by (simp add: h'_def h2_def adm Enable_def)
  moreover have "life_ok (sender h')" unfolding s' by (rule ok_admitLane [OF ok2])
  ultimately show thesis
    using that [of h' caps profile] admitLane_result [OF ok2 leg(2) s'] by (simp add: s2_def)
qed

lemma on_ack_active:
  assumes r: "h_lane hr < length (lheap (core s))" and k: "Kind (h_leg hr) = KindUDP \<or> Kind (h_leg hr) = KindTCP"
  shows "isActive (Kind (h_leg hr)) (lane_leg (lheap (core (helloOnAck hr s)) ! h_lane hr))"
proof -
  define s1 where "s1 = onLane (h_lane hr) (onLeg (markActive (Kind (h_leg hr)))) s"
  define s2 where "s2 = (if Kind (h_leg hr) = KindUDP then markPingAlive (KeyForLeg (h_sessionID hr) (h_laneID hr) (h_leg hr)) s1 else s1)"
  define s3 where "s3 = syncBwSchedulerAfterLegActive (h_sessionID hr) (markRunnableLanesDirty (h_sessionID hr) s2)"
  have 1: "isActive (Kind (h_leg hr)) (lane_leg (lheap (core s1) ! h_lane hr))"
    using r k by (auto simp: s1_def lane_at onLeg_def markActive_def setActive_def isActive_def)
  have "lheap (core s2) = lheap (core s1)" by (simp add: s2_def markPingAlive_def split: option.split)
  then have "lheap (core s3) = lheap (core s1)"
    by (simp add: s3_def syncBwSchedulerAfterLegActive_def startBwScheduler_def markRunnableLanesDirty_def Let_def)
  moreover have "lane_leg (lheap (core (onLane (h_lane hr) (\<lambda>l. fst (consumeTCPReconnectPending l)) s3)) ! h_lane hr)
      = lane_leg (lheap (core s3) ! h_lane hr)"
    using r calculation by (simp add: lane_at s1_def consumeTCPReconnectPending_def)
  moreover have "helloOnAck hr s = (if Kind (h_leg hr) = KindTCP then onLane (h_lane hr) (\<lambda>l. fst (consumeTCPReconnectPending l)) s3 else s3)"
    by (simp add: helloOnAck_def Let_def s3_def s2_def s1_def)
  ultimately show ?thesis using 1 by (cases "Kind (h_leg hr) = KindTCP") simp_all
qed

text \<open>The active side: the answer to an open HELLO brings the transport up that the HELLO was sent on.\<close>

lemma ack_activates:
  assumes p: "sessions (sessionManager (core (sender g))) sess = Some p"
    and n: "hellos (heap (sessionManager (core (sender g))) ! p) nonce = Some j"
      "hasOnAck (cfg (objs (heap (sessionManager (core (sender g))) ! p) ! j))"
    and hr: "find (\<lambda>h. h_sess h = p \<and> h_index h = j) (helloRuns (sender g)) = Some hr" "h_lane hr < length (lheap (core (sender g)))"
      "Kind (h_leg hr) = KindUDP \<or> Kind (h_leg hr) = KindTCP"
  obtains g' where "OnHelloAck (helloAckFrame sess i nonce caps profile) g = Some (g', None)"
    "isActive (Kind (h_leg hr)) (lane_leg (lheap (core (sender g')) ! h_lane hr))"
proof -
  let ?s = "sender g"
  let ?st = "sessionManager (core ?s)"
  obtain o' where a: "Ack (heap ?st ! p) nonce True = (o', Some j, True)" using n by (simp add: Ack_def Let_def)
  define s1 where "s1 = onCore (\<lambda>c. c\<lparr>sessionManager := ?st\<lparr>heap := (heap ?st)[p := o']\<rparr>\<rparr>) ?s"
  have ack: "sessionAck p nonce True ?s = (helloOnAck hr s1, True)"
    using hr(1) by (simp add: sessionAck_def Let_def a s1_def)
  have act: "isActive (Kind (h_leg hr)) (lane_leg (lheap (core (helloOnAck hr s1)) ! h_lane hr))"
    by (rule on_ack_active) (use hr(2,3) in \<open>simp_all add: s1_def\<close>)
  have fec: "lheap (EnableFEC c) = lheap c" for c :: "nat send"
    by (simp add: EnableFEC_def enableSessionFEC_def Let_def split: prod.split option.split)
  define g1 where "g1 = g\<lparr>sender := helloOnAck hr s1\<rparr>"
  define g2 where "g2 = (if fecConfigured (core (helloOnAck hr s1)) \<and> caps AND CapFEC \<noteq> 0 \<and> profile = FECProfileSLC4Plus1
    then g1\<lparr>sender := onCore EnableFEC (helloOnAck hr s1)\<rparr> else g1)"
  define g' where "g' = (if caps AND CapLinkStatus \<noteq> 0 \<and> caps AND CapFEC \<noteq> 0 then Enable sess i g2 else g2)"
  have "OnHelloAck (helloAckFrame sess i nonce caps profile) g = Some (g', None)"
    using p ack by (simp add: OnHelloAck_def helloAckFrame_def Get_def g'_def g2_def g1_def Let_def)
  moreover have "lheap (core (sender g')) = lheap (core (helloOnAck hr s1))" by (simp add: g'_def g2_def g1_def Enable_def fec)
  ultimately show thesis using that act by simp
qed

text \<open> C30: The handshake. A HELLO that arrives on a transport gets one datagram back on it, and from then on the
  passive end holds the session as its active one with a lane that is up on exactly this transport. The
  datagram decodes to a HELLO_ACK which, on the end whose HELLO with this nonce is open, brings up the
  transport that the HELLO was sent on. \<close>

theorem handshake:
  assumes server: "life_ok (sender h)" "whole_leg leg" "Kind leg = KindUDP \<or> Kind leg = KindTCP"
      "f_body f = Some (HelloBody nonce hcaps hprofile)"
    and client: "sessions (sessionManager (core (sender g))) (f_session f) = Some p"
      "hellos (heap (sessionManager (core (sender g))) ! p) nonce = Some j"
      "hasOnAck (cfg (objs (heap (sessionManager (core (sender g))) ! p) ! j))"
      "find (\<lambda>h. h_sess h = p \<and> h_index h = j) (helloRuns (sender g)) = Some hr" "h_lane hr < length (lheap (core (sender g)))"
      "Kind (h_leg hr) = KindUDP \<or> Kind (h_leg hr) = KindTCP"
  shows "\<exists>h' ack g'. OnHello True leg f h = Some (h', None) \<and> life_ok (sender h')
    \<and> outq (core (sender h')) = outq (core (sender h)) @ [(leg, wire_frame ack)] \<and> decode (wire_frame ack) = Inr ack
    \<and> activeSession (core (sender h')) = (f_session f, True)
    \<and> (\<exists>r. lanes (core (sender h')) (f_session f, f_lane f) = Some r \<and> isActive (Kind leg) (lane_leg (lheap (core (sender h')) ! r))
        \<and> refForKind (Kind leg) (lane_leg (lheap (core (sender h')) ! r)) = leg)
    \<and> OnHelloAck ack g = Some (g', None) \<and> isActive (Kind (h_leg hr)) (lane_leg (lheap (core (sender g')) ! h_lane hr))"
proof -
  obtain h' caps profile where s: "OnHello True leg f h = Some (h', None)" "life_ok (sender h')"
    "outq (core (sender h')) = outq (core (sender h)) @ [(leg, wire_frame (helloAckFrame (f_session f) (f_lane f) nonce caps profile))]"
    "activeSession (core (sender h')) = (f_session f, True)"
    "\<exists>r. lanes (core (sender h')) (f_session f, f_lane f) = Some r \<and> isActive (Kind leg) (lane_leg (lheap (core (sender h')) ! r))
      \<and> refForKind (Kind leg) (lane_leg (lheap (core (sender h')) ! r)) = leg"
    by (rule hello_admits [OF server])
  obtain g' where c: "OnHelloAck (helloAckFrame (f_session f) (f_lane f) nonce caps profile) g = Some (g', None)"
    "isActive (Kind (h_leg hr)) (lane_leg (lheap (core (sender g')) ! h_lane hr))"
    by (rule ack_activates [OF client])
  show ?thesis using s c hello_ack_frame(3) by blast
qed

definition demo_server :: "u64 glue" where
  "demo_server = NewRecvHandler (sender_start [] None 0) []"

definition demo_ping :: frame where
  "demo_ping = \<lparr>f_version = Version, f_type = TypePING, f_session = 9, f_lane = 3, f_body = Some (PingBody 1 2)\<rparr>"

lemma demo_server_simps: "\<not> sessionKnown 9 demo_server" "life_ok (sender demo_server)" "whole_leg demo_conn"
proof -
  have s: "sender demo_server = sender_start [] None 0" by (simp add: demo_server_def NewRecvHandler_def)
  show "life_ok (sender demo_server)" unfolding s by (rule start_ok) simp
  show "\<not> sessionKnown 9 demo_server" unfolding sessionKnown_def s by (simp add: Get_def sender_start_def Bootstrap_def newSend_def onCore_def)
  show "whole_leg demo_conn" by (simp add: whole_leg_def partialRef_def demo_conn_def)
qed


definition demo_hello :: frame where
  "demo_hello = helloFrame False 9 3 0"

lemma handshake_witness:
  "\<exists>h' ack g'. OnHello True demo_conn demo_hello demo_server = Some (h', None)
     \<and> activeSession (core (sender h')) = (9, True) \<and> OnHelloAck ack demo_glue = Some (g', None)
     \<and> isActive KindUDP (lane_leg (lheap (core (sender g')) ! 0))"
proof -
  have f: "f_session demo_hello = 9" "f_body demo_hello = Some (HelloBody 0 0 0)" "Kind demo_conn = KindTCP"
    by (simp_all add: demo_hello_def helloFrame_def demo_conn_def)
  let ?s = "sender demo_glue"
  obtain hr hs where hr: "helloRuns ?s = hr # hs" "h_sess hr = 0" "h_index hr = 0" "h_lane hr = 0" "Kind (h_leg hr) = KindUDP"
    using demo_glue_simps(7) by (auto simp: map_eq_Cons_conv)
  then have find: "find (\<lambda>h. h_sess h = 0 \<and> h_index h = 0) (helloRuns ?s) = Some hr" by simp
  show ?thesis
    using handshake [of demo_server demo_conn demo_hello 0 0 0 demo_glue 0 0 hr] demo_server_simps(2,3) f demo_glue_simps(2,4-6) find hr by simp blast
qed

end
