(* ===== verification/Spec2Isabelle.thy ===== *)
theory Spec2Isabelle
  imports Prelude Protocol Galois Fec Schedule Drr Cfs Dedupe Session RxWindow Leg Lane LaneManager BwGate Ping Send Recv RecvOnce RecvFec
    Bw BwTrain Dialer SendSession SendLife RecvHandler
begin

text \<open>
  A verification library for \<open>multipath\<close>, a Go VPN that carries IP packets over several paths
  (lanes), each a pair of a UDP and a TCP transport, with forward error correction across the
  packets of a lane. All paths below are under \<open>src/\<close>.

  \<^bold>\<open>The program.\<close> A TUN device (\<open>internal/tun\<close>) hands IP packets to the sender
  (\<open>internal/tunnel/v2/send\<close>). The sender picks a lane by deficit round robin or by completely fair
  scheduling, picks a transport of the lane by its quality, numbers the packet in the lane's FEC
  group and queues a DATA frame; every fourth packet, or a timer, adds REPAIR frames computed by
  \<open>internal/fec\<close>. \<open>internal/protocol\<close> is the wire format and \<open>internal/transport\<close> the sockets. The
  receiver (\<open>internal/tunnel/v2/recv\<close>) drops DATA frames it has already emitted, collects the shards
  of each group, reconstructs lost packets and emits to the TUN device. A session is set up by a
  HELLO exchange (\<open>internal/session\<close>); pings and bandwidth probes (\<open>tunnel/v2/probe\<close>) measure the
  transports and share a registry with the receive side.

  \<^bold>\<open>The theories.\<close>

  \<^item> \<open>Prelude\<close>: machine integers, big-endian bytes, lemma collections.
  \<^item> \<open>Protocol\<close>: frames, \<open>Encode\<close> and \<open>Decode\<close> (\<open>protocol.go\<close>, \<open>body.go\<close>). The wire image does not
    depend on stale buffer contents, and encoding and decoding are inverse both ways.
  \<^item> \<open>Galois\<close>, \<open>Fec\<close>: GF(256), the TinyMT32 generator, the coding coefficients and the codec
    (\<open>fec.go\<close>). Reconstruction gives back what was sent; the error cases are exact.
  \<^item> \<open>Schedule\<close>, \<open>Drr\<close>, \<open>Cfs\<close>: the scheduler contract as a locale, and its two providers
    (\<open>schedule/strategy.go\<close>, \<open>drr.go\<close>, \<open>cfs.go\<close>). They are work conserving and fair.
  \<^item> \<open>Session\<close>: the session table and the HELLO retry loop as a step relation (\<open>session.go\<close>).
  \<^item> \<open>Dedupe\<close>, \<open>RxWindow\<close>: the window of emitted identities and the window of FEC groups
    (\<open>recv/dedupe.go\<close>, \<open>recv/rx_group_window.go\<close>): exactly-once marking, no panics, bounded memory,
    and a recoverable group hands the codec the shards that were stored.
  \<^item> \<open>Leg\<close>: addresses, RTT estimation, the quality observer, the selectors and the two transports of
    a lane (\<open>transport/rtt\<close>, \<open>transport/observer\<close>, \<open>transport/selector\<close>, \<open>send/leg.go\<close>).
  \<^item> \<open>Lane\<close>: the lane and its FEC transmit window (\<open>send/lane.go\<close>).
  \<^item> \<open>Ping\<close>: the active ping of a transport (\<open>probe/ping/ping.go\<close>).
  \<^item> \<open>LaneManager\<close>: the registry of probes (\<open>send/lanemanager.go\<close>).
  \<^item> \<open>BwGate\<close>: the gate that orders bandwidth probes between the two ends
    (\<open>send/bwscheduler.go\<close>), as a step relation.
  \<^item> \<open>Send\<close>: the data path of the sender, \<open>Write\<close> down to the transport queue (\<open>send/send.go\<close>).
  \<^item> \<open>Recv\<close>: the receive engine (\<open>recv/recv.go\<close>): one state per session, the DATA and REPAIR
    handlers, the recovery loop, expiry and closing, over a log of what was marked and emitted.
  \<^item> \<open>RecvOnce\<close>: the engine as a relation of small moves; every frame is handled without a panic,
    no identity is emitted twice within the window, and a closed state is silent.
  \<^item> \<open>RecvFec\<close>: end-to-end integrity: from shards a sender made, the engine emits only packets that
    were sent, under their own identity, rebuilt ones included.

  \<^item> \<open>Bw\<close>, \<open>BwTrain\<close>: the bandwidth probe (\<open>probe/bw/bw.go\<close>): the climb of the rate, the passive side's
    acknowledgements and samples, and the active train as a step relation that keeps its byte budget.
  \<^item> \<open>Dialer\<close>: the redial loop of a TCP transport (\<open>send/dialer.go\<close>) and its backoff schedule.

  \<^bold>\<open>Conventions.\<close> A Go integer is a word of its width where wrap-around matters and an \<open>int\<close> or
  \<open>nat\<close> where it cannot occur. A method that holds its object's mutex is one function of the state;
  where critical sections interleave (hello loops, the gate) the component is a step relation. A
  panic, or a loop that never ends, is the result \<open>None\<close>; an error is the left side of a sum.
  Pointers that the code compares or shares are references into a heap. Clocks, random bytes and
  timer expiries are inputs. Third-party packages (Reed-Solomon, red-black tree, bit set) are
  records of operations with the laws the code relies on as locales, each with an instance.

  \<^bold>\<open>Fuel.\<close> \<open>pruneGroups\<close>, \<open>pruneClosed\<close> and \<open>dropAll\<close> run with the size of the tree, of which each
  iteration removes an entry. Other loops are structural or have a termination proof.

  \<^bold>\<open>Not modelled.\<close> Sockets and batched system calls, the TUN devices, the metrics registry and the
  debug log (input and output only). Not yet modelled: the session life cycle of the sender, the
  glue that feeds the receive engine, the receive-side QoS estimator, stream framing and the writer
  dispatcher. The limiter and the tickers that pace a probe train only delay it.
\<close>

end
